(* ===== verification/Prelude.thy ===== *)
theory Prelude
  imports Main "HOL-Library.AList" "HOL-Library.Word" "HOL-Library.Multiset"
begin

text \<open>
  Shared vocabulary of the development.

  A Rust \<open>HashMap\<close> is an association list with distinct keys: its order is the order in which
  the program would iterate over the map, which the language leaves unspecified; every theorem
  is for every such order. \<open>hget\<close>, \<open>hput\<close>, \<open>hdel\<close> are \<open>get\<close>, \<open>insert\<close>, \<open>remove\<close>;
  \<open>hmap_eq\<close> is the equality \<open>HashMap\<close> implements (same length, every entry found on the other
  side). A \<open>HashSet\<close> that the program iterates over is a distinct list (\<open>hset_insert\<close>); one that
  it only queries and combines is a set. A \<open>u64\<close> that the program only compares and steps by one
  is a \<open>nat\<close>; where a caller chooses the summand it is a 64-bit word.

  The loop \<open>for (k, v) in other { self[k] = g(self.get(k), v) }\<close>, which half of the components
  use to merge one map into another, is \<open>hmap_fold\<close>, and its effect is \<open>hget_hmap_fold\<close>.
\<close>

named_theorems hmap_simps \<open>lookups in and domains of updated hash maps\<close>
named_theorems inv_intros \<open>preservation of the components' invariants\<close>

type_synonym u8 = "8 word"
type_synonym u32 = "32 word"
type_synonym u64 = "64 word"
type_synonym uuid = "128 word"
type_synonym ('k, 'v) hmap = "('k \<times> 'v) list"

abbreviation hget :: "('k, 'v) hmap \<Rightarrow> 'k \<Rightarrow> 'v option" where
  "hget m k \<equiv> map_of m k"

abbreviation hput :: "'k \<Rightarrow> 'v \<Rightarrow> ('k, 'v) hmap \<Rightarrow> ('k, 'v) hmap" where
  "hput \<equiv> AList.update"

abbreviation hdel :: "'k \<Rightarrow> ('k, 'v) hmap \<Rightarrow> ('k, 'v) hmap" where
  "hdel \<equiv> AList.delete"

definition hget_or :: "'v \<Rightarrow> ('k, 'v) hmap \<Rightarrow> 'k \<Rightarrow> 'v" where
  "hget_or d m k = (case hget m k of None \<Rightarrow> d | Some v \<Rightarrow> v)"

definition hmap_ok :: "('k, 'v) hmap \<Rightarrow> bool" where
  "hmap_ok m \<longleftrightarrow> distinct (map fst m)"

definition hmap_eq :: "('k, 'v) hmap \<Rightarrow> ('k, 'v) hmap \<Rightarrow> bool" where
  "hmap_eq m n \<longleftrightarrow> length m = length n \<and> list_all (\<lambda>(k, v). hget n k = Some v) m"

definition hmap_eq_by :: "('v \<Rightarrow> 'w \<Rightarrow> bool) \<Rightarrow> ('k, 'v) hmap \<Rightarrow> ('k, 'w) hmap \<Rightarrow> bool" where
  "hmap_eq_by e m n \<longleftrightarrow> length m = length n \<and>
     list_all (\<lambda>(k, v). case hget n k of None \<Rightarrow> False | Some w \<Rightarrow> e v w) m"

definition hset_eq :: "'a list \<Rightarrow> 'a list \<Rightarrow> bool" where
  "hset_eq xs ys \<longleftrightarrow> length xs = length ys \<and> list_all (\<lambda>x. x \<in> set ys) xs"

definition hset_insert :: "'a \<Rightarrow> 'a list \<Rightarrow> 'a list" where
  "hset_insert x xs = (if x \<in> set xs then xs else xs @ [x])"

fun hmap_fold :: "('v option \<Rightarrow> 'w \<Rightarrow> 'v) \<Rightarrow> ('k, 'w) hmap \<Rightarrow> ('k, 'v) hmap \<Rightarrow> ('k, 'v) hmap" where
  "hmap_fold g [] m = m"
| "hmap_fold g ((k, w) # other) m = hmap_fold g other (hput k (g (hget m k) w) m)"

text \<open>The pointwise join of two partial functions.\<close>

definition map_join :: "('v \<Rightarrow> 'v \<Rightarrow> 'v) \<Rightarrow> ('k \<Rightarrow> 'v option) \<Rightarrow> ('k \<Rightarrow> 'v option) \<Rightarrow> 'k \<Rightarrow> 'v option" where
  "map_join c f g k = (case f k of None \<Rightarrow> g k
     | Some x \<Rightarrow> (case g k of None \<Rightarrow> Some x | Some y \<Rightarrow> Some (c x y)))"

subsection \<open>Hash maps\<close>

lemma hget_hput [simp, hmap_simps]: "hget (hput k v m) j = (if j = k then Some v else hget m j)"
  by (simp add: update_conv')

lemma hget_hdel [simp, hmap_simps]: "hget (hdel k m) j = (if j = k then None else hget m j)"
  by (simp add: delete_conv')

lemma hget_or_hput [simp, hmap_simps]: "hget_or d (hput k v m) j = (if j = k then v else hget_or d m j)"
  by (simp add: hget_or_def)

lemma hget_or_hdel [simp, hmap_simps]: "hget_or d (hdel k m) j = (if j = k then d else hget_or d m j)"
  by (simp add: hget_or_def)

lemma hget_or_Nil [simp]: "hget_or d [] k = d"
  by (simp add: hget_or_def)

lemma hmap_ok_Nil [simp, intro]: "hmap_ok []"
  by (simp add: hmap_ok_def)

lemma hmap_ok_Cons: "hmap_ok ((k, v) # m) \<longleftrightarrow> hget m k = None \<and> hmap_ok m"
  by (auto simp: hmap_ok_def map_of_eq_None_iff)

lemma hmap_ok_hput [intro, inv_intros]: "hmap_ok m \<Longrightarrow> hmap_ok (hput k v m)"
  by (simp add: hmap_ok_def distinct_update)

lemma hmap_ok_hdel [intro, inv_intros]: "hmap_ok m \<Longrightarrow> hmap_ok (hdel k m)"
  by (simp add: hmap_ok_def distinct_delete)

lemma hmap_ok_fold [intro, inv_intros]: "hmap_ok m \<Longrightarrow> hmap_ok (hmap_fold g other m)"
  by (induction g other m rule: hmap_fold.induct) auto

lemma hmap_entries: "hmap_ok m \<Longrightarrow> (k, v) \<in> set m \<longleftrightarrow> hget m k = Some v"
  by (simp add: hmap_ok_def)

lemma hmap_ball:
  "hmap_ok m \<Longrightarrow> (\<forall>(k, v)\<in>set m. P k v) \<longleftrightarrow> (\<forall>k v. hget m k = Some v \<longrightarrow> P k v)"
  by (auto simp: hmap_entries [symmetric])

lemma hget_hmap_fold_notin: "hget other k = None \<Longrightarrow> hget (hmap_fold g other m) k = hget m k"
  by (induction g other m rule: hmap_fold.induct) (auto split: if_splits)

lemma hget_hmap_fold:
  "hmap_ok other \<Longrightarrow>
   hget (hmap_fold g other m) k =
     (case hget other k of None \<Rightarrow> hget m k | Some w \<Rightarrow> Some (g (hget m k) w))"
proof (induction g other m rule: hmap_fold.induct)
  case (1 g m)
  then show ?case by simp
next
  case (2 g k' w other m)
  then show ?case
    by (cases "k = k'") (auto simp: hmap_ok_Cons hget_hmap_fold_notin split: option.split)
qed

lemma hmap_keys_card: "hmap_ok m \<Longrightarrow> length m = card (dom (map_of m))"
  by (metis distinct_card dom_map_of_conv_image_fst hmap_ok_def length_map list.set_map)

lemma hmap_same_dom:
  assumes "hmap_ok m" "hmap_ok n" "length m = length n" "dom (map_of m) \<subseteq> dom (map_of n)"
  shows "dom (map_of m) = dom (map_of n)"
  using assms by (simp add: card_subset_eq finite_dom_map_of hmap_keys_card)

lemma hmap_eq_iff:
  assumes "hmap_ok m" and "hmap_ok n"
  shows "hmap_eq m n \<longleftrightarrow> map_of m = map_of n"
proof
  assume eq: "hmap_eq m n"
  then have sub: "map_of m \<subseteq>\<^sub>m map_of n"
    by (fastforce simp: hmap_eq_def list_all_iff map_le_def dest: map_of_SomeD)
  then have "dom (map_of m) \<subseteq> dom (map_of n)" by (rule map_le_implies_dom_le)
  moreover have "length m = length n" using eq by (simp add: hmap_eq_def)
  ultimately have "dom (map_of m) = dom (map_of n)" by (intro hmap_same_dom assms)
  with sub show "map_of m = map_of n" 
    unfolding map_le_def by (intro ext) (metis domIff)
next
  assume eq: "map_of m = map_of n"
  then show "hmap_eq m n"
    using assms by (auto simp: hmap_eq_def list_all_iff hmap_keys_card hmap_entries)
qed

lemma hmap_eq_by_iff:
  assumes m: "hmap_ok m" and n: "hmap_ok n"
  shows "hmap_eq_by e m n \<longleftrightarrow> (\<forall>k. rel_option e (hget m k) (hget n k))"
proof
  assume eq: "hmap_eq_by e m n"
  then have entry: "\<exists>w. hget n k = Some w \<and> e v w" if "hget m k = Some v" for k v
    using map_of_SomeD [OF that]
    by (fastforce simp: hmap_eq_by_def list_all_iff split: option.splits)
  then have "dom (map_of m) \<subseteq> dom (map_of n)" by blast
  then have dom: "dom (map_of m) = dom (map_of n)"
    using eq by (intro hmap_same_dom m n) (simp_all add: hmap_eq_by_def)
  show "\<forall>k. rel_option e (hget m k) (hget n k)"
  proof
    fix k
    have "hget n k = None" if "hget m k = None" using that dom by (metis domIff)
    with entry show "rel_option e (hget m k) (hget n k)"
      by (cases "hget m k") fastforce+
  qed
next
  assume rel: "\<forall>k. rel_option e (hget m k) (hget n k)"
  then have "hget m k = None \<longleftrightarrow> hget n k = None" for k
    by (metis option.rel_sel)
  then have "dom (map_of m) = dom (map_of n)" by (metis domIff subset_antisym subsetI)
  then have "length m = length n" using m n by (simp add: hmap_keys_card)
  moreover have "case hget n k of None \<Rightarrow> False | Some w \<Rightarrow> e v w" if "(k, v) \<in> set m" for k v
    using that m rel [rule_format, of k] by (cases "hget n k") (auto simp: hmap_entries)
  ultimately show "hmap_eq_by e m n" by (auto simp: hmap_eq_by_def list_all_iff)
qed

lemma hset_eq_iff: "distinct xs \<Longrightarrow> distinct ys \<Longrightarrow> hset_eq xs ys \<longleftrightarrow> set xs = set ys"
  by (auto simp: hset_eq_def list_all_iff distinct_card [symmetric])
    (metis List.finite_set card_subset_eq subsetI)

lemma set_hset_insert [simp]: "set (hset_insert x xs) = insert x (set xs)"
  by (auto simp: hset_insert_def)

lemma distinct_hset_insert [intro, inv_intros]: "distinct xs \<Longrightarrow> distinct (hset_insert x xs)"
  by (auto simp: hset_insert_def)

lemma set_fold_hset_insert: "set (fold hset_insert xs acc) = set xs \<union> set acc"
  by (induction xs arbitrary: acc) auto

lemma distinct_fold_hset_insert: "distinct acc \<Longrightarrow> distinct (fold hset_insert xs acc)"
  by (induction xs arbitrary: acc) auto

subsection \<open>Pointwise joins\<close>

lemma map_join_commute: "(\<And>x y. c x y = c y x) \<Longrightarrow> map_join c f g = map_join c g f"
  by (auto simp: map_join_def fun_eq_iff split: option.split)

lemma map_join_assoc:
  "(\<And>x y z. c (c x y) z = c x (c y z)) \<Longrightarrow>
   map_join c (map_join c f g) h = map_join c f (map_join c g h)"
  by (auto simp: map_join_def fun_eq_iff split: option.split)

lemma map_join_idem: "(\<And>x. c x x = x) \<Longrightarrow> map_join c f f = f"
  by (auto simp: map_join_def fun_eq_iff split: option.split)

lemma map_join_fold:
  assumes "hmap_ok other" and "\<And>w. g None w = w" and "\<And>v w. g (Some v) w = c v w"
  shows "map_of (hmap_fold g other m) = map_join c (map_of m) (map_of other)"
  by (rule ext) (simp add: hget_hmap_fold assms map_join_def split: option.split)

end
