(* ===== verification/Ids.thy ===== *)
theory Ids
  imports Prelude
begin

unbundle bit_operations_syntax

text \<open>
  Vertex and edge ids (\<^verbatim>\<open>crates/uni-common/src/core/id.rs\<close>): two distinct newtypes over 64-bit words
  with an invalid sentinel and a top bit for transient, in-query ids. The derived \<open>Ord\<close> is the
  library's \<open>linorder\<close>. \<open>DenseIdx\<close> is the 32-bit index of an in-memory subgraph.
\<close>

datatype vid = Vid (vid_as_u64: u64)

datatype eid = Eid (eid_as_u64: u64)

datatype dense_idx = DenseIdx (idx_as_u32: u32)

definition EPHEMERAL_BIT :: u64 where
  "EPHEMERAL_BIT = push_bit 63 1"

definition vid_INVALID :: vid where
  "vid_INVALID = Vid (- 1)"

definition vid_is_invalid :: "vid \<Rightarrow> bool" where
  "vid_is_invalid v \<longleftrightarrow> vid_as_u64 v = - 1"

definition vid_ephemeral :: "u64 \<Rightarrow> vid" where
  "vid_ephemeral transient_id =
     (if transient_id \<ge> EPHEMERAL_BIT then vid_INVALID else Vid (EPHEMERAL_BIT OR transient_id))"

definition vid_is_ephemeral :: "vid \<Rightarrow> bool" where
  "vid_is_ephemeral v \<longleftrightarrow> vid_as_u64 v AND EPHEMERAL_BIT \<noteq> 0 \<and> \<not> vid_is_invalid v"

definition vid_transient_id :: "vid \<Rightarrow> u64 option" where
  "vid_transient_id v =
     (if vid_is_ephemeral v then Some (vid_as_u64 v AND NOT EPHEMERAL_BIT) else None)"

definition idx_INVALID :: dense_idx where
  "idx_INVALID = DenseIdx (- 1)"

definition idx_is_invalid :: "dense_idx \<Rightarrow> bool" where
  "idx_is_invalid i \<longleftrightarrow> idx_as_u32 i = - 1"

text \<open>The cast \<open>val as u32\<close> truncates.\<close>

definition idx_from_usize :: "nat \<Rightarrow> dense_idx" where
  "idx_from_usize n = DenseIdx (of_nat n)"

instantiation vid :: linorder
begin

definition less_eq_vid :: "vid \<Rightarrow> vid \<Rightarrow> bool" where
  "less_eq_vid a b \<longleftrightarrow> vid_as_u64 a \<le> vid_as_u64 b"

definition less_vid :: "vid \<Rightarrow> vid \<Rightarrow> bool" where
  "less_vid a b \<longleftrightarrow> vid_as_u64 a < vid_as_u64 b"

instance
  by standard (auto simp: less_eq_vid_def less_vid_def vid.expand)

end

instantiation eid :: linorder
begin

definition less_eq_eid :: "eid \<Rightarrow> eid \<Rightarrow> bool" where
  "less_eq_eid a b \<longleftrightarrow> eid_as_u64 a \<le> eid_as_u64 b"

definition less_eid :: "eid \<Rightarrow> eid \<Rightarrow> bool" where
  "less_eid a b \<longleftrightarrow> eid_as_u64 a < eid_as_u64 b"

instance
  by standard (auto simp: less_eq_eid_def less_eid_def eid.expand)

end

subsection \<open>Transient ids\<close>

lemma ephemeral_bit_iff: "bit EPHEMERAL_BIT n \<longleftrightarrow> n = 63"
  unfolding EPHEMERAL_BIT_def bit_push_bit_iff by (auto simp: bit_1_iff)

lemma below_ephemeral_bit:
  assumes "x < EPHEMERAL_BIT"
  shows "\<not> bit x 63"
proof -
  have "unat x < 2 ^ 63" using assms by (simp add: word_less_nat_alt EPHEMERAL_BIT_def)
  then have "\<not> bit (unat x) 63" by (simp add: bit_iff_odd)
  then show ?thesis by (simp add: bit_unsigned_iff)
qed

lemma transient_id_ephemeral:
  assumes "x < EPHEMERAL_BIT" and "x \<noteq> EPHEMERAL_BIT - 1"
  shows "vid_is_ephemeral (vid_ephemeral x) \<and> vid_transient_id (vid_ephemeral x) = Some x"
proof -
  let ?y = "EPHEMERAL_BIT OR x"
  have nobit: "\<not> bit x 63" using assms(1) by (rule below_ephemeral_bit)
  have recover: "?y AND NOT EPHEMERAL_BIT = x"
    using nobit by (intro bit_eqI) (auto simp: bit_simps ephemeral_bit_iff)
  have "bit (?y AND EPHEMERAL_BIT) 63" by (simp add: bit_and_iff bit_or_iff ephemeral_bit_iff)
  then have top: "?y AND EPHEMERAL_BIT \<noteq> 0" by (metis bit_0_eq bot_apply bot_bool_def)
  have "?y \<noteq> - 1"
  proof
    assume "?y = - 1"
    with recover have "x = - 1 AND NOT EPHEMERAL_BIT" by simp
    also have "\<dots> = EPHEMERAL_BIT - 1" by (simp add: EPHEMERAL_BIT_def)
    finally show False using assms(2) by simp
  qed
  moreover have "vid_ephemeral x = Vid ?y" using assms(1) by (auto simp: vid_ephemeral_def)
  ultimately show ?thesis
    using top recover by (simp add: vid_is_ephemeral_def vid_transient_id_def vid_is_invalid_def)
qed

text \<open>
  An ephemeral id gives back the transient id it was built from,
  for every 63-bit transient id but the largest one, which yields the invalid sentinel.
\<close>

theorem vid_transient_roundtrip:
  assumes "x < EPHEMERAL_BIT"
  shows "vid_transient_id (vid_ephemeral x) = (if x = EPHEMERAL_BIT - 1 then None else Some x) \<and>
    (vid_ephemeral x = vid_INVALID \<longleftrightarrow> x = EPHEMERAL_BIT - 1)"
proof (cases "x = EPHEMERAL_BIT - 1")
  case True
  then show ?thesis
    by (simp add: vid_ephemeral_def vid_INVALID_def vid_transient_id_def vid_is_ephemeral_def
        vid_is_invalid_def EPHEMERAL_BIT_def)
next
  case False
  then have "vid_is_ephemeral (vid_ephemeral x) \<and> vid_transient_id (vid_ephemeral x) = Some x"
    using assms by (simp add: transient_id_ephemeral)
  then show ?thesis
    using False by (auto simp: vid_is_ephemeral_def vid_is_invalid_def vid_INVALID_def)
qed

end
