(* ===== verification/Value.thy ===== *)
theory Value
  imports Ids
begin

text \<open>
  Property values (\<^verbatim>\<open>crates/uni-common/src/value.rs\<close>): the enum \<open>Value\<close> with the source's
  variants, its temporal values and the accessors the write buffer uses. A float is its bit
  pattern, a \<open>HashMap<String, Value>\<close> an association list, the structs \<open>Node\<close>, \<open>Edge\<close> and \<open>Path\<close>
  tuples of their fields in order. A property map is a hash map from names to values.
\<close>

type_synonym i32 = "32 word"
type_synonym i64 = "64 word"

datatype temporal_value =
    Date i32
  | LocalTime i64
  | Time i64 i32
  | LocalDateTime i64
  | DateTime i64 i32 "string option"
  | Duration i64 i64 i64
  | BticV i64 i64 u64

datatype val =
    Null
  | Bool bool
  | Int i64
  | Float u64
  | String string
  | Bytes "u8 list"
  | List "val list"
  | Map "(string \<times> val) list"
  | Node "vid \<times> string list \<times> (string \<times> val) list"
  | Edge "eid \<times> string \<times> vid \<times> vid \<times> (string \<times> val) list"
  | Path "(vid \<times> string list \<times> (string \<times> val) list) list"
      "(eid \<times> string \<times> vid \<times> vid \<times> (string \<times> val) list) list"
  | Vector "u32 list"
  | SparseVector "u32 list" "u32 list"
  | BinaryVector "u8 list"
  | Temporal temporal_value

type_synonym properties = "(string, val) hmap"

definition is_null :: "val \<Rightarrow> bool" where
  "is_null v \<longleftrightarrow> (case v of Null \<Rightarrow> True | _ \<Rightarrow> False)"

definition as_str :: "val \<Rightarrow> string option" where
  "as_str v = (case v of String s \<Rightarrow> Some s | _ \<Rightarrow> None)"

definition is_map :: "val \<Rightarrow> bool" where
  "is_map v \<longleftrightarrow> (case v of Map _ \<Rightarrow> True | _ \<Rightarrow> False)"

lemma as_str_Some: "as_str v = Some s \<longleftrightarrow> v = String s"
  by (cases v) (simp_all add: as_str_def)

lemma is_null_iff: "is_null v \<longleftrightarrow> v = Null"
  by (cases v) (simp_all add: is_null_def)

end
