(* ===== verification/Simple_Graph.thy ===== *)
theory Simple_Graph
  imports Ids
begin

text \<open>
  The in-memory adjacency graph (\<^verbatim>\<open>crates/uni-common/src/graph/simple_graph.rs\<close>).

  Every edge is stored three times, in its source's and its target's list and in a map from edge id
  to the edge and its two list positions; \<open>remove_edge\<close> swaps the last entry into the gap and has
  to repair the moved edge's position. A panic (\<open>swap_remove\<close> out of range, \<open>expect\<close>) is \<open>None\<close>,
  and so is a loop that does not end. The invariant \<open>graph_ok\<close> ties the three copies together;
  under it no operation panics, and the graph refines a set of vertices and a finite map of
  edges. The locale \<open>digraph\<close> is the contract the write buffer relies on.
\<close>

record edge_entry =
  ee_eid :: eid
  ee_src :: vid
  ee_dst :: vid
  ee_type :: u32

type_synonym edge_slot = "edge_entry \<times> nat \<times> nat"

record simple_graph =
  g_vertices :: "(vid, unit) hmap"
  g_outgoing :: "(vid, edge_entry list) hmap"
  g_incoming :: "(vid, edge_entry list) hmap"
  g_edge_map :: "(eid, edge_slot) hmap"

datatype direction = Outgoing | Incoming

definition graph_new :: simple_graph where
  "graph_new = \<lparr>g_vertices = [], g_outgoing = [], g_incoming = [], g_edge_map = []\<rparr>"

definition add_vertex :: "simple_graph \<Rightarrow> vid \<Rightarrow> bool \<times> simple_graph" where
  "add_vertex g v =
     (hget (g_vertices g) v = None, g\<lparr>g_vertices := hput v () (g_vertices g)\<rparr>)"

definition contains_vertex :: "simple_graph \<Rightarrow> vid \<Rightarrow> bool" where
  "contains_vertex g v \<longleftrightarrow> hget (g_vertices g) v \<noteq> None"

definition vertex_count :: "simple_graph \<Rightarrow> nat" where
  "vertex_count g = length (g_vertices g)"

text \<open>\<open>Vec::swap_remove\<close>: \<open>None\<close> is its panic.\<close>

definition swap_remove :: "'a list \<Rightarrow> nat \<Rightarrow> 'a list option" where
  "swap_remove xs i = (if i < length xs then Some (butlast (xs[i := last xs])) else None)"

text \<open>
  One half of \<open>remove_edge\<close>: take the entry at \<open>pos\<close> out of the list of \<open>v\<close> and tell the edge that
  moved into its place. \<open>set_pos\<close> writes the first or the second position of a slot.
\<close>

definition retire ::
  "(nat \<Rightarrow> nat \<times> nat \<Rightarrow> nat \<times> nat) \<Rightarrow> vid \<Rightarrow> nat \<Rightarrow>
   (vid, edge_entry list) hmap \<Rightarrow> (eid, edge_slot) hmap \<Rightarrow>
   ((vid, edge_entry list) hmap \<times> (eid, edge_slot) hmap) option" where
  "retire set_pos v pos adj em =
     (case hget adj v of
        None \<Rightarrow> Some (adj, em)
      | Some xs \<Rightarrow>
          (case swap_remove xs pos of
             None \<Rightarrow> None
           | Some xs' \<Rightarrow>
               if pos < length xs' then
                 (case hget em (ee_eid (xs' ! pos)) of
                    None \<Rightarrow> None
                  | Some (e, ps) \<Rightarrow> Some (hput v xs' adj, hput (ee_eid (xs' ! pos)) (e, set_pos pos ps) em))
               else Some (hput v xs' adj, em)))"

definition set_out_pos :: "nat \<Rightarrow> nat \<times> nat \<Rightarrow> nat \<times> nat" where
  "set_out_pos p ps = (p, snd ps)"

definition set_in_pos :: "nat \<Rightarrow> nat \<times> nat \<Rightarrow> nat \<times> nat" where
  "set_in_pos p ps = (fst ps, p)"

definition remove_edge :: "simple_graph \<Rightarrow> eid \<Rightarrow> (edge_entry option \<times> simple_graph) option" where
  "remove_edge g i =
     (case hget (g_edge_map g) i of
        None \<Rightarrow> Some (None, g)
      | Some (entry, out_pos, in_pos) \<Rightarrow>
          (case retire set_out_pos (ee_src entry) out_pos (g_outgoing g) (hdel i (g_edge_map g)) of
             None \<Rightarrow> None
           | Some (outgoing', em1) \<Rightarrow>
               (case retire set_in_pos (ee_dst entry) in_pos (g_incoming g) em1 of
                  None \<Rightarrow> None
                | Some (incoming', em2) \<Rightarrow>
                    Some (Some entry,
                      g\<lparr>g_outgoing := outgoing', g_incoming := incoming', g_edge_map := em2\<rparr>))))"

partial_function (option) drain_out :: "vid \<Rightarrow> simple_graph \<Rightarrow> simple_graph option" where
  "drain_out v g =
     (case hget (g_outgoing g) v of
        None \<Rightarrow> Some g
      | Some xs \<Rightarrow>
          if xs = [] then Some g
          else Option.bind (remove_edge g (ee_eid (last xs))) (\<lambda>(_, g'). drain_out v g'))"

partial_function (option) drain_in :: "vid \<Rightarrow> simple_graph \<Rightarrow> simple_graph option" where
  "drain_in v g =
     (case hget (g_incoming g) v of
        None \<Rightarrow> Some g
      | Some xs \<Rightarrow>
          if xs = [] then Some g
          else Option.bind (remove_edge g (ee_eid (last xs))) (\<lambda>(_, g'). drain_in v g'))"

definition remove_vertex :: "simple_graph \<Rightarrow> vid \<Rightarrow> simple_graph option" where
  "remove_vertex g v =
     Option.bind (drain_out v (g\<lparr>g_vertices := hdel v (g_vertices g)\<rparr>)) (\<lambda>g1.
     Option.bind (drain_in v g1) (\<lambda>g2.
       Some (g2\<lparr>g_outgoing := hdel v (g_outgoing g2), g_incoming := hdel v (g_incoming g2)\<rparr>)))"

definition add_edge_unchecked :: "simple_graph \<Rightarrow> vid \<Rightarrow> vid \<Rightarrow> eid \<Rightarrow> u32 \<Rightarrow> simple_graph option" where
  "add_edge_unchecked g src dst i ty =
     (let entry = \<lparr>ee_eid = i, ee_src = src, ee_dst = dst, ee_type = ty\<rparr> in
      Option.bind
        (if hget (g_edge_map g) i \<noteq> None then map_option snd (remove_edge g i) else Some g)
        (\<lambda>g1.
          let outs = hget_or [] (g_outgoing g1) src;
              ins = hget_or [] (g_incoming g1) dst
          in Some (g1\<lparr>g_outgoing := hput src (outs @ [entry]) (g_outgoing g1),
                      g_incoming := hput dst (ins @ [entry]) (g_incoming g1),
                      g_edge_map := hput i (entry, length outs, length ins) (g_edge_map g1)\<rparr>)))"

definition add_edge :: "simple_graph \<Rightarrow> vid \<Rightarrow> vid \<Rightarrow> eid \<Rightarrow> u32 \<Rightarrow> simple_graph option" where
  "add_edge g src dst i ty =
     add_edge_unchecked (snd (add_vertex (snd (add_vertex g src)) dst)) src dst i ty"

definition neighbors :: "simple_graph \<Rightarrow> vid \<Rightarrow> direction \<Rightarrow> edge_entry list" where
  "neighbors g v d =
     hget_or [] (case d of Outgoing \<Rightarrow> g_outgoing g | Incoming \<Rightarrow> g_incoming g) v"

definition graph_edges :: "simple_graph \<Rightarrow> edge_entry list" where
  "graph_edges g = concat (map snd (g_outgoing g))"

definition graph_edge :: "simple_graph \<Rightarrow> eid \<Rightarrow> edge_entry option" where
  "graph_edge g i = map_option fst (hget (g_edge_map g) i)"

definition edge_count :: "simple_graph \<Rightarrow> nat" where
  "edge_count g = length (g_edge_map g)"

definition graph_vertices :: "simple_graph \<Rightarrow> vid list" where
  "graph_vertices g = map fst (g_vertices g)"

definition graph_clear :: "simple_graph \<Rightarrow> simple_graph" where
  "graph_clear g = g\<lparr>g_vertices := [], g_outgoing := [], g_incoming := [], g_edge_map := []\<rparr>"

subsection \<open>One direction of the adjacency\<close>

text \<open>
  \<open>adj\<close> gives a vertex's list and \<open>f\<close> an edge's entry and its position in that list; \<open>endp\<close> is the
  end the direction is about.
\<close>

definition dir_ok ::
  "(edge_entry \<Rightarrow> vid) \<Rightarrow> (vid \<Rightarrow> edge_entry list) \<Rightarrow> (eid \<Rightarrow> (edge_entry \<times> nat) option) \<Rightarrow> bool" where
  "dir_ok endp adj f \<longleftrightarrow>
     (\<forall>i e p. f i = Some (e, p) \<longrightarrow>
        ee_eid e = i \<and> p < length (adj (endp e)) \<and> adj (endp e) ! p = e) \<and>
     (\<forall>v p. p < length (adj v) \<longrightarrow>
        f (ee_eid (adj v ! p)) = Some (adj v ! p, p) \<and> endp (adj v ! p) = v)"

lemma dir_okD1:
  "dir_ok endp adj f \<Longrightarrow> f i = Some (e, p) \<Longrightarrow>
   ee_eid e = i \<and> p < length (adj (endp e)) \<and> adj (endp e) ! p = e"
  by (simp add: dir_ok_def)

lemma dir_okD2:
  "dir_ok endp adj f \<Longrightarrow> p < length (adj v) \<Longrightarrow>
   f (ee_eid (adj v ! p)) = Some (adj v ! p, p) \<and> endp (adj v ! p) = v"
  by (simp add: dir_ok_def)

lemma dir_okI:
  assumes "\<And>i e p. f i = Some (e, p) \<Longrightarrow>
      ee_eid e = i \<and> p < length (adj (endp e)) \<and> adj (endp e) ! p = e"
    and "\<And>v p. p < length (adj v) \<Longrightarrow>
      f (ee_eid (adj v ! p)) = Some (adj v ! p, p) \<and> endp (adj v ! p) = v"
  shows "dir_ok endp adj f"
  using assms by (simp add: dir_ok_def)

lemma dir_ok_append:
  assumes ok: "dir_ok endp adj f" and new: "f (ee_eid e) = None" and v: "v = endp e"
  shows "dir_ok endp (adj(v := adj v @ [e])) (f(ee_eid e \<mapsto> (e, length (adj v))))"
proof -
  have "ee_eid (adj u ! p) \<noteq> ee_eid e" if "p < length (adj u)" for u p
    using dir_okD2 [OF ok that] new by auto
  note old = this
  show ?thesis
  proof (rule dir_okI)
    fix i e' p
    assume "(f(ee_eid e \<mapsto> (e, length (adj v)))) i = Some (e', p)"
    then consider "i = ee_eid e" "e' = e" "p = length (adj v)" | "i \<noteq> ee_eid e" "f i = Some (e', p)"
      by (auto split: if_splits)
    then show "ee_eid e' = i \<and> p < length ((adj(v := adj v @ [e])) (endp e')) \<and>
        (adj(v := adj v @ [e])) (endp e') ! p = e'"
    proof cases
      case 2
      then show ?thesis using dir_okD1 [OF ok 2(2)] by (cases "endp e' = v") (auto simp: nth_append)
    qed (simp add: v)
  next
    fix u p
    assume "p < length ((adj(v := adj v @ [e])) u)"
    then consider "u = v" "p = length (adj v)" | "p < length (adj u)"
      by (cases "u = v") (auto simp: less_Suc_eq)
    then show "(f(ee_eid e \<mapsto> (e, length (adj v)))) (ee_eid ((adj(v := adj v @ [e])) u ! p)) =
        Some ((adj(v := adj v @ [e])) u ! p, p) \<and> endp ((adj(v := adj v @ [e])) u ! p) = u"
    proof cases
      case 2
      then show ?thesis using dir_okD2 [OF ok 2] old [OF 2] by (cases "u = v") (auto simp: nth_append)
    qed (simp add: v)
  qed
qed

lemma nth_swap_remove:
  assumes "swap_remove xs p = Some ys"
  shows "p < length xs" "length ys = length xs - 1"
    "q < length ys \<Longrightarrow> ys ! q = (if q = p then xs ! (length xs - 1) else xs ! q)"
proof -
  have p: "p < length xs" and ys: "ys = butlast (xs[p := last xs])"
    using assms by (auto simp: swap_remove_def split: if_splits)
  then have "last xs = xs ! (length xs - 1)" by (intro last_conv_nth) auto
  with p ys show "p < length xs" "length ys = length xs - 1"
    "q < length ys \<Longrightarrow> ys ! q = (if q = p then xs ! (length xs - 1) else xs ! q)"
    by (auto simp: nth_butlast)
qed

lemma dir_ok_swap_remove:
  assumes ok: "dir_ok endp adj f" and i: "f i = Some (e, p)" and v: "v = endp e"
    and ys: "swap_remove (adj v) p = Some ys"
  shows "dir_ok endp (adj(v := ys))
    (if p < length ys then (f(i := None))(ee_eid (ys ! p) \<mapsto> (ys ! p, p)) else f(i := None))"
proof -
  let ?n = "length (adj v)"
  note at_i = dir_okD1 [OF ok i]
  note sr = nth_swap_remove [OF ys]
  have uniq: "u = w \<and> q = r" if "q < length (adj u)" "r < length (adj w)" "ee_eid (adj u ! q) = ee_eid (adj w ! r)" for u w q r
    using dir_okD2 [OF ok that(1)] dir_okD2 [OF ok that(2)] that(3) by (metis option.inject prod.inject)
  have other: "ee_eid (adj u ! q) \<noteq> i" if "q < length (adj u)" "u \<noteq> v \<or> q \<noteq> p" for u q
    using that uniq [of q u p v] at_i v by metis
  show ?thesis
  proof (cases "p < length ys")
    case True
    then have last: "ys ! p = adj v ! (?n - 1)" "?n - 1 \<noteq> p" "?n - 1 < ?n"
      using sr by auto
    let ?m = "ee_eid (ys ! p)"
    let ?f = "(f(i := None))(?m \<mapsto> (ys ! p, p))"
    have m: "f ?m = Some (ys ! p, ?n - 1)" "endp (ys ! p) = v"
      using dir_okD2 [OF ok last(3)] last(1) by auto
    have "ee_eid e' = j \<and> q < length ((adj(v := ys)) (endp e')) \<and> (adj(v := ys)) (endp e') ! q = e'"
      if "?f j = Some (e', q)" for j e' q
    proof (cases "j = ?m")
      case True
      then show ?thesis using that m \<open>p < length ys\<close> by auto
    next
      case False
      then have j: "j \<noteq> i" "f j = Some (e', q)" using that by (auto split: if_splits)
      note at_j = dir_okD1 [OF ok j(2)]
      show ?thesis
      proof (cases "endp e' = v")
        case True
        then have "q \<noteq> p" "q \<noteq> ?n - 1" using at_j at_i j(1) False last(1) v by auto
        then show ?thesis using at_j True sr by auto
      next
        case False
        then show ?thesis using at_j by simp
      qed
    qed
    moreover have "?f (ee_eid ((adj(v := ys)) u ! q)) = Some ((adj(v := ys)) u ! q, q) \<and>
        endp ((adj(v := ys)) u ! q) = u" if "q < length ((adj(v := ys)) u)" for u q
    proof (cases "u = v \<and> q = p")
      case True
      then show ?thesis using m by simp
    next
      case False
      have q: "q < length (adj u)" "(adj(v := ys)) u ! q = adj u ! q"
        using that False sr by (auto split: if_splits)
      have "u \<noteq> v \<or> q \<noteq> ?n - 1" using that sr by (auto split: if_splits)
      then have "ee_eid (adj u ! q) \<noteq> ?m" using uniq [OF q(1) last(3)] last(1) by auto
      then show ?thesis using q other [OF q(1)] False dir_okD2 [OF ok q(1)] by auto
    qed
    ultimately have "dir_ok endp (adj(v := ys)) ?f" by (rule dir_okI)
    then show ?thesis using True by simp
  next
    case False
    then have p: "p = ?n - 1" using sr at_i by auto
    have "ys ! q = adj v ! q" if "q < length ys" for q using sr(2,3) that False by auto
    note same = this
    have "dir_ok endp (adj(v := ys)) (f(i := None))"
    proof (rule dir_okI)
      fix j e' q
      assume "(f(i := None)) j = Some (e', q)"
      then have j: "j \<noteq> i" "f j = Some (e', q)" by (auto split: if_splits)
      note at_j = dir_okD1 [OF ok j(2)]
      have "q \<noteq> p" if "endp e' = v" using that at_j at_i j(1) v by auto
      then show "ee_eid e' = j \<and> q < length ((adj(v := ys)) (endp e')) \<and> (adj(v := ys)) (endp e') ! q = e'"
        using at_j sr(2) p same by auto
    next
      fix u q
      assume "q < length ((adj(v := ys)) u)"
      then have q: "q < length (adj u)" "(adj(v := ys)) u ! q = adj u ! q" "u \<noteq> v \<or> q \<noteq> p"
        using same sr(2) p by (auto split: if_splits)
      then show "(f(i := None)) (ee_eid ((adj(v := ys)) u ! q)) = Some ((adj(v := ys)) u ! q, q) \<and>
          endp ((adj(v := ys)) u ! q) = u"
        using other [OF q(1) q(3)] dir_okD2 [OF ok q(1)] by simp
    qed
    then show ?thesis using False by simp
  qed
qed

subsection \<open>The invariant\<close>

definition pos_view ::
  "(nat \<times> nat \<Rightarrow> nat) \<Rightarrow> (eid, edge_slot) hmap \<Rightarrow> eid \<Rightarrow> (edge_entry \<times> nat) option" where
  "pos_view pos em i = map_option (\<lambda>(e, ps). (e, pos ps)) (hget em i)"

definition graph_ok :: "simple_graph \<Rightarrow> bool" where
  "graph_ok g \<longleftrightarrow>
     hmap_ok (g_vertices g) \<and> hmap_ok (g_outgoing g) \<and> hmap_ok (g_incoming g) \<and> hmap_ok (g_edge_map g) \<and>
     dir_ok ee_src (hget_or [] (g_outgoing g)) (pos_view fst (g_edge_map g)) \<and>
     dir_ok ee_dst (hget_or [] (g_incoming g)) (pos_view snd (g_edge_map g))"

lemma pos_view_hput [simp]: "pos_view pos (hput i (e, ps) em) = (pos_view pos em)(i \<mapsto> (e, pos ps))"
  by (auto simp: pos_view_def)

lemma pos_view_hdel [simp]: "pos_view pos (hdel i em) = (pos_view pos em)(i := None)"
  by (auto simp: pos_view_def)

lemma pos_view_Some: "pos_view pos em i = Some (e, p) \<longleftrightarrow> (\<exists>ps. hget em i = Some (e, ps) \<and> pos ps = p)"
  by (cases "hget em i") (auto simp: pos_view_def)

lemma graph_edge_view: "graph_edge g i = map_option fst (pos_view pos (g_edge_map g) i)"
  by (simp add: graph_edge_def pos_view_def option.map_comp comp_def case_prod_unfold)

lemma hget_or_hput_fun: "hget_or d (hput k v m) = (hget_or d m)(k := v)"
  by (auto simp: hget_or_def)

lemma retire_ok:
  assumes ok: "dir_ok endp (hget_or [] adj) f" and i: "f i = Some (e, p)"
    and em: "pos_view pos em = f(i := None)" and maps: "hmap_ok adj" "hmap_ok em"
    and set_pos: "\<And>p ps. pos (set_pos p ps) = p" "\<And>p ps. opos (set_pos p ps) = opos ps"
  shows "\<exists>adj' em'. retire set_pos (endp e) p adj em = Some (adj', em') \<and> hmap_ok adj' \<and> hmap_ok em' \<and>
    dir_ok endp (hget_or [] adj') (pos_view pos em') \<and> pos_view opos em' = pos_view opos em"
proof -
  let ?xs = "hget_or [] adj (endp e)"
  have p: "p < length ?xs" and at: "?xs ! p = e" "ee_eid e = i"
    using dir_okD1 [OF ok i] by simp_all
  then have xs: "hget adj (endp e) = Some ?xs"
    by (cases "hget adj (endp e)") (simp_all add: hget_or_def)
  obtain ys where ys: "swap_remove ?xs p = Some ys" using p by (simp add: swap_remove_def)
  note sr = nth_swap_remove [OF ys]
  note step = dir_ok_swap_remove [OF ok i refl ys]
  show ?thesis
  proof (cases "p < length ys")
    case True
    let ?n = "length ?xs - 1"
    have last: "ys ! p = ?xs ! ?n" "?n < length ?xs" "?n \<noteq> p" using sr(2) sr(3) [OF True] True by auto
    have moved: "f (ee_eid (ys ! p)) = Some (ys ! p, ?n)"
      using dir_okD2 [OF ok last(2)] last(1) by simp
    then have "ee_eid (ys ! p) \<noteq> i" using i last(3) by auto
    then have "pos_view pos em (ee_eid (ys ! p)) = Some (ys ! p, ?n)" using moved em by simp
    then obtain ps where ps: "hget em (ee_eid (ys ! p)) = Some (ys ! p, ps)"
      by (auto simp: pos_view_Some)
    have "opos ps = opos (set_pos p ps)" by (simp add: set_pos)
    then have "pos_view opos (hput (ee_eid (ys ! p)) (ys ! p, set_pos p ps) em) = pos_view opos em"
      using ps by (auto simp: pos_view_def)
    then show ?thesis
      using step True xs ys ps maps em
      by (auto simp: retire_def hget_or_hput_fun set_pos)
  next
    case False
    then show ?thesis
      using step xs ys maps em by (auto simp: retire_def hget_or_hput_fun)
  qed
qed

lemma remove_edge_absent: "graph_edge g i = None \<Longrightarrow> remove_edge g i = Some (None, g)"
  by (simp add: graph_edge_def remove_edge_def)

lemma remove_edge_present:
  assumes ok: "graph_ok g" and e: "graph_edge g i = Some e"
  shows "\<exists>g'. remove_edge g i = Some (Some e, g') \<and> graph_ok g' \<and> g_vertices g' = g_vertices g \<and>
    graph_edge g' = (graph_edge g)(i := None)"
proof -
  let ?em = "g_edge_map g"
  obtain op ip where slot: "hget ?em i = Some (e, op, ip)"
    using e by (auto simp: graph_edge_def)
  have out: "dir_ok ee_src (hget_or [] (g_outgoing g)) (pos_view fst ?em)" "pos_view fst ?em i = Some (e, op)"
    and inc: "dir_ok ee_dst (hget_or [] (g_incoming g)) (pos_view snd ?em)" "pos_view snd ?em i = Some (e, ip)"
    and maps: "hmap_ok (g_outgoing g)" "hmap_ok (g_incoming g)" "hmap_ok (hdel i ?em)"
    using ok slot by (auto simp: graph_ok_def pos_view_def)
  obtain og em1 where r1: "retire set_out_pos (ee_src e) op (g_outgoing g) (hdel i ?em) = Some (og, em1)"
    and o1: "hmap_ok og" "hmap_ok em1" "dir_ok ee_src (hget_or [] og) (pos_view fst em1)"
      "pos_view snd em1 = pos_view snd (hdel i ?em)"
    using retire_ok [OF out pos_view_hdel maps(1,3), where set_pos = set_out_pos and opos = snd]
    by (auto simp: set_out_pos_def)
  have em1: "pos_view snd em1 = (pos_view snd ?em)(i := None)" using o1(4) by simp
  obtain ig em2 where r2: "retire set_in_pos (ee_dst e) ip (g_incoming g) em1 = Some (ig, em2)"
    and o2: "hmap_ok ig" "hmap_ok em2" "dir_ok ee_dst (hget_or [] ig) (pos_view snd em2)"
      "pos_view fst em2 = pos_view fst em1"
    using retire_ok [OF inc em1 maps(2) o1(2), where set_pos = set_in_pos and opos = fst]
    by (auto simp: set_in_pos_def)
  let ?g = "g\<lparr>g_outgoing := og, g_incoming := ig, g_edge_map := em2\<rparr>"
  have "remove_edge g i = Some (Some e, ?g)"
    by (simp add: remove_edge_def slot r1 r2)
  moreover have "graph_ok ?g"
    using ok o1 o2 by (simp add: graph_ok_def)
  moreover have "graph_edge ?g = (graph_edge g)(i := None)"
  proof
    fix j
    have "graph_edge ?g j = map_option fst (pos_view fst em1 j)"
      using o2(4) by (simp add: graph_edge_view [where pos = fst])
    also have "\<dots> = map_option fst (pos_view snd em1 j)"
      by (simp add: pos_view_def option.map_comp comp_def case_prod_unfold)
    also have "\<dots> = ((graph_edge g)(i := None)) j"
      using em1 by (simp add: graph_edge_view [where pos = snd])
    finally show "graph_edge ?g j = ((graph_edge g)(i := None)) j" .
  qed
  ultimately show ?thesis by (intro exI [of _ ?g]) simp
qed

subsection \<open>Adjacency lists and edge map agree\<close>

lemma dir_ok_set:
  assumes "dir_ok endp adj f"
  shows "e \<in> set (adj v) \<longleftrightarrow> (\<exists>p. f (ee_eid e) = Some (e, p)) \<and> endp e = v"
proof
  assume "e \<in> set (adj v)"
  then obtain p where "p < length (adj v)" "adj v ! p = e" by (auto simp: in_set_conv_nth)
  then show "(\<exists>p. f (ee_eid e) = Some (e, p)) \<and> endp e = v"
    using dir_okD2 [OF assms, of p v] by auto
next
  assume "(\<exists>p. f (ee_eid e) = Some (e, p)) \<and> endp e = v"
  then obtain p where "f (ee_eid e) = Some (e, p)" "endp e = v" by blast
  then show "e \<in> set (adj v)" using dir_okD1 [OF assms] nth_mem by metis
qed

lemma dir_ok_distinct: "dir_ok endp adj f \<Longrightarrow> distinct (adj v)"
  unfolding distinct_conv_nth by (metis dir_okD2 option.inject prod.inject)

lemma graph_edge_eid: "graph_ok g \<Longrightarrow> graph_edge g i = Some e \<Longrightarrow> ee_eid e = i"
  by (auto simp: graph_ok_def graph_edge_view [where pos = fst] dest: dir_okD1)

lemma neighbors_set:
  assumes "graph_ok g"
  shows "set (neighbors g v Outgoing) = {e. graph_edge g (ee_eid e) = Some e \<and> ee_src e = v}"
    "set (neighbors g v Incoming) = {e. graph_edge g (ee_eid e) = Some e \<and> ee_dst e = v}"
    "distinct (neighbors g v d)"
proof -
  have out: "dir_ok ee_src (hget_or [] (g_outgoing g)) (pos_view fst (g_edge_map g))"
    and inc: "dir_ok ee_dst (hget_or [] (g_incoming g)) (pos_view snd (g_edge_map g))"
    using assms by (simp_all add: graph_ok_def)
  show "set (neighbors g v Outgoing) = {e. graph_edge g (ee_eid e) = Some e \<and> ee_src e = v}"
    using dir_ok_set [OF out] by (auto simp: neighbors_def graph_edge_view [where pos = fst])
  show "set (neighbors g v Incoming) = {e. graph_edge g (ee_eid e) = Some e \<and> ee_dst e = v}"
    using dir_ok_set [OF inc] by (auto simp: neighbors_def graph_edge_view [where pos = snd])
  show "distinct (neighbors g v d)"
    using dir_ok_distinct [OF out] dir_ok_distinct [OF inc] by (cases d) (simp_all add: neighbors_def)
qed

lemma edge_count_card: "graph_ok g \<Longrightarrow> edge_count g = card (dom (graph_edge g))"
proof -
  assume "graph_ok g"
  moreover have "dom (graph_edge g) = dom (map_of (g_edge_map g))"
    by (auto simp: graph_edge_def)
  ultimately show ?thesis by (simp add: edge_count_def hmap_keys_card graph_ok_def)
qed

lemma finite_graph_edge: "finite (dom (graph_edge g))"
proof -
  have "dom (graph_edge g) = dom (map_of (g_edge_map g))" by (auto simp: graph_edge_def)
  then show ?thesis by (simp add: finite_dom_map_of)
qed

subsection \<open>Removing a vertex\<close>

definition drop_edges :: "(edge_entry \<Rightarrow> bool) \<Rightarrow> (eid \<Rightarrow> edge_entry option) \<Rightarrow> eid \<Rightarrow> edge_entry option" where
  "drop_edges P es i = (case es i of None \<Rightarrow> None | Some e \<Rightarrow> if P e then None else Some e)"

lemma drop_edges_upd: "es i = Some e \<Longrightarrow> P e \<Longrightarrow> drop_edges P (es(i := None)) = drop_edges P es"
  by (auto simp: drop_edges_def fun_eq_iff)

lemma drop_edges_none: "(\<And>i e. es i = Some e \<Longrightarrow> \<not> P e) \<Longrightarrow> drop_edges P es = es"
  by (auto simp: drop_edges_def fun_eq_iff split: option.split)

lemma drop_edges_twice: "drop_edges P (drop_edges Q es) = drop_edges (\<lambda>e. Q e \<or> P e) es"
  by (auto simp: drop_edges_def fun_eq_iff split: option.split)

lemma remove_edge_step:
  assumes ok: "graph_ok g" and e: "graph_edge g (ee_eid e) = Some e" "P e"
  shows "\<exists>g'. remove_edge g (ee_eid e) = Some (Some e, g') \<and> graph_ok g' \<and> g_vertices g' = g_vertices g \<and>
    drop_edges P (graph_edge g') = drop_edges P (graph_edge g) \<and> edge_count g' < edge_count g"
proof -
  obtain g' where g': "remove_edge g (ee_eid e) = Some (Some e, g')" "graph_ok g'"
    "g_vertices g' = g_vertices g" "graph_edge g' = (graph_edge g)(ee_eid e := None)"
    using remove_edge_present [OF ok e(1)] by blast
  have "card (dom (graph_edge g')) < card (dom (graph_edge g))"
    unfolding g'(4) using e(1) by (intro psubset_card_mono finite_graph_edge) auto
  then show ?thesis
    using g' e ok by (simp add: edge_count_card drop_edges_upd)
qed

lemma drain_out_ok:
  "graph_ok g \<Longrightarrow> \<exists>g'. drain_out v g = Some g' \<and> graph_ok g' \<and> g_vertices g' = g_vertices g \<and>
    graph_edge g' = drop_edges (\<lambda>e. ee_src e = v) (graph_edge g)"
proof (induction "edge_count g" arbitrary: g rule: less_induct)
  case less
  show ?case
  proof (cases "neighbors g v Outgoing = []")
    case True
    then have "drain_out v g = Some g"
      by (subst drain_out.simps) (auto simp: neighbors_def hget_or_def split: option.splits)
    moreover have "drop_edges (\<lambda>e. ee_src e = v) (graph_edge g) = graph_edge g"
      using neighbors_set(1) [OF less.prems, of v] True graph_edge_eid [OF less.prems]
      by (intro drop_edges_none) auto
    ultimately show ?thesis using less.prems by simp
  next
    case False
    define e where "e = last (neighbors g v Outgoing)"
    then have "e \<in> set (neighbors g v Outgoing)" using False by simp
    then have e: "graph_edge g (ee_eid e) = Some e" "ee_src e = v"
      using neighbors_set(1) [OF less.prems, of v] by auto
    then obtain g1 where g1: "remove_edge g (ee_eid e) = Some (Some e, g1)" "graph_ok g1"
      "g_vertices g1 = g_vertices g" "edge_count g1 < edge_count g"
      "drop_edges (\<lambda>e. ee_src e = v) (graph_edge g1) = drop_edges (\<lambda>e. ee_src e = v) (graph_edge g)"
      using remove_edge_step [where P = "\<lambda>e. ee_src e = v", OF less.prems e] by blast
    have "drain_out v g = drain_out v g1"
      using False g1(1) unfolding e_def
      by (subst drain_out.simps) (auto simp: neighbors_def hget_or_def split: option.splits)
    then show ?thesis using less.hyps [OF g1(4,2)] g1(3,5) by simp
  qed
qed

lemma drain_in_ok:
  "graph_ok g \<Longrightarrow> \<exists>g'. drain_in v g = Some g' \<and> graph_ok g' \<and> g_vertices g' = g_vertices g \<and>
    graph_edge g' = drop_edges (\<lambda>e. ee_dst e = v) (graph_edge g)"
proof (induction "edge_count g" arbitrary: g rule: less_induct)
  case less
  show ?case
  proof (cases "neighbors g v Incoming = []")
    case True
    then have "drain_in v g = Some g"
      by (subst drain_in.simps) (auto simp: neighbors_def hget_or_def split: option.splits)
    moreover have "drop_edges (\<lambda>e. ee_dst e = v) (graph_edge g) = graph_edge g"
      using neighbors_set(2) [OF less.prems, of v] True graph_edge_eid [OF less.prems]
      by (intro drop_edges_none) auto
    ultimately show ?thesis using less.prems by simp
  next
    case False
    define e where "e = last (neighbors g v Incoming)"
    then have "e \<in> set (neighbors g v Incoming)" using False by simp
    then have e: "graph_edge g (ee_eid e) = Some e" "ee_dst e = v"
      using neighbors_set(2) [OF less.prems, of v] by auto
    then obtain g1 where g1: "remove_edge g (ee_eid e) = Some (Some e, g1)" "graph_ok g1"
      "g_vertices g1 = g_vertices g" "edge_count g1 < edge_count g"
      "drop_edges (\<lambda>e. ee_dst e = v) (graph_edge g1) = drop_edges (\<lambda>e. ee_dst e = v) (graph_edge g)"
      using remove_edge_step [where P = "\<lambda>e. ee_dst e = v", OF less.prems e] by blast
    have "drain_in v g = drain_in v g1"
      using False g1(1) unfolding e_def
      by (subst drain_in.simps) (auto simp: neighbors_def hget_or_def split: option.splits)
    then show ?thesis using less.hyps [OF g1(4,2)] g1(3,5) by simp
  qed
qed

subsection \<open>The contract\<close>

definition verts :: "simple_graph \<Rightarrow> vid set" where
  "verts g = dom (map_of (g_vertices g))"

lemma verts_eq: "g_vertices g = g_vertices h \<Longrightarrow> verts g = verts h"
  by (simp add: verts_def)

lemma graph_edge_vertices [simp]: "graph_edge (g\<lparr>g_vertices := vs\<rparr>) = graph_edge g"
  by (simp add: graph_edge_def fun_eq_iff)

lemma graph_ok_vertices: "graph_ok g \<Longrightarrow> hmap_ok vs \<Longrightarrow> graph_ok (g\<lparr>g_vertices := vs\<rparr>)"
  by (simp add: graph_ok_def)

lemma hget_or_hdel_empty: "hget_or [] m v = [] \<Longrightarrow> hget_or [] (hdel v m) = hget_or [] m"
  by (auto simp: fun_eq_iff)

lemma remove_vertex_ok:
  assumes "graph_ok g"
  shows "\<exists>g'. remove_vertex g v = Some g' \<and> graph_ok g' \<and> verts g' = verts g - {v} \<and>
    graph_edge g' = drop_edges (\<lambda>e. ee_src e = v \<or> ee_dst e = v) (graph_edge g)"
proof -
  let ?g = "g\<lparr>g_vertices := hdel v (g_vertices g)\<rparr>"
  have ok: "graph_ok ?g" using assms by (intro graph_ok_vertices) (auto simp: graph_ok_def)
  obtain g1 where g1: "drain_out v ?g = Some g1" "graph_ok g1" "g_vertices g1 = g_vertices ?g"
    "graph_edge g1 = drop_edges (\<lambda>e. ee_src e = v) (graph_edge ?g)"
    using drain_out_ok [OF ok] by blast
  obtain g2 where g2: "drain_in v g1 = Some g2" "graph_ok g2" "g_vertices g2 = g_vertices g1"
    "graph_edge g2 = drop_edges (\<lambda>e. ee_dst e = v) (graph_edge g1)"
    using drain_in_ok [OF g1(2)] by blast
  let ?g' = "g2\<lparr>g_outgoing := hdel v (g_outgoing g2), g_incoming := hdel v (g_incoming g2)\<rparr>"
  have edges: "graph_edge g2 = drop_edges (\<lambda>e. ee_src e = v \<or> ee_dst e = v) (graph_edge g)"
    by (simp add: g2(4) g1(4) drop_edges_twice)
  then have "set (neighbors g2 v Outgoing) = {}" "set (neighbors g2 v Incoming) = {}"
    unfolding neighbors_set [OF g2(2)] by (auto simp: drop_edges_def split: option.splits if_splits)
  then have "hget_or [] (g_outgoing g2) v = []" "hget_or [] (g_incoming g2) v = []"
    by (simp_all add: neighbors_def)
  then have "graph_ok ?g'" using g2(2) by (auto simp: graph_ok_def hget_or_hdel_empty)
  moreover have "graph_edge ?g' = graph_edge g2" by (simp add: graph_edge_def fun_eq_iff)
  moreover have "verts ?g' = verts g - {v}" using g1(3) g2(3) by (auto simp: verts_def split: if_splits)
  ultimately show ?thesis
    using g1(1) g2(1) edges by (simp add: remove_vertex_def)
qed

lemma add_edge_unchecked_ok:
  assumes "graph_ok g"
  shows "\<exists>g'. add_edge_unchecked g src dst i ty = Some g' \<and> graph_ok g' \<and> g_vertices g' = g_vertices g \<and>
    graph_edge g' = (graph_edge g)(i \<mapsto> \<lparr>ee_eid = i, ee_src = src, ee_dst = dst, ee_type = ty\<rparr>)"
proof -
  let ?e = "\<lparr>ee_eid = i, ee_src = src, ee_dst = dst, ee_type = ty\<rparr>"
  have "\<exists>g1. (if hget (g_edge_map g) i \<noteq> None then map_option snd (remove_edge g i) else Some g) = Some g1 \<and>
      graph_ok g1 \<and> g_vertices g1 = g_vertices g \<and> graph_edge g1 = (graph_edge g)(i := None)"
  proof (cases "graph_edge g i")
    case None
    then have "hget (g_edge_map g) i = None" "(graph_edge g)(i := None) = graph_edge g"
      by (auto simp: graph_edge_def)
    then show ?thesis using assms by simp
  next
    case (Some e)
    then have "hget (g_edge_map g) i \<noteq> None" by (auto simp: graph_edge_def)
    then show ?thesis using remove_edge_present [OF assms Some] by auto
  qed
  then obtain g1 where g1: "(if hget (g_edge_map g) i \<noteq> None then map_option snd (remove_edge g i) else Some g) = Some g1"
    "graph_ok g1" "g_vertices g1 = g_vertices g" "graph_edge g1 = (graph_edge g)(i := None)" by blast
  let ?outs = "hget_or [] (g_outgoing g1)" and ?ins = "hget_or [] (g_incoming g1)"
  let ?g' = "g1\<lparr>g_outgoing := hput src (?outs src @ [?e]) (g_outgoing g1),
    g_incoming := hput dst (?ins dst @ [?e]) (g_incoming g1),
    g_edge_map := hput i (?e, length (?outs src), length (?ins dst)) (g_edge_map g1)\<rparr>"
  have fresh: "pos_view pos (g_edge_map g1) (ee_eid ?e) = None" for pos
    using fun_cong [OF g1(4), of i] by (simp add: graph_edge_view [where pos = pos])
  have "dir_ok ee_src (?outs(src := ?outs src @ [?e])) ((pos_view fst (g_edge_map g1))(i \<mapsto> (?e, length (?outs src))))"
    "dir_ok ee_dst (?ins(dst := ?ins dst @ [?e])) ((pos_view snd (g_edge_map g1))(i \<mapsto> (?e, length (?ins dst))))"
    using dir_ok_append [of ee_src ?outs "pos_view fst (g_edge_map g1)" ?e src]
      dir_ok_append [of ee_dst ?ins "pos_view snd (g_edge_map g1)" ?e dst] fresh g1(2)
    by (simp_all add: graph_ok_def)
  then have "graph_ok ?g'"
    using g1(2) by (auto simp: graph_ok_def hget_or_hput_fun)
  moreover have "graph_edge ?g' = (graph_edge g)(i \<mapsto> ?e)"
    using g1(4) by (auto simp: graph_edge_def fun_eq_iff split: if_splits)
  ultimately show ?thesis
    using g1(3) unfolding add_edge_unchecked_def Let_def g1(1) by simp
qed

lemma add_vertex_ok:
  "graph_ok g \<Longrightarrow> graph_ok (snd (add_vertex g v)) \<and> verts (snd (add_vertex g v)) = insert v (verts g) \<and>
    graph_edge (snd (add_vertex g v)) = graph_edge g \<and> (fst (add_vertex g v) \<longleftrightarrow> v \<notin> verts g)"
  by (auto simp: add_vertex_def verts_def intro!: graph_ok_vertices) (auto simp: graph_ok_def)

lemma add_edge_ok:
  assumes "graph_ok g"
  shows "\<exists>g'. add_edge g src dst i ty = Some g' \<and> graph_ok g' \<and> verts g' = verts g \<union> {src, dst} \<and>
    graph_edge g' = (graph_edge g)(i \<mapsto> \<lparr>ee_eid = i, ee_src = src, ee_dst = dst, ee_type = ty\<rparr>)"
proof -
  let ?g = "snd (add_vertex (snd (add_vertex g src)) dst)"
  have g: "graph_ok ?g" "verts ?g = verts g \<union> {src, dst}" "graph_edge ?g = graph_edge g"
    using add_vertex_ok [OF assms] add_vertex_ok [of "snd (add_vertex g src)" dst] by auto
  obtain g' where "add_edge_unchecked ?g src dst i ty = Some g'" "graph_ok g'" "g_vertices g' = g_vertices ?g"
    "graph_edge g' = (graph_edge ?g)(i \<mapsto> \<lparr>ee_eid = i, ee_src = src, ee_dst = dst, ee_type = ty\<rparr>)"
    using add_edge_unchecked_ok [OF g(1)] by blast
  then show ?thesis using g verts_eq [of g' ?g] by (simp add: add_edge_def)
qed

text \<open>
  What a client of the graph may rely on: \<open>vs\<close> and \<open>es\<close> are the vertices and the edges a state
  stands for, and every operation succeeds and has its obvious effect on them.
\<close>

locale digraph =
  fixes ok :: "'g \<Rightarrow> bool"
    and vs :: "'g \<Rightarrow> vid set"
    and es :: "'g \<Rightarrow> eid \<Rightarrow> edge_entry option"
    and addv :: "'g \<Rightarrow> vid \<Rightarrow> 'g"
    and adde :: "'g \<Rightarrow> vid \<Rightarrow> vid \<Rightarrow> eid \<Rightarrow> u32 \<Rightarrow> 'g option"
    and reme :: "'g \<Rightarrow> eid \<Rightarrow> (edge_entry option \<times> 'g) option"
    and remv :: "'g \<Rightarrow> vid \<Rightarrow> 'g option"
    and nbrs :: "'g \<Rightarrow> vid \<Rightarrow> direction \<Rightarrow> edge_entry list"
  assumes addv_law: "ok g \<Longrightarrow> ok (addv g v) \<and> vs (addv g v) = insert v (vs g) \<and> es (addv g v) = es g"
    and adde_law: "ok g \<Longrightarrow> \<exists>g'. adde g s d i t = Some g' \<and> ok g' \<and> vs g' = vs g \<union> {s, d} \<and>
      es g' = (es g)(i \<mapsto> \<lparr>ee_eid = i, ee_src = s, ee_dst = d, ee_type = t\<rparr>)"
    and reme_law: "ok g \<Longrightarrow> \<exists>g'. reme g i = Some (es g i, g') \<and> ok g' \<and> vs g' = vs g \<and> es g' = (es g)(i := None)"
    and remv_law: "ok g \<Longrightarrow> \<exists>g'. remv g v = Some g' \<and> ok g' \<and> vs g' = vs g - {v} \<and>
      es g' = drop_edges (\<lambda>e. ee_src e = v \<or> ee_dst e = v) (es g)"
    and nbrs_law: "ok g \<Longrightarrow> distinct (nbrs g v dir) \<and>
      set (nbrs g v dir) = {e. es g (ee_eid e) = Some e \<and> (case dir of Outgoing \<Rightarrow> ee_src e | Incoming \<Rightarrow> ee_dst e) = v}"
    and eid_law: "ok g \<Longrightarrow> es g i = Some e \<Longrightarrow> ee_eid e = i"
begin

text \<open>Every edge joins two vertices of the graph.\<close>

definition no_dangling :: "'g \<Rightarrow> bool" where
  "no_dangling g \<longleftrightarrow> (\<forall>i e. es g i = Some e \<longrightarrow> ee_src e \<in> vs g \<and> ee_dst e \<in> vs g)"

lemma no_dangling_addv: "ok g \<Longrightarrow> no_dangling g \<Longrightarrow> no_dangling (addv g v)"
  using addv_law by (auto simp: no_dangling_def)

lemma no_dangling_adde: "ok g \<Longrightarrow> no_dangling g \<Longrightarrow> adde g s d i t = Some g' \<Longrightarrow> no_dangling g'"
  using adde_law [of g s d i t] by (auto simp: no_dangling_def)

lemma no_dangling_reme: "ok g \<Longrightarrow> no_dangling g \<Longrightarrow> reme g i = Some (r, g') \<Longrightarrow> no_dangling g'"
  using reme_law [of g i] by (auto simp: no_dangling_def)

lemma no_dangling_remv: "ok g \<Longrightarrow> no_dangling g \<Longrightarrow> remv g v = Some g' \<Longrightarrow> no_dangling g'"
  using remv_law [of g v] by (auto simp: no_dangling_def drop_edges_def split: option.splits if_splits)

lemma nbrs_after_remv:
  assumes "ok g" "remv g v = Some g'"
  shows "nbrs g' u dir = [] \<or> u \<noteq> v"
proof -
  have g': "ok g'" "es g' = drop_edges (\<lambda>e. ee_src e = v \<or> ee_dst e = v) (es g)"
    using remv_law [OF assms(1), of v] assms(2) by auto
  have "set (nbrs g' v dir) = {}"
    using nbrs_law [OF g'(1), of v dir]
    by (auto simp: g'(2) drop_edges_def split: option.splits if_splits direction.splits)
  then show ?thesis by auto
qed

end

lemma remove_edge_law:
  assumes "graph_ok g"
  shows "\<exists>g'. remove_edge g i = Some (graph_edge g i, g') \<and> graph_ok g' \<and> verts g' = verts g \<and>
    graph_edge g' = (graph_edge g)(i := None)"
proof (cases "graph_edge g i")
  case None
  then have "(graph_edge g)(i := None) = graph_edge g" by auto
  then show ?thesis using remove_edge_absent [OF None] assms None by simp
next
  case (Some e)
  then show ?thesis using remove_edge_present [OF assms Some] verts_eq by metis
qed

interpretation sg: digraph graph_ok verts graph_edge "\<lambda>g v. snd (add_vertex g v)" add_edge remove_edge
  remove_vertex neighbors
proof
  fix g :: simple_graph and i e v dir s d t
  show "graph_ok g \<Longrightarrow> graph_edge g i = Some e \<Longrightarrow> ee_eid e = i" by (rule graph_edge_eid)
  show "graph_ok g \<Longrightarrow> distinct (neighbors g v dir) \<and> set (neighbors g v dir) =
    {e. graph_edge g (ee_eid e) = Some e \<and> (case dir of Outgoing \<Rightarrow> ee_src e | Incoming \<Rightarrow> ee_dst e) = v}"
    using neighbors_set [of g v] by (cases dir) simp_all
  show "graph_ok g \<Longrightarrow> \<exists>g'. add_edge g s d i t = Some g' \<and> graph_ok g' \<and> verts g' = verts g \<union> {s, d} \<and>
    graph_edge g' = (graph_edge g)(i \<mapsto> \<lparr>ee_eid = i, ee_src = s, ee_dst = d, ee_type = t\<rparr>)"
    by (rule add_edge_ok)
qed (simp_all add: add_vertex_ok remove_edge_law remove_vertex_ok)

subsection \<open>Sequences of operations\<close>

datatype graph_op = AddV vid | AddE vid vid eid u32 | RemE eid | RemV vid

fun graph_step :: "graph_op \<Rightarrow> simple_graph \<Rightarrow> simple_graph option" where
  "graph_step (AddV v) g = Some (snd (add_vertex g v))"
| "graph_step (AddE s d i t) g = add_edge g s d i t"
| "graph_step (RemE i) g = map_option snd (remove_edge g i)"
| "graph_step (RemV v) g = remove_vertex g v"

fun graph_run :: "graph_op list \<Rightarrow> simple_graph \<Rightarrow> simple_graph option" where
  "graph_run [] g = Some g"
| "graph_run (p # ps) g = Option.bind (graph_step p g) (graph_run ps)"

text \<open>The specification: a set of vertices and a finite map of edges.\<close>

type_synonym graph_spec = "vid set \<times> (eid \<Rightarrow> edge_entry option)"

fun spec_step :: "graph_op \<Rightarrow> graph_spec \<Rightarrow> graph_spec" where
  "spec_step (AddV v) (vs, es) = (insert v vs, es)"
| "spec_step (AddE s d i t) (vs, es) =
     (vs \<union> {s, d}, es(i \<mapsto> \<lparr>ee_eid = i, ee_src = s, ee_dst = d, ee_type = t\<rparr>))"
| "spec_step (RemE i) (vs, es) = (vs, es(i := None))"
| "spec_step (RemV v) (vs, es) = (vs - {v}, drop_edges (\<lambda>e. ee_src e = v \<or> ee_dst e = v) es)"

definition graph_abs :: "simple_graph \<Rightarrow> graph_spec" where
  "graph_abs g = (verts g, graph_edge g)"

lemma graph_ok_new: "graph_ok graph_new" "graph_abs graph_new = ({}, Map.empty)" "sg.no_dangling graph_new"
  by (simp_all add: graph_ok_def graph_new_def graph_abs_def verts_def dir_ok_def pos_view_def graph_edge_def
      fun_eq_iff sg.no_dangling_def)

lemma graph_step_refines:
  assumes ok: "graph_ok g" and nd: "sg.no_dangling g"
  shows "\<exists>g'. graph_step p g = Some g' \<and> graph_ok g' \<and> sg.no_dangling g' \<and>
    graph_abs g' = spec_step p (graph_abs g)"
proof (cases p)
  case (AddV v)
  then show ?thesis using sg.addv_law [OF ok, of v] sg.no_dangling_addv [OF ok nd, of v]
    by (simp add: graph_abs_def)
next
  case (AddE s d i t)
  then show ?thesis using sg.adde_law [OF ok, of s d i t] sg.no_dangling_adde [OF ok nd]
    by (auto simp: graph_abs_def)
next
  case (RemE i)
  then show ?thesis using sg.reme_law [OF ok, of i] sg.no_dangling_reme [OF ok nd]
    by (auto simp: graph_abs_def)
next
  case (RemV v)
  then show ?thesis using sg.remv_law [OF ok, of v] sg.no_dangling_remv [OF ok nd]
    by (auto simp: graph_abs_def)
qed

lemma graph_run_refines_from:
  assumes "graph_ok g" "sg.no_dangling g"
  shows "\<exists>g'. graph_run ps g = Some g' \<and> graph_ok g' \<and> sg.no_dangling g' \<and>
    graph_abs g' = fold spec_step ps (graph_abs g)"
  using assms
proof (induction ps arbitrary: g)
  case (Cons p ps)
  obtain g1 where "graph_step p g = Some g1" "graph_ok g1" "sg.no_dangling g1"
    "graph_abs g1 = spec_step p (graph_abs g)"
    using graph_step_refines [OF Cons.prems] by blast
  then show ?case using Cons.IH [of g1] by simp
qed simp

text \<open>
  C13 (\<open>graph_run_refines\<close>). Whatever sequence of vertex and edge insertions and removals a graph has
  gone through, no operation has panicked or looped, the graph stands for what the specification
  computes, an edge is found in its source's and its target's list exactly if it is in the edge
  map, no list holds an edge twice, and no edge dangles.
\<close>

theorem graph_run_refines:
  "\<exists>g. graph_run ps graph_new = Some g \<and>
     (verts g, graph_edge g) = fold spec_step ps ({}, Map.empty) \<and>
     (\<forall>v. distinct (neighbors g v Outgoing) \<and> distinct (neighbors g v Incoming) \<and>
        set (neighbors g v Outgoing) = {e. graph_edge g (ee_eid e) = Some e \<and> ee_src e = v} \<and>
        set (neighbors g v Incoming) = {e. graph_edge g (ee_eid e) = Some e \<and> ee_dst e = v}) \<and>
     (\<forall>e\<in>ran (graph_edge g). ee_src e \<in> verts g \<and> ee_dst e \<in> verts g)"
proof -
  obtain g where g: "graph_run ps graph_new = Some g" "graph_ok g" "sg.no_dangling g"
    "graph_abs g = fold spec_step ps (graph_abs graph_new)"
    using graph_run_refines_from [OF graph_ok_new(1,3)] by blast
  then show ?thesis
    using neighbors_set [OF g(2)] graph_ok_new(2)
    by (auto simp: graph_abs_def sg.no_dangling_def ran_def)
qed

theorem graph_run_refines_witness:
  "\<exists>g. graph_run [AddE (Vid 1) (Vid 2) (Eid 7) 0, RemV (Vid 1)] graph_new = Some g \<and>
     verts g = {Vid 2} \<and> graph_edge g (Eid 7) = None"
proof -
  obtain g where "graph_run [AddE (Vid 1) (Vid 2) (Eid 7) 0, RemV (Vid 1)] graph_new = Some g"
    "(verts g, graph_edge g) = fold spec_step [AddE (Vid 1) (Vid 2) (Eid 7) 0, RemV (Vid 1)] ({}, Map.empty)"
    using graph_run_refines by blast
  then show ?thesis by (auto simp: drop_edges_def)
qed

end
