(* ===== verification/Occ_Registry.thy ===== *)
theory Occ_Registry
  imports Ids
begin

text \<open>
  Commit-time conflict detection (\<^verbatim>\<open>crates/uni-store/src/runtime/occ.rs\<close>): write-sets, the bounded
  registry of recent commits, and its check.

  Sequence numbers are \<open>u64\<close> read as natural numbers; the wrap-around of \<open>fetch_add\<close> and the
  saturation of \<open>saturating_add\<close> are written out. \<open>occ\<close> is the registry and the sequence as the
  writer holds them, with two ghost components: every commit so far and every value the sequence has
  had. The last part runs transactions against a store and shows the result to be that of
  running them one after the other in commit order.
\<close>

definition u64_mod :: nat where
  "u64_mod = 2 ^ 64"

definition saturating_add :: "nat \<Rightarrow> nat \<Rightarrow> nat" where
  "saturating_add a b = min (a + b) (u64_mod - 1)"

record write_set =
  ws_vertices :: "vid set"
  ws_edges :: "eid set"
  ws_vertex_keys :: "u8 list set"
  ws_edge_keys :: "u8 list set"
  ws_merge_keys :: "u8 list set"
  ws_ext_ids :: "string set"

record occ_read_set =
  rs_vertices :: "vid set"
  rs_edges :: "eid set"

definition ws_default :: write_set where
  "ws_default = \<lparr>ws_vertices = {}, ws_edges = {}, ws_vertex_keys = {}, ws_edge_keys = {},
     ws_merge_keys = {}, ws_ext_ids = {}\<rparr>"

definition ws_is_empty :: "write_set \<Rightarrow> bool" where
  "ws_is_empty w \<longleftrightarrow> ws_vertices w = {} \<and> ws_edges w = {} \<and> ws_vertex_keys w = {} \<and>
     ws_edge_keys w = {} \<and> ws_merge_keys w = {} \<and> ws_ext_ids w = {}"

datatype key_kind = VertexConstraint | EdgeConstraint | MergeKey | ExtIdKey

definition is_disjoint :: "'a set \<Rightarrow> 'a set \<Rightarrow> bool" where
  "is_disjoint a b \<longleftrightarrow> a \<inter> b = {}"

definition conflicting_key_kind :: "write_set \<Rightarrow> write_set \<Rightarrow> key_kind option" where
  "conflicting_key_kind w c =
     (if \<not> is_disjoint (ws_vertex_keys w) (ws_vertex_keys c) then Some VertexConstraint
      else if \<not> is_disjoint (ws_edge_keys w) (ws_edge_keys c) then Some EdgeConstraint
      else if \<not> is_disjoint (ws_merge_keys w) (ws_merge_keys c) then Some MergeKey
      else if \<not> is_disjoint (ws_ext_ids w) (ws_ext_ids c) then Some ExtIdKey
      else None)"

definition intersects :: "write_set \<Rightarrow> write_set \<Rightarrow> bool" where
  "intersects w c =
     (let (small, large) =
            (if card (ws_vertices w) \<le> card (ws_vertices c) then (ws_vertices w, ws_vertices c)
             else (ws_vertices c, ws_vertices w))
      in if \<exists>v\<in>small. v \<in> large then True
         else
           let (small, large) =
                 (if card (ws_edges w) \<le> card (ws_edges c) then (ws_edges w, ws_edges c)
                  else (ws_edges c, ws_edges w))
           in \<exists>e\<in>small. e \<in> large)"

definition read_set_intersects :: "occ_read_set \<Rightarrow> write_set \<Rightarrow> bool" where
  "read_set_intersects r w \<longleftrightarrow>
     (\<exists>v\<in>rs_vertices r. v \<in> ws_vertices w) \<or> (\<exists>e\<in>rs_edges r. e \<in> ws_edges w)"

datatype conflict =
    KeyConflict nat key_kind
  | WriteWrite nat
  | ReadWrite nat
  | HistoryTruncated nat nat

record commit_registry =
  reg_entries :: "(nat \<times> write_set) list"
  reg_capacity :: nat

text \<open>\<open>None\<close> is the panic on a zero capacity.\<close>

definition registry_new :: "nat \<Rightarrow> commit_registry option" where
  "registry_new cap = (if cap > 0 then Some \<lparr>reg_entries = [], reg_capacity = cap\<rparr> else None)"

fun prune :: "nat \<Rightarrow> 'a list \<Rightarrow> 'a list" where
  "prune cap [] = []"
| "prune cap (x # xs) = (if length (x # xs) > cap then prune cap xs else x # xs)"

definition registry_record :: "commit_registry \<Rightarrow> nat \<Rightarrow> write_set \<Rightarrow> commit_registry" where
  "registry_record r seq w = r\<lparr>reg_entries := prune (reg_capacity r) (reg_entries r @ [(seq, w)])\<rparr>"

text \<open>Both return the sequence handed out, which is also the counter's new value.\<close>

definition registry_commit :: "commit_registry \<Rightarrow> nat \<Rightarrow> write_set \<Rightarrow> nat \<times> commit_registry" where
  "registry_commit r seq w = (let n = (seq + 1) mod u64_mod in (n, registry_record r n w))"

definition registry_fence :: "commit_registry \<Rightarrow> nat \<Rightarrow> nat \<times> commit_registry" where
  "registry_fence r seq = (let n = (seq + 2) mod u64_mod in (n, r\<lparr>reg_entries := [(n, ws_default)]\<rparr>))"

fun check_entries ::
  "nat \<Rightarrow> write_set \<Rightarrow> occ_read_set option \<Rightarrow> (nat \<times> write_set) list \<Rightarrow> conflict option" where
  "check_entries read_seq w rs [] = None"
| "check_entries read_seq w rs ((seq, committed) # rest) =
     (if seq \<le> read_seq then check_entries read_seq w rs rest
      else if intersects w committed then Some (WriteWrite seq)
      else case conflicting_key_kind w committed of
             Some kind \<Rightarrow> Some (KeyConflict seq kind)
           | None \<Rightarrow>
               (case rs of
                  Some r \<Rightarrow> if read_set_intersects r committed then Some (ReadWrite seq)
                           else check_entries read_seq w rs rest
                | None \<Rightarrow> check_entries read_seq w rs rest))"

definition registry_check ::
  "commit_registry \<Rightarrow> nat \<Rightarrow> write_set \<Rightarrow> occ_read_set option \<Rightarrow> conflict option" where
  "registry_check r read_seq w rs =
     (case reg_entries r of
        (oldest, _) # _ \<Rightarrow>
          if oldest > saturating_add read_seq 1 then Some (HistoryTruncated read_seq oldest)
          else check_entries read_seq w rs (reg_entries r)
      | [] \<Rightarrow> check_entries read_seq w rs (reg_entries r))"

subsection \<open>What a conflict is\<close>

definition conflicts :: "write_set \<Rightarrow> occ_read_set option \<Rightarrow> write_set \<Rightarrow> bool" where
  "conflicts w rs c \<longleftrightarrow>
     ws_vertices w \<inter> ws_vertices c \<noteq> {} \<or> ws_edges w \<inter> ws_edges c \<noteq> {} \<or>
     ws_vertex_keys w \<inter> ws_vertex_keys c \<noteq> {} \<or> ws_edge_keys w \<inter> ws_edge_keys c \<noteq> {} \<or>
     ws_merge_keys w \<inter> ws_merge_keys c \<noteq> {} \<or> ws_ext_ids w \<inter> ws_ext_ids c \<noteq> {} \<or>
     (case rs of None \<Rightarrow> False
      | Some r \<Rightarrow> rs_vertices r \<inter> ws_vertices c \<noteq> {} \<or> rs_edges r \<inter> ws_edges c \<noteq> {})"

lemma intersects_iff:
  "intersects w c \<longleftrightarrow> ws_vertices w \<inter> ws_vertices c \<noteq> {} \<or> ws_edges w \<inter> ws_edges c \<noteq> {}"
  by (auto simp: intersects_def Let_def)

lemma conflicting_key_kind_None:
  "conflicting_key_kind w c = None \<longleftrightarrow>
     ws_vertex_keys w \<inter> ws_vertex_keys c = {} \<and> ws_edge_keys w \<inter> ws_edge_keys c = {} \<and>
     ws_merge_keys w \<inter> ws_merge_keys c = {} \<and> ws_ext_ids w \<inter> ws_ext_ids c = {}"
  by (simp add: conflicting_key_kind_def is_disjoint_def)

lemma read_set_intersects_iff:
  "read_set_intersects r c \<longleftrightarrow> rs_vertices r \<inter> ws_vertices c \<noteq> {} \<or> rs_edges r \<inter> ws_edges c \<noteq> {}"
  by (auto simp: read_set_intersects_def)

lemma check_entries_None:
  "check_entries read_seq w rs es = None \<longleftrightarrow>
     (\<forall>(s, c)\<in>set es. read_seq < s \<longrightarrow> \<not> conflicts w rs c)"
proof (induction es)
  case (Cons e es)
  obtain s c where e: "e = (s, c)" by (cases e)
  have "conflicts w rs c \<longleftrightarrow> intersects w c \<or> conflicting_key_kind w c \<noteq> None \<or>
      (\<exists>r. rs = Some r \<and> read_set_intersects r c)"
    unfolding conflicts_def intersects_iff conflicting_key_kind_None read_set_intersects_iff
    by (cases rs) auto
  then show ?case
    using Cons.IH by (auto simp: e not_le split: option.splits)
qed simp

lemma conflicts_default: "\<not> conflicts w rs ws_default"
  by (simp add: conflicts_def ws_default_def split: option.split)

lemma prune_drop: "prune cap xs = drop (length xs - cap) xs"
  by (induction cap xs rule: prune.induct) (auto simp: Suc_diff_le)

subsection \<open>The registry over time\<close>

text \<open>
  \<open>oc_old\<close> are the commits before the last fence, \<open>oc_live\<close> the fence's own entry and the commits
  since; \<open>oc_past\<close> are the values a transaction may have read when it began.
\<close>

record occ =
  oc_seq :: nat
  oc_reg :: commit_registry
  oc_old :: "(nat \<times> write_set) list"
  oc_live :: "(nat \<times> write_set) list"
  oc_past :: "nat set"

datatype occ_event = Commit write_set | Fence

definition occ_init :: "nat \<Rightarrow> occ" where
  "occ_init cap = \<lparr>oc_seq = 0, oc_reg = \<lparr>reg_entries = [], reg_capacity = cap\<rparr>, oc_old = [], oc_live = [],
     oc_past = {0}\<rparr>"

fun occ_apply :: "occ_event \<Rightarrow> occ \<Rightarrow> occ" where
  "occ_apply (Commit w) c =
     (let (n, r) = registry_commit (oc_reg c) (oc_seq c) w
      in c\<lparr>oc_seq := n, oc_reg := r, oc_live := oc_live c @ [(n, w)], oc_past := insert n (oc_past c)\<rparr>)"
| "occ_apply Fence c =
     (let (n, r) = registry_fence (oc_reg c) (oc_seq c)
      in c\<lparr>oc_seq := n, oc_reg := r, oc_old := oc_old c @ oc_live c, oc_live := [(n, ws_default)],
           oc_past := insert n (oc_past c)\<rparr>)"

definition occ_inv :: "occ \<Rightarrow> bool" where
  "occ_inv c \<longleftrightarrow>
     (let cap = reg_capacity (oc_reg c); base = oc_seq c + 1 - length (oc_live c) in
      cap > 0 \<and> reg_entries (oc_reg c) = drop (length (oc_live c) - cap) (oc_live c) \<and>
      length (oc_live c) \<le> oc_seq c \<and> map fst (oc_live c) = [base ..< oc_seq c + 1] \<and>
      (oc_live c = [] \<longrightarrow> oc_seq c = 0 \<and> oc_old c = []) \<and>
      (\<forall>(s, w)\<in>set (oc_old c). s + 2 \<le> base) \<and>
      (\<forall>p\<in>oc_past c. p \<le> oc_seq c \<and> (base \<le> p + 1 \<or> p + 2 \<le> base)))"

lemma occ_inv_init: "cap > 0 \<Longrightarrow> occ_inv (occ_init cap)"
  by (simp add: occ_inv_def occ_init_def)

lemma occ_inv_commit:
  assumes inv: "occ_inv c" and room: "oc_seq c + 1 < u64_mod"
  shows "occ_inv (occ_apply (Commit w) c)"
proof -
  have n: "Suc (oc_seq c) mod u64_mod = Suc (oc_seq c)" using room by simp
  have entries: "prune cap (drop (length xs - cap) xs @ [x]) = drop (length xs + 1 - cap) (xs @ [x])"
    if "cap > 0" for xs :: "(nat \<times> write_set) list" and x cap
    using that by (cases "length xs < cap") (auto simp: prune_drop Suc_diff_le)
  show ?thesis
    using inv unfolding occ_inv_def
    by (auto simp: Let_def registry_commit_def registry_record_def n entries)
qed

lemma occ_inv_seqs: "occ_inv c \<Longrightarrow> map fst (oc_live c) = [oc_seq c + 1 - length (oc_live c) ..< oc_seq c + 1]"
  unfolding occ_inv_def Let_def by blast

lemma occ_invD:
  assumes "occ_inv c"
  shows "reg_capacity (oc_reg c) > 0"
    "reg_entries (oc_reg c) = drop (length (oc_live c) - reg_capacity (oc_reg c)) (oc_live c)"
    "oc_live c = [] \<Longrightarrow> oc_seq c = 0 \<and> oc_old c = []"
    "(s, x) \<in> set (oc_old c) \<Longrightarrow> s + 2 \<le> oc_seq c + 1 - length (oc_live c)"
    "p \<in> oc_past c \<Longrightarrow> p \<le> oc_seq c \<and>
      (oc_seq c + 1 - length (oc_live c) \<le> p + 1 \<or> p + 2 \<le> oc_seq c + 1 - length (oc_live c))"
  using assms unfolding occ_inv_def Let_def by blast+

lemma occ_inv_live:
  assumes "occ_inv c" and "(s, x) \<in> set (oc_live c)"
  shows "oc_seq c + 1 - length (oc_live c) \<le> s \<and> s \<le> oc_seq c"
proof -
  have "s \<in> set (map fst (oc_live c))" using assms(2) by force
  then show ?thesis unfolding occ_inv_seqs [OF assms(1)] set_upt by simp
qed

lemma occ_inv_fence:
  assumes inv: "occ_inv c" and room: "oc_seq c + 2 < u64_mod"
  shows "occ_inv (occ_apply Fence c)"
proof -
  have n: "Suc (Suc (oc_seq c)) mod u64_mod = Suc (Suc (oc_seq c))" using room by simp
  have "s \<le> oc_seq c" if "(s, w) \<in> set (oc_live c)" for s w
    using occ_inv_live [OF inv that] by simp
  then show ?thesis
    using inv n unfolding occ_inv_def
    by (fastforce simp: Let_def registry_fence_def)
qed

lemma occ_inv_entries:
  assumes inv: "occ_inv c" and "(s, x) \<in> set (oc_live c)" and oldest: "reg_entries (oc_reg c) = e # es" "fst e \<le> s"
  shows "(s, x) \<in> set (reg_entries (oc_reg c))"
proof -
  let ?live = "oc_live c" and ?k = "length (oc_live c) - reg_capacity (oc_reg c)"
  let ?base = "oc_seq c + 1 - length ?live"
  have ent: "reg_entries (oc_reg c) = drop ?k ?live" and fst_live: "map fst ?live = [?base ..< oc_seq c + 1]"
    using inv unfolding occ_inv_def Let_def by blast+
  have len: "length ?live \<le> oc_seq c" using inv by (simp add: occ_inv_def Let_def)
  have at: "fst (?live ! j) = ?base + j" if "j < length ?live" for j
  proof -
    have "fst (?live ! j) = map fst ?live ! j" using that by simp
    also have "\<dots> = ?base + j" unfolding fst_live using that len by (subst nth_upt) auto
    finally show ?thesis .
  qed
  obtain j where j: "j < length ?live" "?live ! j = (s, x)" using assms(2) by (auto simp: in_set_conv_nth)
  have k: "?k < length ?live" using oldest(1) ent by (metis drop_all list.distinct(1) not_le)
  then have "e = ?live ! ?k" using oldest(1) ent by (metis Cons_nth_drop_Suc list.inject)
  then have "?k \<le> j" using at [OF k] at [OF j(1)] j(2) oldest(2) by simp
  then show ?thesis
    using j ent by (auto simp: in_set_conv_nth intro!: exI [of _ "j - ?k"])
qed

lemma check_iff:
  assumes inv: "occ_inv c" and p: "p \<in> oc_past c" and room: "oc_seq c + 1 < u64_mod"
  shows "registry_check (oc_reg c) p w rs = None \<longleftrightarrow>
    (case reg_entries (oc_reg c) of [] \<Rightarrow> True | e # _ \<Rightarrow> fst e \<le> p + 1) \<and>
    (\<forall>(s, x)\<in>set (oc_old c @ oc_live c). p < s \<longrightarrow> \<not> conflicts w rs x)"
proof (cases "reg_entries (oc_reg c)")
  case Nil
  then have "length (oc_live c) \<le> length (oc_live c) - reg_capacity (oc_reg c)"
    using occ_invD(2) [OF inv] by simp
  then have "length (oc_live c) = 0" using occ_invD(1) [OF inv] by linarith
  then have "oc_live c = []" "oc_old c = []" using occ_invD(3) [OF inv] by simp_all
  then show ?thesis using Nil by (simp add: registry_check_def)
next
  case (Cons e es)
  let ?base = "oc_seq c + 1 - length (oc_live c)"
  have sub: "set (reg_entries (oc_reg c)) \<subseteq> set (oc_live c)"
    using occ_invD(2) [OF inv] by (auto dest: in_set_dropD)
  have "p \<le> oc_seq c" using occ_invD(5) [OF inv p] by simp
  then have sat: "saturating_add p 1 = p + 1" using room by (simp add: saturating_add_def)
  have base: "?base \<le> fst e" using occ_inv_live [OF inv, of "fst e" "snd e"] sub Cons by auto
  have old: "s \<le> p" if "(s, x) \<in> set (oc_old c)" "?base \<le> p + 1" for s x
    using occ_invD(4) [OF inv that(1)] that(2) by simp
  have "(\<forall>(s, x)\<in>set (reg_entries (oc_reg c)). p < s \<longrightarrow> \<not> conflicts w rs x) \<longleftrightarrow>
      (\<forall>(s, x)\<in>set (oc_old c @ oc_live c). p < s \<longrightarrow> \<not> conflicts w rs x)" if le: "fst e \<le> p + 1"
  proof -
    have "(s, x) \<in> set (reg_entries (oc_reg c))" if "(s, x) \<in> set (oc_live c)" "p < s" for s x
      using occ_inv_entries [OF inv that(1) Cons] that(2) le by simp
    then show ?thesis using sub old base le by fastforce
  qed
  note same = this
  have "registry_check (oc_reg c) p w rs = None \<longleftrightarrow>
      fst e \<le> p + 1 \<and> check_entries p w rs (reg_entries (oc_reg c)) = None"
    using Cons sat by (cases e) (simp add: registry_check_def del: check_entries.simps)
  then show ?thesis
    unfolding check_entries_None using same Cons by auto
qed

definition occ_run :: "nat \<Rightarrow> occ_event list \<Rightarrow> occ" where
  "occ_run cap evs = fold occ_apply evs (occ_init cap)"

definition occ_base :: "occ \<Rightarrow> nat" where
  "occ_base c = oc_seq c + 1 - length (oc_live c)"

lemma occ_apply_step:
  assumes "occ_inv c" and "oc_seq c + 2 < u64_mod"
  shows "occ_inv (occ_apply e c) \<and> oc_seq c < oc_seq (occ_apply e c) \<and> oc_seq (occ_apply e c) \<le> oc_seq c + 2 \<and>
    occ_base c \<le> occ_base (occ_apply e c) \<and> oc_past c \<subseteq> oc_past (occ_apply e c)"
proof (cases e)
  case (Commit w)
  then show ?thesis
    using assms occ_inv_commit [OF assms(1), of w]
    by (auto simp: Let_def registry_commit_def occ_base_def)
next
  case Fence
  then show ?thesis
    using assms occ_inv_fence [OF assms] by (auto simp: Let_def registry_fence_def occ_base_def)
qed

lemma occ_fold_inv:
  assumes "occ_inv c" and "oc_seq c + 2 * length evs + 2 < u64_mod"
  shows "occ_inv (fold occ_apply evs c) \<and> oc_seq (fold occ_apply evs c) \<le> oc_seq c + 2 * length evs \<and>
    occ_base c \<le> occ_base (fold occ_apply evs c) \<and> oc_past c \<subseteq> oc_past (fold occ_apply evs c)"
  using assms
proof (induction evs arbitrary: c)
  case (Cons e evs)
  have step: "occ_inv (occ_apply e c)" "oc_seq (occ_apply e c) \<le> oc_seq c + 2"
    "occ_base c \<le> occ_base (occ_apply e c)" "oc_past c \<subseteq> oc_past (occ_apply e c)"
    using occ_apply_step [OF Cons.prems(1), of e] Cons.prems(2) by auto
  then show ?case using Cons.IH [of "occ_apply e c"] Cons.prems(2) by auto
qed simp

lemma occ_base_oldest:
  assumes "occ_inv c"
  shows "case reg_entries (oc_reg c) of [] \<Rightarrow> occ_base c = 1 | e # _ \<Rightarrow> occ_base c \<le> fst e"
proof (cases "reg_entries (oc_reg c)")
  case Nil
  then have "length (oc_live c) \<le> length (oc_live c) - reg_capacity (oc_reg c)"
    using occ_invD(2) [OF assms] by simp
  then have "length (oc_live c) = 0" using occ_invD(1) [OF assms] by linarith
  then show ?thesis using Nil occ_invD(3) [OF assms] by (simp add: occ_base_def)
next
  case (Cons e es)
  then have "e \<in> set (oc_live c)" using occ_invD(2) [OF assms] by (metis in_set_dropD list.set_intros(1))
  then show ?thesis using Cons occ_inv_live [OF assms, of "fst e" "snd e"] by (simp add: occ_base_def)
qed

lemma check_below_base:
  assumes "occ_inv c" "p \<in> oc_past c" "oc_seq c + 1 < u64_mod" "p + 2 \<le> occ_base c"
  shows "registry_check (oc_reg c) p w rs \<noteq> None"
  using occ_base_oldest [OF assms(1)] assms(4) unfolding check_iff [OF assms(1-3)]
  by (auto split: list.splits)

text \<open>
  C21 (\<open>occ_check_exact\<close>). After any history of commits and fences, a transaction that began at one of
  the sequence's values passes the check exactly if the history since it began is still retained
  and none of the commits since, also those already pruned, wrote an item it wrote or (with a
  read-set) read, or claimed a key it claimed.
\<close>

theorem occ_check_exact:
  assumes "cap > 0" and "2 * length evs + 2 < u64_mod" and "p \<in> oc_past (occ_run cap evs)"
  shows "let c = occ_run cap evs in
    registry_check (oc_reg c) p w rs = None \<longleftrightarrow>
      (case reg_entries (oc_reg c) of [] \<Rightarrow> True | e # _ \<Rightarrow> fst e \<le> p + 1) \<and>
      (\<forall>(s, x)\<in>set (oc_old c @ oc_live c). p < s \<longrightarrow> \<not> conflicts w rs x)"
proof -
  have "occ_inv (occ_run cap evs)" "oc_seq (occ_run cap evs) + 1 < u64_mod"
    using occ_fold_inv [OF occ_inv_init [OF assms(1)], of evs] assms(2)
    by (auto simp: occ_run_def occ_init_def)
  from check_iff [OF this(1) assms(3) this(2)] show ?thesis by (simp only: Let_def)
qed

theorem occ_check_exact_witness:
  "let w = ws_default\<lparr>ws_vertices := {Vid 1}\<rparr>; c = occ_run 4 [Commit w]
   in registry_check (oc_reg c) 0 w None \<noteq> None \<and> registry_check (oc_reg c) 1 w None = None"
proof -
  let ?w = "ws_default\<lparr>ws_vertices := {Vid 1}\<rparr>"
  let ?c = "occ_run 4 [Commit ?w]"
  have "0 \<in> oc_past ?c" "1 \<in> oc_past ?c"
    by (simp_all add: occ_run_def occ_init_def registry_commit_def u64_mod_def)
  then have "registry_check (oc_reg ?c) p ?w None = None \<longleftrightarrow>
      (case reg_entries (oc_reg ?c) of [] \<Rightarrow> True | e # _ \<Rightarrow> fst e \<le> p + 1) \<and>
      (\<forall>(s, x)\<in>set (oc_old ?c @ oc_live ?c). p < s \<longrightarrow> \<not> conflicts ?w None x)" if "p = 0 \<or> p = 1" for p
    using occ_check_exact [of 4 "[Commit ?w]" p ?w None] that by (auto simp: u64_mod_def Let_def)
  from this [of 0] this [of 1] show ?thesis
    by (auto simp: Let_def occ_run_def occ_init_def registry_commit_def registry_record_def u64_mod_def conflicts_def)
qed

text \<open>
  C35 (\<open>occ_fence_truncates\<close>). A fence makes every transaction that began before it fail its check,
  whatever is committed or fenced afterwards.
\<close>

theorem occ_fence_truncates:
  assumes "cap > 0" and "2 * length (evs @ Fence # evs') + 2 < u64_mod" and "p \<in> oc_past (occ_run cap evs)"
  shows "registry_check (oc_reg (occ_run cap (evs @ Fence # evs'))) p w rs \<noteq> None"
proof -
  define c where "c = occ_run cap evs"
  define d where "d = occ_apply Fence c"
  define f where "f = fold occ_apply evs' d"
  have c: "occ_inv c" "oc_seq c \<le> 2 * length evs"
    using occ_fold_inv [OF occ_inv_init [OF assms(1)], of evs] assms(2)
    by (auto simp: c_def occ_run_def occ_init_def)
  have d: "occ_inv d" "oc_seq d \<le> oc_seq c + 2" "oc_past c \<subseteq> oc_past d"
    using occ_apply_step [OF c(1), of Fence] c(2) assms(2) by (auto simp: d_def)
  have "occ_base d = oc_seq c + 2"
    using c(2) assms(2) by (simp add: d_def Let_def registry_fence_def occ_base_def)
  moreover have "p \<le> oc_seq c" using occ_invD(5) [OF c(1)] assms(3) by (simp add: c_def)
  ultimately have base_d: "p + 2 \<le> occ_base d" by simp
  have f: "occ_inv f" "occ_base d \<le> occ_base f" "oc_past d \<subseteq> oc_past f" "oc_seq f + 1 < u64_mod"
    using occ_fold_inv [OF d(1), of evs'] d(2) c(2) assms(2) by (auto simp: f_def)
  have "registry_check (oc_reg f) p w rs \<noteq> None"
    using f d(3) base_d assms(3) by (intro check_below_base) (auto simp: c_def)
  then show ?thesis by (simp add: f_def d_def c_def occ_run_def)
qed

theorem occ_fence_truncates_witness:
  "registry_check (oc_reg (occ_run 4 ([] @ Fence # [Commit ws_default]))) 0 ws_default None \<noteq> None"
proof (rule occ_fence_truncates)
  show "(0 :: nat) \<in> oc_past (occ_run 4 [])" by (simp add: occ_run_def occ_init_def)
qed (simp_all add: u64_mod_def)

subsection \<open>Serialisability\<close>

text \<open>
  Vertices and edges with values. A transaction reads a snapshot, the store as it was at its
  read sequence; what it writes depends only on the items of its read-set; on commit its writes go
  to the current store. A restore replaces the store and fences the registry.
\<close>

type_synonym item = "vid + eid"

definition ws_items :: "write_set \<Rightarrow> item set" where
  "ws_items w = Inl ` ws_vertices w \<union> Inr ` ws_edges w"

definition rs_items :: "occ_read_set \<Rightarrow> item set" where
  "rs_items r = Inl ` rs_vertices r \<union> Inr ` rs_edges r"

record 'v tx =
  tx_read_seq :: nat
  tx_reads :: occ_read_set
  tx_writes :: write_set
  tx_body :: "(item \<Rightarrow> 'v) \<Rightarrow> item \<Rightarrow> 'v"

definition tx_local :: "'v tx \<Rightarrow> bool" where
  "tx_local t \<longleftrightarrow> (\<forall>s s'. (\<forall>x\<in>rs_items (tx_reads t). s x = s' x) \<longrightarrow>
     (\<forall>x\<in>ws_items (tx_writes t). tx_body t s x = tx_body t s' x))"

definition tx_apply :: "'v tx \<Rightarrow> (item \<Rightarrow> 'v) \<Rightarrow> (item \<Rightarrow> 'v) \<Rightarrow> item \<Rightarrow> 'v" where
  "tx_apply t snapshot cur x = (if x \<in> ws_items (tx_writes t) then tx_body t snapshot x else cur x)"

datatype 'v event = Ran "'v tx" | Restored "item \<Rightarrow> 'v"

record 'v db =
  db_occ :: occ
  db_store :: "item \<Rightarrow> 'v"
  db_at :: "nat \<Rightarrow> item \<Rightarrow> 'v"
  db_log :: "'v event list"

definition db_init :: "nat \<Rightarrow> (item \<Rightarrow> 'v) \<Rightarrow> 'v db" where
  "db_init cap s = \<lparr>db_occ = occ_init cap, db_store = s, db_at = (\<lambda>_. s), db_log = []\<rparr>"

definition db_advance :: "occ_event \<Rightarrow> (item \<Rightarrow> 'v) \<Rightarrow> 'v event \<Rightarrow> 'v db \<Rightarrow> 'v db" where
  "db_advance e s ev d =
     (let c = occ_apply e (db_occ d)
      in \<lparr>db_occ = c, db_store = s, db_at = (db_at d)(oc_seq c := s), db_log = db_log d @ [ev]\<rparr>)"

inductive db_step :: "'v db \<Rightarrow> 'v db \<Rightarrow> bool" where
  commit: "\<lbrakk>oc_seq (db_occ d) + 2 < u64_mod; tx_read_seq t \<in> oc_past (db_occ d); tx_local t;
    registry_check (oc_reg (db_occ d)) (tx_read_seq t) (tx_writes t) (Some (tx_reads t)) = None\<rbrakk> \<Longrightarrow>
    db_step d (db_advance (Commit (tx_writes t)) (tx_apply t (db_at d (tx_read_seq t)) (db_store d)) (Ran t) d)"
| restore: "oc_seq (db_occ d) + 2 < u64_mod \<Longrightarrow> db_step d (db_advance Fence s (Restored s) d)"

fun run_serially :: "'v event \<Rightarrow> (item \<Rightarrow> 'v) \<Rightarrow> item \<Rightarrow> 'v" where
  "run_serially (Ran t) s = tx_apply t s s"
| "run_serially (Restored s') s = s'"

definition db_inv :: "(item \<Rightarrow> 'v) \<Rightarrow> 'v db \<Rightarrow> bool" where
  "db_inv s0 d \<longleftrightarrow> occ_inv (db_occ d) \<and> db_store d = fold run_serially (db_log d) s0 \<and>
     (\<forall>p\<in>oc_past (db_occ d). occ_base (db_occ d) \<le> p + 1 \<longrightarrow>
        (\<forall>x. (\<forall>(s, w)\<in>set (oc_live (db_occ d)). p < s \<longrightarrow> x \<notin> ws_items w) \<longrightarrow> db_at d p x = db_store d x))"

lemma check_reads_current:
  assumes inv: "db_inv s0 d" and room: "oc_seq (db_occ d) + 1 < u64_mod"
    and p: "p \<in> oc_past (db_occ d)" and ok: "registry_check (oc_reg (db_occ d)) p w (Some r) = None"
    and x: "x \<in> rs_items r"
  shows "db_at d p x = db_store d x"
proof -
  let ?c = "db_occ d"
  have occ: "occ_inv ?c" using inv by (simp add: db_inv_def)
  note chk = check_iff [OF occ p room, THEN iffD1, OF ok]
  have "occ_base ?c \<le> p + 1"
    using occ_base_oldest [OF occ] chk by (auto split: list.splits)
  moreover have "x \<notin> ws_items u" if "(s, u) \<in> set (oc_live ?c)" "p < s" for s u
  proof -
    have "\<not> conflicts w (Some r) u" using chk that by auto
    then show ?thesis using x by (auto simp: conflicts_def ws_items_def rs_items_def)
  qed
  ultimately show ?thesis using inv p by (fastforce simp: db_inv_def)
qed

lemma db_step_inv:
  assumes "db_step d d'" and inv: "db_inv s0 d"
  shows "db_inv s0 d'"
  using assms(1)
proof cases
  case (commit t)
  let ?c = "db_occ d" and ?p = "tx_read_seq t"
  have occ: "occ_inv ?c" using inv by (simp add: db_inv_def)
  have "tx_apply t (db_at d ?p) (db_store d) = tx_apply t (db_store d) (db_store d)"
    using check_reads_current [OF inv _ commit(3,5)] commit(2,4)
    by (auto simp: tx_apply_def tx_local_def fun_eq_iff)
  then have d': "d' = db_advance (Commit (tx_writes t)) (tx_apply t (db_store d) (db_store d)) (Ran t) d"
    using commit(1) by simp
  have n: "Suc (oc_seq ?c) mod u64_mod = Suc (oc_seq ?c)" using commit(2) by simp
  have "p < Suc (oc_seq ?c)" if "p \<in> oc_past ?c" for p using occ_invD(5) [OF occ that] by simp
  then show ?thesis
    using inv occ_inv_commit [OF occ, of "tx_writes t"] commit(2)
    unfolding d' db_inv_def db_advance_def
    by (auto simp: Let_def registry_commit_def n occ_base_def tx_apply_def)
next
  case (restore s)
  let ?c = "db_occ d"
  have occ: "occ_inv ?c" using inv by (simp add: db_inv_def)
  have n: "Suc (Suc (oc_seq ?c)) mod u64_mod = Suc (Suc (oc_seq ?c))" using restore(2) by simp
  have "\<not> Suc (oc_seq ?c) \<le> p" if "p \<in> oc_past ?c" for p using occ_invD(5) [OF occ that] by simp
  then show ?thesis
    using inv occ_inv_fence [OF occ restore(2)]
    unfolding restore(1) db_inv_def db_advance_def
    by (auto simp: Let_def registry_fence_def n occ_base_def)
qed

text \<open>
  C2 (\<open>occ_serializable\<close>). Transactions that read from the snapshot of the sequence they began at, and
  commit after passing the check with their read-set, leave the store as if they had run one after
  the other, each on the state the previous one left, in the order of their commit sequences; restores
  take their place in that order.
\<close>

theorem occ_serializable:
  assumes "cap > 0" and "db_step\<^sup>*\<^sup>* (db_init cap s0) d"
  shows "db_store d = fold run_serially (db_log d) s0"
proof -
  have "db_inv s0 (db_init cap s0)"
    using occ_inv_init [OF assms(1)] by (simp add: db_inv_def db_init_def)
  with assms(2) have "db_inv s0 d"
    by (induction rule: rtranclp_induct) (auto intro: db_step_inv)
  then show ?thesis by (simp add: db_inv_def)
qed

theorem occ_serializable_witness:
  "\<exists>d t. db_step\<^sup>*\<^sup>* (db_init 2 (\<lambda>_. 0 :: nat)) d \<and> db_log d = [Ran t] \<and> db_store d (Inl (Vid 1)) = 1"
proof -
  let ?t = "\<lparr>tx_read_seq = 0, tx_reads = \<lparr>rs_vertices = {Vid 1}, rs_edges = {}\<rparr>,
    tx_writes = ws_default\<lparr>ws_vertices := {Vid 1}\<rparr>, tx_body = (\<lambda>s x. s x + 1)\<rparr> :: nat tx"
  let ?i = "db_init 2 (\<lambda>_. 0 :: nat)"
  let ?d = "db_advance (Commit (tx_writes ?t)) (tx_apply ?t (db_at ?i (tx_read_seq ?t)) (db_store ?i)) (Ran ?t) ?i"
  have "db_step ?i ?d"
    by (rule db_step.commit)
      (auto simp: db_init_def occ_init_def u64_mod_def tx_local_def rs_items_def ws_items_def ws_default_def
        registry_check_def)
  then have run: "db_step\<^sup>*\<^sup>* ?i ?d" by blast
  have log: "db_log ?d = [Ran ?t]" by (simp add: db_advance_def db_init_def Let_def)
  have "db_store ?d = fold run_serially (db_log ?d) (\<lambda>_. 0)"
    by (rule occ_serializable [OF _ run]) simp
  then have "db_store ?d (Inl (Vid 1)) = 1"
    unfolding log by (simp add: tx_apply_def ws_items_def)
  then show ?thesis using run log by blast
qed

end
