(* ===== verification/Crdt_Core.thy ===== *)
theory Crdt_Core
  imports Prelude
begin

text \<open>
  State-based CRDTs (\<^verbatim>\<open>crates/uni-crdt/src\<close>): the contract of the trait \<open>CrdtMerge\<close>, and the
  two grow-only types, \<open>GCounter\<close> (\<^verbatim>\<open>gcounter.rs\<close>) and \<open>GSet\<close> (\<^verbatim>\<open>gset.rs\<close>).

  The trait asks a merge to be commutative, associative and idempotent. The locale
  \<open>state_crdt\<close> states that as a refinement: on states satisfying the type's invariant, \<open>mrg\<close>
  implements a join on what a state means (\<open>abs\<close>, the state up to the iteration order of its
  hash maps and the replica's private actor id). What a client gets from it, proved once, is
  strong convergence: two replicas that have merged the same set of states mean the same,
  whatever the order, the grouping and the repetitions in which the states arrived.
\<close>

definition deliver_all :: "('s \<Rightarrow> 's \<Rightarrow> 's) \<Rightarrow> 's list \<Rightarrow> 's \<Rightarrow> 's" where
  "deliver_all mrg xs s = foldl mrg s xs"

lemma deliver_all_simps [simp]:
  "deliver_all mrg [] s = s"
  "deliver_all mrg (x # xs) s = deliver_all mrg xs (mrg s x)"
  by (simp_all add: deliver_all_def)

locale state_crdt =
  fixes inv :: "'s \<Rightarrow> bool"
    and abs :: "'s \<Rightarrow> 'a"
    and mrg :: "'s \<Rightarrow> 's \<Rightarrow> 's"
    and join :: "'a \<Rightarrow> 'a \<Rightarrow> 'a"
  assumes inv_mrg: "inv a \<Longrightarrow> inv b \<Longrightarrow> inv (mrg a b)"
    and abs_mrg: "inv a \<Longrightarrow> inv b \<Longrightarrow> abs (mrg a b) = join (abs a) (abs b)"
    and join_commute: "inv a \<Longrightarrow> inv b \<Longrightarrow> join (abs a) (abs b) = join (abs b) (abs a)"
    and join_assoc: "inv a \<Longrightarrow> inv b \<Longrightarrow> inv c \<Longrightarrow>
      join (join (abs a) (abs b)) (abs c) = join (abs a) (join (abs b) (abs c))"
    and join_idem: "inv a \<Longrightarrow> join (abs a) (abs a) = abs a"
begin

lemma mrg_commute: "inv a \<Longrightarrow> inv b \<Longrightarrow> abs (mrg a b) = abs (mrg b a)"
  by (simp add: abs_mrg join_commute)

lemma mrg_assoc:
  "inv a \<Longrightarrow> inv b \<Longrightarrow> inv c \<Longrightarrow> abs (mrg (mrg a b) c) = abs (mrg a (mrg b c))"
  by (simp add: abs_mrg inv_mrg join_assoc)

lemma mrg_idem: "inv a \<Longrightarrow> abs (mrg a a) = abs a"
  by (simp add: abs_mrg join_idem)

lemma inv_deliver: "inv s \<Longrightarrow> \<forall>x\<in>set xs. inv x \<Longrightarrow> inv (deliver_all mrg xs s)"
  by (induction xs arbitrary: s) (auto intro: inv_mrg)

lemma deliver_upper:
  "\<lbrakk>inv s; \<forall>x\<in>set xs. inv x; x \<in> insert s (set xs)\<rbrakk> \<Longrightarrow>
   join (abs x) (abs (deliver_all mrg xs s)) = abs (deliver_all mrg xs s)"
proof (induction xs arbitrary: s x)
  case Nil
  then show ?case by (simp add: join_idem)
next
  case (Cons y ys)
  let ?r = "deliver_all mrg ys (mrg s y)"
  have inv: "inv (mrg s y)" "inv y" "inv s" "inv ?r"
    using Cons.prems by (auto intro: inv_mrg inv_deliver)
  have top: "join (abs (mrg s y)) (abs ?r) = abs ?r"
    using Cons.prems inv by (intro Cons.IH) auto
  have below: "join (abs z) (abs ?r) = abs ?r" if z: "z = s \<or> z = y" for z
  proof -
    have "join (abs z) (abs (mrg s y)) = abs (mrg s y)"
      using z inv by (metis abs_mrg inv_mrg join_assoc join_commute join_idem)
    then show ?thesis using z inv top by (metis join_assoc)
  qed
  show ?case
    using below Cons.IH [of "mrg s y" x] Cons.prems inv by auto
qed

lemma deliver_least:
  "\<lbrakk>inv s; \<forall>x\<in>set xs. inv x; inv u; \<forall>x\<in>insert s (set xs). join (abs x) (abs u) = abs u\<rbrakk> \<Longrightarrow>
   join (abs (deliver_all mrg xs s)) (abs u) = abs u"
proof (induction xs arbitrary: s)
  case Nil
  then show ?case by simp
next
  case (Cons y ys)
  have "join (abs (mrg s y)) (abs u) = abs u"
    using Cons.prems by (simp add: abs_mrg join_assoc)
  then show ?case
    using Cons.prems by (simp add: Cons.IH inv_mrg)
qed

theorem convergence:
  assumes "inv s" "inv t" "\<forall>x\<in>set xs. inv x" "\<forall>y\<in>set ys. inv y"
    and seen: "insert s (set xs) = insert t (set ys)"
  shows "abs (deliver_all mrg xs s) = abs (deliver_all mrg ys t)"
proof -
  let ?r = "deliver_all mrg xs s" and ?q = "deliver_all mrg ys t"
  have inv: "inv ?r" "inv ?q" using assms by (auto intro: inv_deliver)
  have "join (abs ?r) (abs ?q) = abs ?q"
    using assms inv by (intro deliver_least) (auto intro: deliver_upper)
  moreover have "join (abs ?q) (abs ?r) = abs ?r"
    using assms inv by (intro deliver_least) (auto intro: deliver_upper)
  ultimately show ?thesis using inv by (metis join_commute)
qed

end

subsection \<open>GCounter\<close>

record gcounter =
  counts :: "(string, u64) hmap"

definition gcounter_new :: gcounter where
  "gcounter_new = \<lparr>counts = []\<rparr>"

text \<open>The addition wraps at 64 bits, as it does in a release build.\<close>

definition gcounter_increment :: "gcounter \<Rightarrow> string \<Rightarrow> u64 \<Rightarrow> gcounter" where
  "gcounter_increment gc actr n =
     (if n = 0 then gc
      else gc\<lparr>counts := hput actr (hget_or 0 (counts gc) actr + n) (counts gc)\<rparr>)"

definition gcounter_value :: "gcounter \<Rightarrow> u64" where
  "gcounter_value gc = sum_list (map snd (counts gc))"

definition gcounter_actor_count :: "gcounter \<Rightarrow> string \<Rightarrow> u64" where
  "gcounter_actor_count gc actr = hget_or 0 (counts gc) actr"

definition gcounter_merge :: "gcounter \<Rightarrow> gcounter \<Rightarrow> gcounter" where
  "gcounter_merge a b =
     a\<lparr>counts := hmap_fold (\<lambda>c n. max (case c of None \<Rightarrow> 0 | Some x \<Rightarrow> x) n) (counts b) (counts a)\<rparr>"

definition gcounter_ok :: "gcounter \<Rightarrow> bool" where
  "gcounter_ok gc \<longleftrightarrow> hmap_ok (counts gc)"

lemma gcounter_ok_new: "gcounter_ok gcounter_new"
  by (simp add: gcounter_ok_def gcounter_new_def)

lemma gcounter_ok_increment: "gcounter_ok gc \<Longrightarrow> gcounter_ok (gcounter_increment gc actr n)"
  by (auto simp: gcounter_ok_def gcounter_increment_def)

lemma gcounter_ok_merge: "gcounter_ok a \<Longrightarrow> gcounter_ok (gcounter_merge a b)"
  by (auto simp: gcounter_ok_def gcounter_merge_def)

lemma gcounter_merge_counts:
  assumes "gcounter_ok b"
  shows "map_of (counts (gcounter_merge a b)) = map_join max (map_of (counts a)) (map_of (counts b))"
proof -
  have "max 0 w = w" for w :: u64 by (simp add: max_def)
  then show ?thesis
    using assms by (simp add: gcounter_merge_def gcounter_ok_def map_join_fold [where c = max])
qed

interpretation gc: state_crdt gcounter_ok "\<lambda>gc. map_of (counts gc)" gcounter_merge "map_join max"
  by unfold_locales
    (auto simp: gcounter_ok_merge gcounter_merge_counts max.assoc max.commute max.left_commute
      intro!: map_join_commute map_join_assoc map_join_idem)

lemma gcounter_actor_count_merge:
  "gcounter_ok b \<Longrightarrow>
   gcounter_actor_count (gcounter_merge a b) actr =
     max (gcounter_actor_count a actr) (gcounter_actor_count b actr)"
  by (simp add: gcounter_actor_count_def hget_or_def gcounter_merge_counts map_join_def max_def
      split: option.split)

lemma gcounter_actor_count_increment:
  "gcounter_actor_count (gcounter_increment gc actr n) actr' =
     (if actr' = actr then gcounter_actor_count gc actr + n else gcounter_actor_count gc actr')"
  by (simp add: gcounter_actor_count_def gcounter_increment_def)

lemma sum_list_hput:
  fixes m :: "('k, 'v :: comm_ring_1) hmap"
  assumes "hmap_ok m"
  shows "sum_list (map snd (hput k v m)) = sum_list (map snd m) - hget_or 0 m k + v"
  using assms
  by (induction m) (auto simp: hmap_ok_Cons hget_or_def)

lemma gcounter_value_increment:
  "gcounter_ok gc \<Longrightarrow> gcounter_value (gcounter_increment gc actr n) = gcounter_value gc + n"
  by (simp add: gcounter_value_def gcounter_increment_def gcounter_ok_def sum_list_hput)

subsection \<open>GSet\<close>

record 'a gset =
  elements :: "'a set"

definition gset_new :: "'a gset" where
  "gset_new = \<lparr>elements = {}\<rparr>"

definition gset_add :: "'a gset \<Rightarrow> 'a \<Rightarrow> 'a gset" where
  "gset_add gs x = gs\<lparr>elements := insert x (elements gs)\<rparr>"

definition gset_contains :: "'a gset \<Rightarrow> 'a \<Rightarrow> bool" where
  "gset_contains gs x \<longleftrightarrow> x \<in> elements gs"

definition gset_len :: "'a gset \<Rightarrow> nat" where
  "gset_len gs = card (elements gs)"

definition gset_merge :: "'a gset \<Rightarrow> 'a gset \<Rightarrow> 'a gset" where
  "gset_merge a b = a\<lparr>elements := elements a \<union> elements b\<rparr>"

interpretation gs: state_crdt "\<lambda>_. True" elements gset_merge "(\<union>)"
  by unfold_locales (auto simp: gset_merge_def)

end
