(* ===== verification/Crdt_Registers.thy ===== *)
theory Crdt_Registers
  imports Crdt_Core "HOL-Library.List_Lexorder" "HOL-Library.Option_ord"
    "HOL-Library.Product_Lexorder"
begin

text \<open>
  The register CRDTs of \<^verbatim>\<open>crates/uni-crdt/src\<close>: \<open>LWWRegister\<close> (\<^verbatim>\<open>lww_register.rs\<close>), \<open>LWWMap\<close>
  (\<^verbatim>\<open>lww_map.rs\<close>), \<open>VectorClock\<close> (\<^verbatim>\<open>vector_clock.rs\<close>) and \<open>VCRegister\<close> (\<^verbatim>\<open>vc_register.rs\<close>).

  Ties are broken by comparing serialised values. The serialiser (\<open>serde_json::to_vec\<close>) is the
  parameter \<open>ser\<close>: it gives the bytes, or \<open>None\<close> where it fails. The comparison of the source,
  \<open>Option\<close> of byte vectors, is the library's order on options of lists.
\<close>

type_synonym 'v serializer = "'v \<Rightarrow> u8 list option"

subsection \<open>LWWRegister\<close>

record 'v lww_register =
  lww_value :: 'v
  lww_timestamp :: int

definition lww_new :: "'v \<Rightarrow> int \<Rightarrow> 'v lww_register" where
  "lww_new v ts = \<lparr>lww_value = v, lww_timestamp = ts\<rparr>"

definition lww_set :: "'v lww_register \<Rightarrow> 'v \<Rightarrow> int \<Rightarrow> 'v lww_register" where
  "lww_set r v ts = (if ts \<ge> lww_timestamp r then r\<lparr>lww_value := v, lww_timestamp := ts\<rparr> else r)"

definition lww_merge :: "'v serializer \<Rightarrow> 'v lww_register \<Rightarrow> 'v lww_register \<Rightarrow> 'v lww_register" where
  "lww_merge ser a b =
     (if lww_timestamp b > lww_timestamp a
      then a\<lparr>lww_value := lww_value b, lww_timestamp := lww_timestamp b\<rparr>
      else if lww_timestamp b = lww_timestamp a then
        (case (ser (lww_value a), ser (lww_value b)) of
           (None, None) \<Rightarrow> a
         | (self_key, other_key) \<Rightarrow>
             if other_key > self_key then a\<lparr>lww_value := lww_value b\<rparr> else a)
      else a)"

text \<open>What decides a merge: the timestamp, then the serialised value.\<close>

definition lww_key :: "'v serializer \<Rightarrow> 'v lww_register \<Rightarrow> int \<times> u8 list option" where
  "lww_key ser r = (lww_timestamp r, ser (lww_value r))"

lemma lww_merge_by_key:
  "lww_merge ser a b = (if lww_key ser b > lww_key ser a then b else a)"
  by (cases a; cases b) (auto simp: lww_merge_def lww_key_def split: option.splits)

lemma lww_key_merge: "lww_key ser (lww_merge ser a b) = max (lww_key ser a) (lww_key ser b)"
  by (auto simp: lww_merge_by_key max_def)

lemma lww_key_inj: "inj ser \<Longrightarrow> lww_key ser a = lww_key ser b \<Longrightarrow> a = b"
  by (auto simp: lww_key_def inj_eq)

interpretation lww: state_crdt "\<lambda>_. True" "lww_key ser" "lww_merge ser" max for ser
  by unfold_locales (auto simp: lww_key_merge max.assoc max.commute max.left_commute)

subsection \<open>LWWMap\<close>

record ('k, 'v) lww_map =
  lww_entries :: "('k, 'v option lww_register) hmap"

text \<open>How the serialiser writes an \<open>Option\<close>: \<open>null\<close> for the tombstone, the value otherwise.\<close>

definition json_null :: "u8 list" where
  "json_null = [0x6E, 0x75, 0x6C, 0x6C]"

definition ser_option :: "'v serializer \<Rightarrow> 'v option serializer" where
  "ser_option ser x = (case x of None \<Rightarrow> Some json_null | Some v \<Rightarrow> ser v)"

definition lww_map_new :: "('k, 'v) lww_map" where
  "lww_map_new = \<lparr>lww_entries = []\<rparr>"

definition lww_map_put :: "('k, 'v) lww_map \<Rightarrow> 'k \<Rightarrow> 'v \<Rightarrow> int \<Rightarrow> ('k, 'v) lww_map" where
  "lww_map_put m k v ts =
     (case hget (lww_entries m) k of
        Some r \<Rightarrow> m\<lparr>lww_entries := hput k (lww_set r (Some v) ts) (lww_entries m)\<rparr>
      | None \<Rightarrow> m\<lparr>lww_entries := hput k (lww_new (Some v) ts) (lww_entries m)\<rparr>)"

definition lww_map_remove :: "('k, 'v) lww_map \<Rightarrow> 'k \<Rightarrow> int \<Rightarrow> ('k, 'v) lww_map" where
  "lww_map_remove m k ts =
     (case hget (lww_entries m) k of
        Some r \<Rightarrow> m\<lparr>lww_entries := hput k (lww_set r None ts) (lww_entries m)\<rparr>
      | None \<Rightarrow> m\<lparr>lww_entries := hput k (lww_new None ts) (lww_entries m)\<rparr>)"

definition lww_map_get :: "('k, 'v) lww_map \<Rightarrow> 'k \<Rightarrow> 'v option" where
  "lww_map_get m k = (case hget (lww_entries m) k of None \<Rightarrow> None | Some r \<Rightarrow> lww_value r)"

definition lww_map_keys :: "('k, 'v) lww_map \<Rightarrow> 'k list" where
  "lww_map_keys m = map fst (filter (\<lambda>(_, r). lww_value r \<noteq> None) (lww_entries m))"

definition lww_map_len :: "('k, 'v) lww_map \<Rightarrow> nat" where
  "lww_map_len m = length (filter (\<lambda>r. lww_value r \<noteq> None) (map snd (lww_entries m)))"

definition lww_map_merge :: "'v serializer \<Rightarrow> ('k, 'v) lww_map \<Rightarrow> ('k, 'v) lww_map \<Rightarrow> ('k, 'v) lww_map" where
  "lww_map_merge ser a b =
     a\<lparr>lww_entries := hmap_fold
         (\<lambda>mine theirs. case mine of Some r \<Rightarrow> lww_merge (ser_option ser) r theirs | None \<Rightarrow> theirs)
         (lww_entries b) (lww_entries a)\<rparr>"

definition lww_map_ok :: "('k, 'v) lww_map \<Rightarrow> bool" where
  "lww_map_ok m \<longleftrightarrow> hmap_ok (lww_entries m)"

definition lww_map_view :: "'v serializer \<Rightarrow> ('k, 'v) lww_map \<Rightarrow> 'k \<Rightarrow> (int \<times> u8 list option) option" where
  "lww_map_view ser m k = map_option (lww_key (ser_option ser)) (hget (lww_entries m) k)"

lemma lww_map_ok_new: "lww_map_ok lww_map_new"
  by (simp add: lww_map_ok_def lww_map_new_def)

lemma lww_map_ok_put: "lww_map_ok m \<Longrightarrow> lww_map_ok (lww_map_put m k v ts)"
  by (auto simp: lww_map_ok_def lww_map_put_def split: option.split)

lemma lww_map_ok_remove: "lww_map_ok m \<Longrightarrow> lww_map_ok (lww_map_remove m k ts)"
  by (auto simp: lww_map_ok_def lww_map_remove_def split: option.split)

lemma lww_map_ok_merge: "lww_map_ok a \<Longrightarrow> lww_map_ok (lww_map_merge ser a b)"
  by (auto simp: lww_map_ok_def lww_map_merge_def)

lemma lww_map_merge_entries:
  "lww_map_ok b \<Longrightarrow>
   map_of (lww_entries (lww_map_merge ser a b)) =
     map_join (lww_merge (ser_option ser)) (map_of (lww_entries a)) (map_of (lww_entries b))"
  by (simp add: lww_map_merge_def lww_map_ok_def map_join_fold)

lemma lww_map_view_merge:
  "lww_map_ok b \<Longrightarrow>
   lww_map_view ser (lww_map_merge ser a b) = map_join max (lww_map_view ser a) (lww_map_view ser b)"
  by (auto simp: lww_map_view_def fun_eq_iff lww_map_merge_entries map_join_def lww_key_merge
      split: option.split)

interpretation lm: state_crdt lww_map_ok "lww_map_view ser" "lww_map_merge ser" "map_join max" for ser
  by unfold_locales
    (auto simp: lww_map_ok_merge lww_map_view_merge max.assoc max.commute max.left_commute
      intro!: map_join_commute map_join_assoc map_join_idem)

lemma length_filter_keys: "lww_map_len m = length (lww_map_keys m)"
  by (simp add: lww_map_len_def lww_map_keys_def filter_map comp_def case_prod_unfold)

text \<open>
  The serialiser writes the JSON value \<open>null\<close> and the tombstone alike. A map without a live
  \<open>null\<close> is determined, as far as a reader can tell, by its view.
\<close>

definition lww_map_no_null :: "'v serializer \<Rightarrow> ('k, 'v) lww_map \<Rightarrow> bool" where
  "lww_map_no_null ser m \<longleftrightarrow>
     list_all (\<lambda>(_, r). case lww_value r of None \<Rightarrow> True | Some v \<Rightarrow> ser v \<noteq> Some json_null) (lww_entries m)"

lemma lww_map_no_null_get:
  "lww_map_no_null ser m \<Longrightarrow> hget (lww_entries m) k = Some r \<Longrightarrow> lww_value r = Some v \<Longrightarrow>
   ser v \<noteq> Some json_null"
  by (fastforce simp: lww_map_no_null_def list_all_iff dest: map_of_SomeD)

lemma ser_option_eqD:
  "inj ser \<Longrightarrow> ser_option ser x = ser_option ser y \<Longrightarrow>
   \<forall>v. x = Some v \<longrightarrow> ser v \<noteq> Some json_null \<Longrightarrow> \<forall>v. y = Some v \<longrightarrow> ser v \<noteq> Some json_null \<Longrightarrow> x = y"
  by (auto simp: ser_option_def inj_def split: option.splits)

lemma lww_map_view_get:
  assumes "inj ser" and "lww_map_no_null ser m" and "lww_map_no_null ser n"
    and view: "lww_map_view ser m = lww_map_view ser n"
  shows "lww_map_get m k = lww_map_get n k"
proof -
  have eq: "lww_map_view ser m k = lww_map_view ser n k" using view by simp
  show ?thesis
  proof (cases "hget (lww_entries m) k")
    case None
    with eq show ?thesis by (simp add: lww_map_view_def lww_map_get_def)
  next
    case (Some r)
    with eq obtain r' where r': "hget (lww_entries n) k = Some r'"
      and "lww_key (ser_option ser) r' = lww_key (ser_option ser) r"
      by (cases "hget (lww_entries n) k") (auto simp: lww_map_view_def)
    then have "lww_value r = lww_value r'"
      using lww_map_no_null_get [OF assms(2) Some] lww_map_no_null_get [OF assms(3) r']
      by (intro ser_option_eqD [OF assms(1)]) (auto simp: lww_key_def)
    with Some r' show ?thesis by (simp add: lww_map_get_def)
  qed
qed

lemma lww_map_no_null_merge:
  assumes "lww_map_no_null ser a" "lww_map_no_null ser b" "lww_map_ok a" "lww_map_ok b"
  shows "lww_map_no_null ser (lww_map_merge ser a b)"
proof -
  have "hmap_ok (lww_entries (lww_map_merge ser a b))"
    using lww_map_ok_merge [OF assms(3)] by (simp add: lww_map_ok_def)
  then show ?thesis
    using assms(1,2) lww_map_no_null_get [of ser a] lww_map_no_null_get [of ser b]
    by (auto simp: lww_map_no_null_def [of ser "lww_map_merge ser a b"] list_all_iff hmap_entries
        lww_map_merge_entries [OF assms(4)] map_join_def lww_merge_by_key split: option.splits if_splits)
qed

subsection \<open>Convergence\<close>

text \<open>
  Replicas of an \<open>LWWRegister\<close> that have merged the same
  registers, in any order, grouping and multiplicity, hold the same value and timestamp, provided
  the serialiser tells values apart.
\<close>

lemma lww_register_convergence:
  fixes r q :: "'v lww_register"
  assumes "inj ser" and "insert r (set xs) = insert q (set ys)"
  shows "deliver_all (lww_merge ser) xs r = deliver_all (lww_merge ser) ys q"
  by (rule lww_key_inj [OF assms(1)], rule lww.convergence) (use assms(2) in auto)

lemma lww_map_no_null_deliver:
  "\<lbrakk>lww_map_ok m; \<forall>x\<in>set xs. lww_map_ok x; lww_map_no_null ser m; \<forall>x\<in>set xs. lww_map_no_null ser x\<rbrakk> \<Longrightarrow>
   lww_map_no_null ser (deliver_all (lww_map_merge ser) xs m)"
  by (induction xs arbitrary: m) (auto intro: lww_map_no_null_merge lww_map_ok_merge)

text \<open>
  Readers of two replicas of an \<open>LWWMap\<close> that have merged the same
  maps see the same value under every key, provided no live value is the JSON \<open>null\<close>.
\<close>

lemma lww_map_convergence:
  assumes "inj ser" and seen: "insert m (set xs) = insert n (set ys)"
    and ok: "\<forall>x\<in>insert m (set xs). lww_map_ok x \<and> lww_map_no_null ser x"
  shows "lww_map_get (deliver_all (lww_map_merge ser) xs m) k =
    lww_map_get (deliver_all (lww_map_merge ser) ys n) k"
proof -
  have ok': "\<forall>x\<in>insert n (set ys). lww_map_ok x \<and> lww_map_no_null ser x" using ok seen by simp
  show ?thesis
  proof (rule lww_map_view_get [OF assms(1)])
    show "lww_map_no_null ser (deliver_all (lww_map_merge ser) xs m)"
      using ok by (simp add: lww_map_no_null_deliver)
    show "lww_map_no_null ser (deliver_all (lww_map_merge ser) ys n)"
      using ok' by (simp add: lww_map_no_null_deliver)
    show "lww_map_view ser (deliver_all (lww_map_merge ser) xs m) =
        lww_map_view ser (deliver_all (lww_map_merge ser) ys n)"
      by (rule lm.convergence [OF _ _ _ _ seen]) (use ok ok' in auto)
  qed
qed

text \<open>
  The proviso is needed. The serialiser writes a live JSON \<open>null\<close>
  and a tombstone as the same bytes, so that a put of \<open>null\<close> and a concurrent removal with the
  same timestamp do not commute: each replica keeps its own, and further merges change nothing.
\<close>

theorem lww_map_null_divergence:
  fixes ser :: "'v serializer" and k :: 'k
  assumes "ser nul = Some json_null"
  shows "let a = lww_map_put lww_map_new k nul ts; b = lww_map_remove lww_map_new k ts
         in lww_map_merge ser a b = a \<and> lww_map_merge ser b a = b \<and>
            lww_map_get a k = Some nul \<and> lww_map_get b k = None"
  by (simp add: Let_def lww_map_put_def lww_map_remove_def lww_map_new_def lww_map_merge_def
      lww_map_get_def lww_merge_by_key lww_key_def lww_new_def ser_option_def assms)

end
