(* ===== verification/Vector_Clock.thy ===== *)
theory Vector_Clock
  imports Crdt_Registers
begin

text \<open>
  \<open>VectorClock\<close> (\<^verbatim>\<open>crates/uni-crdt/src/vector_clock.rs\<close>) and the register ordered by it,
  \<open>VCRegister\<close> (\<^verbatim>\<open>vc_register.rs\<close>).

  The two scans of \<open>happened_before\<close> are shown to decide the causal order its comment defines,
  and the clock to be a state-based CRDT. The register's merge is commutative up to the choice
  the comment describes, but it is not associative: the divergence is stated at the end.
\<close>

subsection \<open>VectorClock\<close>

datatype ordering = Less | Equal | Greater

record vclock =
  clocks :: "(string, nat) hmap"

definition vclock_new :: vclock where
  "vclock_new = \<lparr>clocks = []\<rparr>"

definition vclock_get :: "vclock \<Rightarrow> string \<Rightarrow> nat" where
  "vclock_get c actr = hget_or 0 (clocks c) actr"

definition vclock_increment :: "vclock \<Rightarrow> string \<Rightarrow> vclock" where
  "vclock_increment c actr = c\<lparr>clocks := hput actr (hget_or 0 (clocks c) actr + 1) (clocks c)\<rparr>"

definition merge_clock :: "vclock \<Rightarrow> vclock \<Rightarrow> vclock" where
  "merge_clock a b =
     a\<lparr>clocks := hmap_fold (\<lambda>c n. max (case c of None \<Rightarrow> 0 | Some x \<Rightarrow> x) n) (clocks b) (clocks a)\<rparr>"

text \<open>The first loop of \<open>happened_before\<close>: \<open>None\<close> is its early return.\<close>

fun hb_scan :: "vclock \<Rightarrow> (string \<times> nat) list \<Rightarrow> bool \<Rightarrow> bool option" where
  "hb_scan other [] strictly_less = Some strictly_less"
| "hb_scan other ((actr, cnt) # rest) strictly_less =
     (let other_count = vclock_get other actr in
      if cnt > other_count then None
      else hb_scan other rest (if cnt < other_count then True else strictly_less))"

definition happened_before :: "vclock \<Rightarrow> vclock \<Rightarrow> bool" where
  "happened_before a b =
     (case hb_scan b (clocks a) False of
        None \<Rightarrow> False
      | Some True \<Rightarrow> True
      | Some False \<Rightarrow> list_ex (\<lambda>(actr, cnt). hget (clocks a) actr = None \<and> cnt > 0) (clocks b))"

definition vclock_eq :: "vclock \<Rightarrow> vclock \<Rightarrow> bool" where
  "vclock_eq a b = hmap_eq (clocks a) (clocks b)"

definition is_concurrent :: "vclock \<Rightarrow> vclock \<Rightarrow> bool" where
  "is_concurrent a b \<longleftrightarrow> \<not> happened_before a b \<and> \<not> happened_before b a \<and> \<not> vclock_eq a b"

definition causal_cmp :: "vclock \<Rightarrow> vclock \<Rightarrow> ordering option" where
  "causal_cmp a b =
     (if vclock_eq a b then Some Equal
      else if happened_before a b then Some Less
      else if happened_before b a then Some Greater
      else None)"

text \<open>Distinct actors; and, of the clocks the code builds by \<open>increment\<close>, positive counts.\<close>

definition vclock_ok :: "vclock \<Rightarrow> bool" where
  "vclock_ok c \<longleftrightarrow> hmap_ok (clocks c)"

definition vclock_pos :: "vclock \<Rightarrow> bool" where
  "vclock_pos c \<longleftrightarrow> vclock_ok c \<and> list_all (\<lambda>(_, n). n > 0) (clocks c)"

subsection \<open>VCRegister\<close>

datatype merge_result = KeptSelf | TookOther | Concurrent

record 'v vc_register =
  vcr_value :: 'v
  vcr_clock :: vclock

definition vcr_new :: "'v \<Rightarrow> string \<Rightarrow> 'v vc_register" where
  "vcr_new v actr = \<lparr>vcr_value = v, vcr_clock = vclock_increment vclock_new actr\<rparr>"

definition vcr_set :: "'v vc_register \<Rightarrow> 'v \<Rightarrow> string \<Rightarrow> 'v vc_register" where
  "vcr_set r v actr = r\<lparr>vcr_clock := vclock_increment (vcr_clock r) actr, vcr_value := v\<rparr>"

definition merge_register ::
  "'v serializer \<Rightarrow> 'v vc_register \<Rightarrow> 'v vc_register \<Rightarrow> merge_result \<times> 'v vc_register" where
  "merge_register ser a b =
     (case causal_cmp (vcr_clock a) (vcr_clock b) of
        Some Less \<Rightarrow>
          (TookOther, a\<lparr>vcr_value := vcr_value b, vcr_clock := merge_clock (vcr_clock a) (vcr_clock b)\<rparr>)
      | Some Greater \<Rightarrow> (KeptSelf, a\<lparr>vcr_clock := merge_clock (vcr_clock a) (vcr_clock b)\<rparr>)
      | Some Equal \<Rightarrow> (KeptSelf, a\<lparr>vcr_clock := merge_clock (vcr_clock a) (vcr_clock b)\<rparr>)
      | None \<Rightarrow>
          (let v = (case (ser (vcr_value a), ser (vcr_value b)) of
                      (None, None) \<Rightarrow> vcr_value a
                    | (self_key, other_key) \<Rightarrow>
                        if other_key > self_key then vcr_value b else vcr_value a)
           in (Concurrent, a\<lparr>vcr_value := v, vcr_clock := merge_clock (vcr_clock a) (vcr_clock b)\<rparr>)))"

definition vcr_merge :: "'v serializer \<Rightarrow> 'v vc_register \<Rightarrow> 'v vc_register \<Rightarrow> 'v vc_register" where
  "vcr_merge ser a b = snd (merge_register ser a b)"

subsection \<open>The causal order\<close>

lemma hb_scan_eq:
  "hb_scan b cs s =
     (if \<forall>(k, n)\<in>set cs. n \<le> vclock_get b k
      then Some (s \<or> (\<exists>(k, n)\<in>set cs. n < vclock_get b k)) else None)"
  by (induction b cs s rule: hb_scan.induct) (auto simp: Let_def not_less)

lemma vclock_get_entry: "vclock_ok c \<Longrightarrow> (k, n) \<in> set (clocks c) \<Longrightarrow> vclock_get c k = n"
  by (simp add: vclock_ok_def hmap_entries vclock_get_def hget_or_def)

lemma vclock_get_cases:
  "vclock_ok c \<Longrightarrow>
   (hget (clocks c) k = None \<and> vclock_get c k = 0) \<or> (k, vclock_get c k) \<in> set (clocks c)"
  by (auto simp: vclock_ok_def hmap_entries vclock_get_def hget_or_def split: option.split)

lemma vclock_entries_le:
  assumes "vclock_ok a"
  shows "(\<forall>(k, n)\<in>set (clocks a). n \<le> f k) \<longleftrightarrow> (\<forall>k. vclock_get a k \<le> f k)"
  using assms vclock_get_cases [OF assms] vclock_get_entry [OF assms]
  by (metis (mono_tags, lifting) case_prodD case_prodI2 le0)

lemma happened_before_iff:
  assumes a: "vclock_ok a" and b: "vclock_ok b"
  shows "happened_before a b \<longleftrightarrow>
    (\<forall>k. vclock_get a k \<le> vclock_get b k) \<and> (\<exists>k. vclock_get a k < vclock_get b k)"
    (is "_ \<longleftrightarrow> ?le \<and> ?lt")
proof -
  let ?lt1 = "\<exists>(k, n)\<in>set (clocks a). n < vclock_get b k"
  let ?lt2 = "\<exists>(k, n)\<in>set (clocks b). hget (clocks a) k = None \<and> n > 0"
  have get0: "hget (clocks a) k = None \<Longrightarrow> vclock_get a k = 0" for k
    by (simp add: vclock_get_def hget_or_def)
  have "happened_before a b \<longleftrightarrow> ?le \<and> (?lt1 \<or> ?lt2)"
    using vclock_entries_le [OF a, of "vclock_get b"]
    by (auto simp: happened_before_def hb_scan_eq list_ex_iff split: option.split bool.split)
  moreover have "?lt1 \<or> ?lt2 \<longleftrightarrow> ?lt"
  proof
    assume "?lt1 \<or> ?lt2"
    then consider k n where "(k, n) \<in> set (clocks a)" "n < vclock_get b k"
      | k n where "(k, n) \<in> set (clocks b)" "hget (clocks a) k = None" "n > 0"
      by auto
    then show ?lt
      by cases (metis vclock_get_entry [OF a], metis vclock_get_entry [OF b] get0)
  next
    assume ?lt
    then obtain k where k: "vclock_get a k < vclock_get b k" by blast
    then have kb: "(k, vclock_get b k) \<in> set (clocks b)"
      using vclock_get_cases [OF b, of k] by auto
    show "?lt1 \<or> ?lt2"
      using vclock_get_cases [OF a, of k] k kb by (metis (mono_tags, lifting) case_prodI)
  qed
  ultimately show ?thesis by blast
qed

lemma vclock_ok_new [simp]: "vclock_ok vclock_new"
  by (simp add: vclock_ok_def vclock_new_def)

lemma vclock_ok_increment [simp]: "vclock_ok c \<Longrightarrow> vclock_ok (vclock_increment c k)"
  by (auto simp: vclock_ok_def vclock_increment_def)

lemma vclock_ok_merge [simp]: "vclock_ok a \<Longrightarrow> vclock_ok (merge_clock a b)"
  by (auto simp: vclock_ok_def merge_clock_def)

lemma vclock_get_increment [simp]:
  "vclock_get (vclock_increment c k) j = (if j = k then vclock_get c k + 1 else vclock_get c j)"
  by (simp add: vclock_get_def vclock_increment_def)

lemma merge_clock_clocks:
  "vclock_ok b \<Longrightarrow>
   map_of (clocks (merge_clock a b)) = map_join max (map_of (clocks a)) (map_of (clocks b))"
  by (simp add: merge_clock_def vclock_ok_def map_join_fold [where c = max])

lemma vclock_get_merge [simp]:
  "vclock_ok b \<Longrightarrow> vclock_get (merge_clock a b) k = max (vclock_get a k) (vclock_get b k)"
  by (simp add: vclock_get_def hget_or_def merge_clock_clocks map_join_def split: option.split)

interpretation vc: state_crdt vclock_ok "\<lambda>c. map_of (clocks c)" merge_clock "map_join max"
  by unfold_locales
    (auto simp: merge_clock_clocks max.assoc max.commute max.left_commute
      intro!: map_join_commute map_join_assoc map_join_idem)

lemma vclock_pos_iff:
  "vclock_pos c \<longleftrightarrow> vclock_ok c \<and> (\<forall>k n. hget (clocks c) k = Some n \<longrightarrow> n > 0)"
  by (auto simp: vclock_pos_def vclock_ok_def list_all_iff hmap_entries)

lemma vclock_pos_new [simp]: "vclock_pos vclock_new"
  by (simp add: vclock_pos_iff) (simp add: vclock_new_def)

lemma vclock_pos_increment [simp]: "vclock_pos c \<Longrightarrow> vclock_pos (vclock_increment c k)"
  by (auto simp: vclock_pos_iff vclock_increment_def vclock_ok_def)

lemma vclock_pos_merge [simp]: "vclock_pos a \<Longrightarrow> vclock_pos b \<Longrightarrow> vclock_pos (merge_clock a b)"
  by (auto simp: vclock_pos_iff merge_clock_clocks map_join_def less_max_iff_disj
      split: option.splits)

lemma vclock_pos_ok: "vclock_pos c \<Longrightarrow> vclock_ok c"
  by (simp add: vclock_pos_def)

lemma vclock_eq_iff:
  assumes "vclock_pos a" "vclock_pos b"
  shows "vclock_eq a b \<longleftrightarrow> (\<forall>k. vclock_get a k = vclock_get b k)"
proof
  assume "vclock_eq a b"
  then have "map_of (clocks a) = map_of (clocks b)"
    using assms by (simp add: vclock_eq_def hmap_eq_iff vclock_pos_def vclock_ok_def)
  then show "\<forall>k. vclock_get a k = vclock_get b k" by (simp add: vclock_get_def hget_or_def)
next
  assume eq: "\<forall>k. vclock_get a k = vclock_get b k"
  have "hget (clocks a) k = hget (clocks b) k" for k
    using eq [rule_format, of k] assms
    by (auto simp: vclock_get_def hget_or_def vclock_pos_iff split: option.splits)
  then have "map_of (clocks a) = map_of (clocks b)" by (rule ext)
  then show "vclock_eq a b"
    using assms by (simp add: vclock_eq_def hmap_eq_iff vclock_pos_def vclock_ok_def)
qed

lemma happened_before_asym:
  "vclock_ok a \<Longrightarrow> vclock_ok b \<Longrightarrow> happened_before a b \<Longrightarrow> \<not> happened_before b a"
  by (meson happened_before_iff not_le)

lemma causal_cmp_swap:
  assumes "vclock_pos a" "vclock_pos b"
  shows "causal_cmp b a = map_option (\<lambda>c. case c of Less \<Rightarrow> Greater | Equal \<Rightarrow> Equal | Greater \<Rightarrow> Less) (causal_cmp a b)"
  using assms happened_before_asym [of a b] happened_before_asym [of b a]
  by (auto simp: causal_cmp_def vclock_eq_iff vclock_pos_ok)

text \<open>
  C28 (\<open>causal_cmp_spec\<close>). For clocks with positive counts (all that \<open>increment\<close> and \<open>merge\<close>
  build), \<open>causal_cmp\<close> decides the causal order: \<open>Equal\<close> exactly for equal counters, \<open>Less\<close>
  exactly if one clock is below the other everywhere and strictly somewhere, \<open>Greater\<close> for the
  converse, \<open>None\<close> exactly if each clock is ahead of the other for some actor.
\<close>

theorem causal_cmp_spec:
  assumes "vclock_pos a" "vclock_pos b"
  shows "causal_cmp a b =
    (if vclock_get a = vclock_get b then Some Equal
     else if vclock_get a \<le> vclock_get b then Some Less
     else if vclock_get b \<le> vclock_get a then Some Greater
     else None)"
proof -
  have eq: "vclock_eq a b \<longleftrightarrow> vclock_get a = vclock_get b"
    using assms by (simp add: vclock_eq_iff fun_eq_iff)
  have hb: "happened_before c d \<longleftrightarrow> vclock_get c \<le> vclock_get d \<and> vclock_get c \<noteq> vclock_get d"
    if "vclock_pos c" "vclock_pos d" for c d
    using that by (auto simp: happened_before_iff vclock_pos_ok le_fun_def fun_eq_iff less_le)
  show ?thesis
    using assms by (simp add: causal_cmp_def eq hb)
qed

theorem causal_cmp_spec_witness:
  "causal_cmp (vclock_increment vclock_new ''a'') (vclock_increment vclock_new ''b'') = None"
proof -
  let ?a = "vclock_increment vclock_new ''a''" and ?b = "vclock_increment vclock_new ''b''"
  have "vclock_pos ?a" "vclock_pos ?b" by simp_all
  from causal_cmp_spec [OF this] show ?thesis
    by (simp add: le_fun_def fun_eq_iff) (auto simp: vclock_get_def vclock_new_def)
qed

subsection \<open>Merging registers\<close>

lemma vcr_merge_clock: "vcr_clock (vcr_merge ser a b) = merge_clock (vcr_clock a) (vcr_clock b)"
  by (simp add: vcr_merge_def merge_register_def Let_def split: option.split ordering.split)

lemma vcr_merge_value:
  "vcr_value (vcr_merge ser a b) =
     (case causal_cmp (vcr_clock a) (vcr_clock b) of
        Some Less \<Rightarrow> vcr_value b
      | Some _ \<Rightarrow> vcr_value a
      | None \<Rightarrow> if ser (vcr_value b) > ser (vcr_value a) then vcr_value b else vcr_value a)"
  by (simp add: vcr_merge_def merge_register_def Let_def split: option.split ordering.split)

lemma vcr_merge_eq:
  "vcr_merge ser a b = \<lparr>vcr_value =
     (case causal_cmp (vcr_clock a) (vcr_clock b) of
        Some Less \<Rightarrow> vcr_value b
      | Some _ \<Rightarrow> vcr_value a
      | None \<Rightarrow> if ser (vcr_value b) > ser (vcr_value a) then vcr_value b else vcr_value a),
     vcr_clock = merge_clock (vcr_clock a) (vcr_clock b)\<rparr>"
  by (rule vc_register.equality) (simp_all add: vcr_merge_value vcr_merge_clock)

lemmas eval_clocks = vcr_new_def vcr_set_def causal_cmp_def vclock_eq_def hmap_eq_def
  happened_before_def vclock_increment_def vclock_new_def vclock_get_def merge_clock_def hget_or_def

text \<open>
  Two registers whose clocks differ merge to the same value and the
  same clock in either order, provided the serialiser tells values apart: the tie-break on
  concurrent clocks does what its comment claims.
\<close>

theorem vcr_merge_commute:
  assumes pos: "vclock_pos (vcr_clock a)" "vclock_pos (vcr_clock b)"
    and "inj ser" and diff: "\<not> vclock_eq (vcr_clock a) (vcr_clock b)"
  shows "vcr_value (vcr_merge ser a b) = vcr_value (vcr_merge ser b a) \<and>
    vclock_eq (vcr_clock (vcr_merge ser a b)) (vcr_clock (vcr_merge ser b a))"
proof
  have "causal_cmp (vcr_clock a) (vcr_clock b) \<noteq> Some Equal"
    using diff by (simp add: causal_cmp_def)
  moreover have "ser (vcr_value a) = ser (vcr_value b) \<Longrightarrow> vcr_value a = vcr_value b"
    using \<open>inj ser\<close> by (rule injD)
  ultimately show "vcr_value (vcr_merge ser a b) = vcr_value (vcr_merge ser b a)"
    unfolding vcr_merge_value causal_cmp_swap [OF pos]
    by (cases "causal_cmp (vcr_clock a) (vcr_clock b)") (auto split: ordering.split)
  show "vclock_eq (vcr_clock (vcr_merge ser a b)) (vcr_clock (vcr_merge ser b a))"
    using pos by (simp add: vcr_merge_clock vclock_eq_iff vclock_pos_ok max.commute)
qed

text \<open>
  C34 (\<open>vcr_merge_divergence\<close>). The merge is not associative, and replicas that have received the
  same three registers can disagree for ever. One actor writes \<open>x\<close>; another writes \<open>z\<close> and then
  overwrites it by \<open>y\<close>, where \<open>x\<close>, \<open>y\<close>, \<open>z\<close> serialise in this order. A replica that merges
  the three in the order written ends with the overwritten \<open>z\<close>; one that merges \<open>x\<close> and then \<open>y\<close>
  ends with \<open>y\<close>. Their clocks are equal, so merging them with each other changes neither.
\<close>

theorem vcr_merge_divergence:
  fixes ser :: "'v serializer"
  assumes "ser x < ser y" and "ser y < ser z"
  shows "let r = vcr_new x ''n1''; s = vcr_new z ''n2''; t = vcr_set s y ''n2'';
             p = vcr_merge ser (vcr_merge ser r s) t;
             q = vcr_merge ser r (vcr_merge ser s t)
         in happened_before (vcr_clock s) (vcr_clock t) \<and>
            vcr_value p = z \<and> vcr_value q = y \<and> vclock_eq (vcr_clock p) (vcr_clock q) \<and>
            vcr_merge ser p q = p \<and> vcr_merge ser q p = q"
proof -
  let ?c = "\<lambda>m. \<lparr>clocks = m\<rparr>"
  have xz: "ser x < ser z" using assms by (rule less_trans)
  have nless: "\<not> ser z < ser y" "\<not> ser y < ser x" "\<not> ser z < ser x"
    using assms xz by (auto dest: less_asym)
  have rs: "vcr_merge ser (vcr_new x ''n1'') (vcr_new z ''n2'') =
      \<lparr>vcr_value = z, vcr_clock = ?c [(''n1'', 1), (''n2'', 1)]\<rparr>"
    using xz by (simp add: vcr_merge_eq eval_clocks)
  have st: "vcr_merge ser (vcr_new z ''n2'') (vcr_set (vcr_new z ''n2'') y ''n2'') =
      \<lparr>vcr_value = y, vcr_clock = ?c [(''n2'', 2)]\<rparr>"
    by (simp add: vcr_merge_eq eval_clocks)
  have p: "vcr_merge ser \<lparr>vcr_value = z, vcr_clock = ?c [(''n1'', 1), (''n2'', 1)]\<rparr>
      (vcr_set (vcr_new z ''n2'') y ''n2'') =
      \<lparr>vcr_value = z, vcr_clock = ?c [(''n1'', 1), (''n2'', 2)]\<rparr>"
    using nless assms by (simp add: vcr_merge_eq eval_clocks)
  have q: "vcr_merge ser (vcr_new x ''n1'') \<lparr>vcr_value = y, vcr_clock = ?c [(''n2'', 2)]\<rparr> =
      \<lparr>vcr_value = y, vcr_clock = ?c [(''n1'', 1), (''n2'', 2)]\<rparr>"
    using assms by (simp add: vcr_merge_eq eval_clocks)
  have stay: "vcr_merge ser \<lparr>vcr_value = u, vcr_clock = ?c [(''n1'', 1), (''n2'', 2)]\<rparr>
      \<lparr>vcr_value = v, vcr_clock = ?c [(''n1'', 1), (''n2'', 2)]\<rparr> =
      \<lparr>vcr_value = u, vcr_clock = ?c [(''n1'', 1), (''n2'', 2)]\<rparr>" for u v
    by (simp add: vcr_merge_eq eval_clocks)
  have "happened_before (vcr_clock (vcr_new z ''n2'')) (vcr_clock (vcr_set (vcr_new z ''n2'') y ''n2''))"
    by (simp add: eval_clocks)
  then show ?thesis
    unfolding Let_def rs st p q stay by (simp add: vclock_eq_def hmap_eq_def)
qed

theorem vcr_merge_divergence_witness:
  "let ser = (\<lambda>v :: u8. Some [v]);
       r = vcr_new 65 ''n1''; s = vcr_new 90 ''n2''; t = vcr_set s 66 ''n2'';
       p = vcr_merge ser (vcr_merge ser r s) t; q = vcr_merge ser r (vcr_merge ser s t)
   in vcr_value p = 90 \<and> vcr_value q = 66 \<and> vcr_merge ser p q = p \<and> vcr_merge ser q p = q"
proof -
  have "Some [65 :: u8] < Some [66]" "Some [66 :: u8] < Some [90]" by simp_all
  from vcr_merge_divergence [where ser = "\<lambda>v. Some [v]", OF this]
  show ?thesis by (simp add: Let_def)
qed

end
