(* ===== verification/Crdt_ORSet.thy ===== *)
theory Crdt_ORSet
  imports Crdt_Core
begin

text \<open>
  The observed-remove set without tombstones, \<open>ORSet\<close> (\<^verbatim>\<open>crates/uni-crdt/src/orset.rs\<close>).

  Actor ids are UUIDs minted by a library; an operation that mints one takes it as an argument. A
  set of dots is a distinct list, as the decoder iterates over it. \<open>orset_dots\<close> is what a state
  holds for a key, and a dot is in one of three conditions for a state: unseen, live or removed.
  A merge moves every dot to the later of its two conditions, which is why it is a join.

  The last part is a network of replicas that add, remove, fork, send and receive, as a step
  relation. Its invariant is that nobody has seen more of an actor than the actor itself, which
  gives fresh dots and add-wins in every reachable state.
\<close>

type_synonym dot = "string \<times> nat"

record 'a orset =
  dots :: "('a, dot list) hmap"
  vv :: "(string, nat) hmap"
  actr :: string

definition orset_default :: "string \<Rightarrow> 'a orset" where
  "orset_default new_actor = \<lparr>dots = [], vv = [], actr = new_actor\<rparr>"

definition orset_fork :: "'a orset \<Rightarrow> string \<Rightarrow> 'a orset" where
  "orset_fork s new_actor = s\<lparr>actr := new_actor\<rparr>"

definition orset_add :: "'a orset \<Rightarrow> 'a \<Rightarrow> dot \<times> 'a orset" where
  "orset_add s x =
     (let cnt = hget_or 0 (vv s) (actr s) + 1;
          d = (actr s, cnt)
      in (d, s\<lparr>vv := hput (actr s) cnt (vv s), dots := hput x [d] (dots s)\<rparr>))"

definition orset_remove :: "'a orset \<Rightarrow> 'a \<Rightarrow> 'a orset" where
  "orset_remove s x = s\<lparr>dots := hdel x (dots s)\<rparr>"

definition orset_contains :: "'a orset \<Rightarrow> 'a \<Rightarrow> bool" where
  "orset_contains s x = (case hget (dots s) x of None \<Rightarrow> False | Some ds \<Rightarrow> ds \<noteq> [])"

definition orset_elements :: "'a orset \<Rightarrow> 'a list" where
  "orset_elements s = map fst (filter (\<lambda>(_, ds). ds \<noteq> []) (dots s))"

definition orset_len :: "'a orset \<Rightarrow> nat" where
  "orset_len s = length (filter (\<lambda>ds. ds \<noteq> []) (map snd (dots s)))"

definition orset_is_empty :: "'a orset \<Rightarrow> bool" where
  "orset_is_empty s \<longleftrightarrow> orset_len s = 0"

text \<open>\<open>PartialEq\<close>: the dots and the version vectors, not the actor.\<close>

definition orset_eq :: "'a orset \<Rightarrow> 'a orset \<Rightarrow> bool" where
  "orset_eq s t \<longleftrightarrow>
     hmap_eq_by hset_eq (dots s) (dots t) \<and> hmap_eq (vv s) (vv t)"

definition surviving :: "(string, nat) hmap \<Rightarrow> (string, nat) hmap \<Rightarrow> dot list \<Rightarrow> dot list \<Rightarrow> dot list" where
  "surviving self_vv other_vv sd od =
     (let both = fold hset_insert (filter (\<lambda>d. d \<in> set od) sd) [];
          mine = fold hset_insert
            (filter (\<lambda>d. snd d > hget_or 0 other_vv (fst d)) (filter (\<lambda>d. d \<notin> set od) sd)) both
      in fold hset_insert
            (filter (\<lambda>d. snd d > hget_or 0 self_vv (fst d)) (filter (\<lambda>d. d \<notin> set sd) od)) mine)"

definition merge_key :: "'a orset \<Rightarrow> 'a \<Rightarrow> 'a orset \<Rightarrow> 'a orset" where
  "merge_key other key s =
     (let sd = hget_or [] (dots s) key;
          od = hget_or [] (dots other) key;
          sv = surviving (vv s) (vv other) sd od
      in if sv = [] then s\<lparr>dots := hdel key (dots s)\<rparr> else s\<lparr>dots := hput key sv (dots s)\<rparr>)"

definition orset_merge :: "'a orset \<Rightarrow> 'a orset \<Rightarrow> 'a orset" where
  "orset_merge s other =
     (let keys = fold hset_insert (map fst (dots s) @ map fst (dots other)) [];
          s' = fold (merge_key other) keys s
      in s'\<lparr>vv := hmap_fold (\<lambda>c n. max (case c of None \<Rightarrow> 0 | Some x \<Rightarrow> x) n) (vv other) (vv s')\<rparr>)"

subsection \<open>The wire formats\<close>

record 'a orset_wire_v2 =
  w2_dots :: "('a, dot list) hmap"
  w2_vv :: "(string, nat) hmap"

record 'a orset_wire =
  w_dots :: "('a, dot list) hmap option"
  w_vv :: "(string, nat) hmap option"
  w_elements :: "('a, uuid list) hmap option"
  w_tombstones :: "uuid set option"

definition orset_into_wire :: "'a orset \<Rightarrow> 'a orset_wire_v2" where
  "orset_into_wire s = \<lparr>w2_dots = dots s, w2_vv = vv s\<rparr>"

definition observe_dot :: "dot \<Rightarrow> (string, nat) hmap \<Rightarrow> (string, nat) hmap" where
  "observe_dot d v = hput (fst d) (max (hget_or 0 v (fst d)) (snd d)) v"

definition vv_of_dots :: "('a, dot list) hmap \<Rightarrow> (string, nat) hmap" where
  "vv_of_dots ds = fold (\<lambda>tags v. fold observe_dot tags v) (map snd ds) []"

fun upgrade_v1 ::
  "string \<Rightarrow> uuid set \<Rightarrow> ('a \<times> uuid list) list \<Rightarrow> ('a, dot list) hmap \<times> nat \<Rightarrow> ('a, dot list) hmap \<times> nat" where
  "upgrade_v1 a tombs [] (ds, counter) = (ds, counter)"
| "upgrade_v1 a tombs ((x, tags) # rest) (ds, counter) =
     (if list_ex (\<lambda>tag. tag \<notin> tombs) tags
      then upgrade_v1 a tombs rest (hput x [(a, counter + 1)] ds, counter + 1)
      else upgrade_v1 a tombs rest (ds, counter))"

definition orset_from_wire :: "'a orset_wire \<Rightarrow> string \<Rightarrow> 'a orset" where
  "orset_from_wire w new_actor =
     (case (w_dots w, w_vv w) of
        (Some ds, Some v) \<Rightarrow> \<lparr>dots = ds, vv = v, actr = new_actor\<rparr>
      | (Some ds, None) \<Rightarrow> \<lparr>dots = ds, vv = vv_of_dots ds, actr = new_actor\<rparr>
      | (None, Some v) \<Rightarrow> \<lparr>dots = [], vv = v, actr = new_actor\<rparr>
      | (None, None) \<Rightarrow>
          (let tombs = (case w_tombstones w of None \<Rightarrow> {} | Some t \<Rightarrow> t);
               (new_dots, counter) =
                 (case w_elements w of None \<Rightarrow> ([], 0) | Some es \<Rightarrow> upgrade_v1 new_actor tombs es ([], 0))
           in \<lparr>dots = new_dots, vv = (if counter > 0 then hput new_actor counter [] else []),
               actr = new_actor\<rparr>))"

subsection \<open>What a state holds\<close>

definition orset_dots :: "'a orset \<Rightarrow> 'a \<Rightarrow> dot set" where
  "orset_dots s k = set (hget_or [] (dots s) k)"

definition seen :: "(string \<Rightarrow> nat option) \<Rightarrow> dot \<Rightarrow> bool" where
  "seen v d \<longleftrightarrow> snd d \<le> (case v (fst d) of None \<Rightarrow> 0 | Some n \<Rightarrow> n)"

definition orset_ok :: "'a orset \<Rightarrow> bool" where
  "orset_ok s \<longleftrightarrow> hmap_ok (dots s) \<and> hmap_ok (vv s) \<and>
     (\<forall>(_, ds)\<in>set (dots s). distinct ds \<and> ds \<noteq> [] \<and> (\<forall>d\<in>set ds. seen (map_of (vv s)) d))"

type_synonym 'a orset_view = "('a \<Rightarrow> dot set) \<times> (string \<Rightarrow> nat option)"

definition orset_view :: "'a orset \<Rightarrow> 'a orset_view" where
  "orset_view s = (orset_dots s, map_of (vv s))"

definition view_join :: "'a orset_view \<Rightarrow> 'a orset_view \<Rightarrow> 'a orset_view" where
  "view_join a b =
     (\<lambda>k. {d. (d \<in> fst a k \<and> d \<in> fst b k) \<or> (d \<in> fst a k \<and> \<not> seen (snd b) d) \<or>
              (d \<in> fst b k \<and> \<not> seen (snd a) d)},
      map_join max (snd a) (snd b))"

lemma orset_ok_iff:
  "orset_ok s \<longleftrightarrow> hmap_ok (dots s) \<and> hmap_ok (vv s) \<and>
     (\<forall>k ds. hget (dots s) k = Some ds \<longrightarrow> distinct ds \<and> ds \<noteq> [] \<and> (\<forall>d\<in>set ds. seen (map_of (vv s)) d))"
  unfolding orset_ok_def
  using hmap_ball [of "dots s" "\<lambda>_ ds. distinct ds \<and> ds \<noteq> [] \<and> (\<forall>d\<in>set ds. seen (map_of (vv s)) d)"]
  by blast

lemma orset_ok_seen: "orset_ok s \<Longrightarrow> d \<in> orset_dots s k \<Longrightarrow> seen (map_of (vv s)) d"
  by (cases "hget (dots s) k") (auto simp: orset_ok_iff orset_dots_def hget_or_def)

lemma orset_contains_iff: "orset_contains s k \<longleftrightarrow> orset_dots s k \<noteq> {}"
  by (simp only: orset_contains_def orset_dots_def set_empty hget_or_def) (simp split: option.split)

lemma surviving_set:
  "set (surviving v w sd od) =
     {d. (d \<in> set sd \<and> d \<in> set od) \<or> (d \<in> set sd \<and> d \<notin> set od \<and> \<not> seen (map_of w) d) \<or>
         (d \<in> set od \<and> d \<notin> set sd \<and> \<not> seen (map_of v) d)}"
  by (auto simp: surviving_def Let_def set_fold_hset_insert seen_def hget_or_def not_le)

lemma surviving_distinct: "distinct (surviving v w sd od)"
  by (simp add: surviving_def Let_def distinct_fold_hset_insert)

lemma vv_merge_key [simp]: "vv (merge_key t k s) = vv s"
  by (simp add: merge_key_def Let_def)

lemma vv_fold_merge_key [simp]: "vv (fold (merge_key t) ks s) = vv s"
  by (induction ks arbitrary: s) simp_all

lemma hget_merge_key:
  "hget (dots (merge_key t k s)) j =
     (if j = k then
        (let sv = surviving (vv s) (vv t) (hget_or [] (dots s) k) (hget_or [] (dots t) k)
         in if sv = [] then None else Some sv)
      else hget (dots s) j)"
  by (simp add: merge_key_def Let_def)

lemma hget_fold_merge_key:
  "distinct ks \<Longrightarrow>
   hget (dots (fold (merge_key t) ks s)) j =
     (if j \<in> set ks then
        (let sv = surviving (vv s) (vv t) (hget_or [] (dots s) j) (hget_or [] (dots t) j)
         in if sv = [] then None else Some sv)
      else hget (dots s) j)"
proof (induction ks arbitrary: s)
  case Nil
  then show ?case by simp
next
  case (Cons k ks)
  then show ?case by (auto simp: hget_merge_key hget_or_def)
qed

lemma hmap_ok_merge_key: "hmap_ok (dots s) \<Longrightarrow> hmap_ok (dots (merge_key t k s))"
  by (auto simp: merge_key_def Let_def)

lemma hmap_ok_fold_merge_key: "hmap_ok (dots s) \<Longrightarrow> hmap_ok (dots (fold (merge_key t) ks s))"
  by (induction ks arbitrary: s) (simp_all add: hmap_ok_merge_key)

lemma hget_orset_merge:
  "hget (dots (orset_merge s t)) j =
     (let sv = surviving (vv s) (vv t) (hget_or [] (dots s) j) (hget_or [] (dots t) j)
      in if sv = [] then None else Some sv)"
proof -
  define ks where "ks = fold hset_insert (map fst (dots s) @ map fst (dots t)) []"
  have ks: "distinct ks" unfolding ks_def by (rule distinct_fold_hset_insert) simp
  have keys: "set ks = fst ` set (dots s) \<union> fst ` set (dots t)"
    unfolding ks_def set_fold_hset_insert by auto
  have eq: "dots (orset_merge s t) = dots (fold (merge_key t) ks s)"
    by (simp add: orset_merge_def Let_def ks_def)
  have none: "surviving v w [] [] = []" for v w by (simp add: surviving_def)
  show ?thesis
  proof (cases "j \<in> set ks")
    case True
    then show ?thesis by (simp add: eq hget_fold_merge_key [OF ks])
  next
    case False
    then have "hget (dots s) j = None" "hget (dots t) j = None"
      unfolding keys map_of_eq_None_iff by auto
    then show ?thesis using False by (simp add: eq hget_fold_merge_key [OF ks] hget_or_def none)
  qed
qed

lemma vv_orset_merge:
  "hmap_ok (vv t) \<Longrightarrow> map_of (vv (orset_merge s t)) = map_join max (map_of (vv s)) (map_of (vv t))"
  by (simp add: orset_merge_def Let_def map_join_fold [where c = max])

lemma orset_dots_merge:
  assumes "orset_ok s" "orset_ok t"
  shows "orset_dots (orset_merge s t) = fst (view_join (orset_view s) (orset_view t))"
proof
  fix k
  have "orset_dots (orset_merge s t) k =
      set (surviving (vv s) (vv t) (hget_or [] (dots s) k) (hget_or [] (dots t) k))"
    by (simp add: orset_dots_def hget_or_def [of _ "dots (orset_merge s t)"] hget_orset_merge Let_def)
  then show "orset_dots (orset_merge s t) k = fst (view_join (orset_view s) (orset_view t)) k"
    using orset_ok_seen [OF assms(1), of _ k] orset_ok_seen [OF assms(2), of _ k]
    by (auto simp: surviving_set view_join_def orset_view_def orset_dots_def)
qed

lemma seen_join: "seen (map_join max v w) d \<longleftrightarrow> seen v d \<or> seen w d"
  by (auto simp: seen_def map_join_def split: option.split)

lemma orset_view_merge:
  "orset_ok s \<Longrightarrow> orset_ok t \<Longrightarrow> orset_view (orset_merge s t) = view_join (orset_view s) (orset_view t)"
  by (rule prod_eqI)
    (simp_all add: orset_dots_merge orset_view_def view_join_def vv_orset_merge orset_ok_def)

subsection \<open>The invariant\<close>

lemma orset_ok_default: "orset_ok (orset_default a)"
  by (simp add: orset_ok_iff orset_default_def)

lemma orset_ok_fork: "orset_ok s \<Longrightarrow> orset_ok (orset_fork s a)"
  by (simp add: orset_ok_iff orset_fork_def)

lemma seen_mono: "seen v d \<Longrightarrow> (\<And>a n. v a = Some n \<Longrightarrow> \<exists>m\<ge>n. w a = Some m) \<Longrightarrow> seen w d"
  by (cases "v (fst d)") (force simp: seen_def split: option.splits)+

lemma orset_ok_add:
  assumes "orset_ok s"
  shows "orset_ok (snd (orset_add s x))"
proof -
  have "seen (map_of (hput (actr s) (hget_or 0 (vv s) (actr s) + 1) (vv s))) d"
    if "seen (map_of (vv s)) d" for d
    using that by (rule seen_mono) (auto simp: hget_or_def)
  then show ?thesis
    using assms by (auto simp: orset_ok_iff orset_add_def Let_def seen_def)
qed

lemma orset_ok_remove: "orset_ok s \<Longrightarrow> orset_ok (orset_remove s x)"
  by (auto simp: orset_ok_iff orset_remove_def)

lemma orset_ok_merge:
  assumes "orset_ok s" "orset_ok t"
  shows "orset_ok (orset_merge s t)"
proof -
  have ok: "hmap_ok (dots (orset_merge s t))" "hmap_ok (vv (orset_merge s t))" "hmap_ok (vv t)"
    using assms
    by (auto simp: orset_merge_def Let_def orset_ok_def hmap_ok_fold_merge_key)
  have "seen (map_of (vv (orset_merge s t))) d" if "d \<in> orset_dots (orset_merge s t) k" for d k
    using that orset_ok_seen [OF assms(1), of d k] orset_ok_seen [OF assms(2), of d k]
    unfolding orset_dots_merge [OF assms]
    by (auto simp: view_join_def orset_view_def vv_orset_merge [OF ok(3)] seen_join)
  then have "\<forall>d\<in>set ds. seen (map_of (vv (orset_merge s t))) d"
    if "hget (dots (orset_merge s t)) k = Some ds" for k ds
    using that unfolding orset_dots_def hget_or_def [of _ "dots (orset_merge s t)"]
    by (metis option.simps(5))
  moreover have "distinct ds \<and> ds \<noteq> []" if "hget (dots (orset_merge s t)) k = Some ds" for k ds
    using that by (auto simp: hget_orset_merge Let_def surviving_distinct split: if_splits)
  ultimately show ?thesis using ok unfolding orset_ok_iff by blast
qed

lemma view_join_commute: "view_join a b = view_join b a"
  by (auto simp: view_join_def max.commute intro!: map_join_commute)

lemma view_join_idem: "view_join a a = a"
  by (rule prod_eqI) (auto simp: view_join_def intro!: map_join_idem)

lemma view_join_assoc:
  assumes "\<And>k d. d \<in> fst a k \<Longrightarrow> seen (snd a) d" "\<And>k d. d \<in> fst b k \<Longrightarrow> seen (snd b) d"
    "\<And>k d. d \<in> fst c k \<Longrightarrow> seen (snd c) d"
  shows "view_join (view_join a b) c = view_join a (view_join b c)"
proof (rule prod_eqI)
  show "fst (view_join (view_join a b) c) = fst (view_join a (view_join b c))"
    using assms by (intro ext) (auto simp: view_join_def seen_join)
  show "snd (view_join (view_join a b) c) = snd (view_join a (view_join b c))"
    by (simp add: view_join_def max.assoc map_join_assoc)
qed

interpretation os: state_crdt orset_ok orset_view orset_merge view_join
proof
  fix a b c :: "'a orset"
  show "orset_ok a \<Longrightarrow> orset_ok b \<Longrightarrow> orset_ok c \<Longrightarrow>
    view_join (view_join (orset_view a) (orset_view b)) (orset_view c) =
    view_join (orset_view a) (view_join (orset_view b) (orset_view c))"
    by (rule view_join_assoc) (auto simp: orset_view_def orset_ok_seen)
qed (auto simp: orset_ok_merge orset_view_merge view_join_idem intro: view_join_commute)

lemma rel_dots_iff:
  assumes "orset_ok s" "orset_ok t"
  shows "rel_option hset_eq (hget (dots s) k) (hget (dots t) k) \<longleftrightarrow> orset_dots s k = orset_dots t k"
  using assms [unfolded orset_ok_iff, THEN conjunct2, THEN conjunct2, rule_format, of k]
  by (cases "hget (dots s) k"; cases "hget (dots t) k")
    (auto simp: orset_dots_def hget_or_def hset_eq_iff)

lemma orset_eq_iff:
  assumes "orset_ok s" "orset_ok t"
  shows "orset_eq s t \<longleftrightarrow> orset_view s = orset_view t"
proof -
  have ok: "hmap_ok (dots s)" "hmap_ok (dots t)" "hmap_ok (vv s)" "hmap_ok (vv t)"
    using assms by (auto simp: orset_ok_def)
  show ?thesis
    unfolding orset_eq_def hmap_eq_by_iff [OF ok(1,2)] hmap_eq_iff [OF ok(3,4)] rel_dots_iff [OF assms]
    by (auto simp: orset_view_def)
qed

subsection \<open>Decoding\<close>

text \<open>What the decoder sees of a state this crate has written.\<close>

definition wire_of :: "'a orset \<Rightarrow> 'a orset_wire" where
  "wire_of s = (let w = orset_into_wire s
     in \<lparr>w_dots = Some (w2_dots w), w_vv = Some (w2_vv w), w_elements = None, w_tombstones = None\<rparr>)"

lemma orset_from_wire_of:
  "orset_from_wire (wire_of s) a = s\<lparr>actr := a\<rparr>"
  by (simp add: orset_from_wire_def wire_of_def orset_into_wire_def)

definition live_tag :: "uuid set \<Rightarrow> uuid list option \<Rightarrow> bool" where
  "live_tag tombs tags = (case tags of None \<Rightarrow> False | Some ts \<Rightarrow> list_ex (\<lambda>t. t \<notin> tombs) ts)"

lemma upgrade_v1_dots:
  assumes "hmap_ok es" "upgrade_v1 a tombs es (ds, n) = (ds', n')" "hmap_ok ds"
  shows "n \<le> n' \<and> hmap_ok ds' \<and>
    (if live_tag tombs (hget es k)
     then \<exists>c. hget ds' k = Some [(a, c)] \<and> n < c \<and> c \<le> n' else hget ds' k = hget ds k)"
  using assms
proof (induction a tombs es "(ds, n)" arbitrary: ds n rule: upgrade_v1.induct)
  case (1 a tombs ds n)
  then show ?case by (simp add: live_tag_def)
next
  case (2 a tombs x tags rest ds n)
  then show ?case
    by (cases "list_ex (\<lambda>tag. tag \<notin> tombs) tags")
      (fastforce simp: hmap_ok_Cons live_tag_def split: if_splits)+
qed

lemma seen_observe: "seen (map_of (observe_dot e v)) d \<longleftrightarrow> d = e \<or> seen (map_of v) d \<or> (fst d = fst e \<and> snd d \<le> snd e)"
  by (cases "hget v (fst e)") (auto simp: seen_def observe_dot_def hget_or_def)

lemma seen_observe_all: "seen (map_of v) d \<or> d \<in> set tags \<Longrightarrow> seen (map_of (fold observe_dot tags v)) d"
  by (induction tags arbitrary: v) (auto simp: seen_observe)

lemma seen_observe_fold:
  "seen (map_of v) d \<or> (\<exists>tags\<in>set tss. d \<in> set tags) \<Longrightarrow>
   seen (map_of (fold (\<lambda>tags v. fold observe_dot tags v) tss v)) d"
  by (induction tss arbitrary: v) (auto simp: seen_observe_all)

lemma hmap_ok_observe_all: "hmap_ok v \<Longrightarrow> hmap_ok (fold observe_dot tags v)"
  by (induction tags arbitrary: v) (simp_all add: observe_dot_def hmap_ok_hput)

lemma hmap_ok_observe_fold: "hmap_ok v \<Longrightarrow> hmap_ok (fold (\<lambda>tags v. fold observe_dot tags v) tss v)"
  by (induction tss arbitrary: v) (simp_all add: hmap_ok_observe_all)

lemma orset_decode_own:
  assumes "orset_ok s"
  shows "orset_ok (orset_from_wire (wire_of s) a) \<and> orset_eq (orset_from_wire (wire_of s) a) s"
proof -
  have "orset_ok (s\<lparr>actr := a\<rparr>)" using assms by (simp add: orset_ok_iff)
  with assms show ?thesis
    unfolding orset_from_wire_of by (simp add: orset_eq_iff orset_view_def orset_dots_def fun_eq_iff)
qed

lemma orset_decode_no_vv:
  assumes ok: "orset_ok s"
  shows "orset_ok (orset_from_wire (wire_of s\<lparr>w_vv := None\<rparr>) a) \<and>
    (\<forall>x. orset_contains (orset_from_wire (wire_of s\<lparr>w_vv := None\<rparr>) a) x \<longleftrightarrow> orset_contains s x)"
proof -
  let ?v = "vv_of_dots (dots s)"
  have "seen (map_of ?v) d" if "hget (dots s) k = Some ds" "d \<in> set ds" for k ds d
    unfolding vv_of_dots_def using that map_of_SomeD [OF that(1)]
    by (intro seen_observe_fold) (auto intro: rev_bexI)
  moreover have "hmap_ok ?v" unfolding vv_of_dots_def by (rule hmap_ok_observe_fold) simp
  ultimately have "orset_ok \<lparr>dots = dots s, vv = ?v, actr = a\<rparr>"
    using ok by (auto simp: orset_ok_iff)
  then show ?thesis
    by (simp add: orset_from_wire_def wire_of_def orset_into_wire_def orset_contains_def)
qed

definition wire_v1 :: "('a, uuid list) hmap \<Rightarrow> uuid set \<Rightarrow> 'a orset_wire" where
  "wire_v1 es tombs = \<lparr>w_dots = None, w_vv = None, w_elements = Some es, w_tombstones = Some tombs\<rparr>"

lemma orset_decode_v1:
  assumes es: "hmap_ok es"
  shows "orset_ok (orset_from_wire (wire_v1 es tombs) a) \<and>
    (\<forall>x. orset_contains (orset_from_wire (wire_v1 es tombs) a) x \<longleftrightarrow> live_tag tombs (hget es x))"
proof -
  obtain ds n where up: "upgrade_v1 a tombs es ([], 0) = (ds, n)" by fastforce
  note spec = upgrade_v1_dots [OF es up hmap_ok_Nil]
  let ?t = "\<lparr>dots = ds, vv = (if n > 0 then [(a, n)] else []), actr = a\<rparr>"
  have entry: "(\<exists>c. hget ds k = Some [(a, c)] \<and> 0 < c \<and> c \<le> n) \<and> live_tag tombs (hget es k) \<or>
      hget ds k = None \<and> \<not> live_tag tombs (hget es k)" for k
    using spec [of k] by (cases "live_tag tombs (hget es k)") simp_all
  have "distinct xs \<and> xs \<noteq> [] \<and> (\<forall>d\<in>set xs. seen (map_of (vv ?t)) d)"
    if "hget (dots ?t) k = Some xs" for k xs
    using that entry [of k] by (cases "n > 0") (auto simp: seen_def)
  moreover have "hmap_ok (dots ?t)" "hmap_ok (vv ?t)"
    using spec by (simp_all add: hmap_ok_def)
  ultimately have "orset_ok ?t" unfolding orset_ok_iff by blast
  moreover have "orset_contains ?t x \<longleftrightarrow> live_tag tombs (hget es x)" for x
    using entry [of x] by (auto simp: orset_contains_def)
  ultimately show ?thesis
    by (cases "n > 0") (simp_all add: orset_from_wire_def wire_v1_def up)
qed

text \<open>
  C30 (\<open>orset_decode\<close>). Decoding yields a well-formed set with the elements of the payload. A
  payload this crate wrote decodes to an equal set. A v2 payload without its version vector keeps
  every element, and the derived vector covers every dot. A v1 payload keeps exactly the elements
  with a tag that is not a tombstone.
\<close>

theorem orset_decode:
  assumes "orset_ok s" and "hmap_ok es"
  shows "(let t = orset_from_wire (wire_of s) a in orset_ok t \<and> orset_eq t s) \<and>
    (let t = orset_from_wire (wire_of s\<lparr>w_vv := None\<rparr>) a
     in orset_ok t \<and> (\<forall>x. orset_contains t x = orset_contains s x)) \<and>
    (let t = orset_from_wire (wire_v1 es tombs) a
     in orset_ok t \<and> (\<forall>x. orset_contains t x = live_tag tombs (hget es x)))"
  unfolding Let_def
  by (intro conjI orset_decode_own [OF assms(1), THEN conjunct1] orset_decode_own [OF assms(1), THEN conjunct2]
      orset_decode_no_vv [OF assms(1), THEN conjunct1] orset_decode_no_vv [OF assms(1), THEN conjunct2]
      orset_decode_v1 [OF assms(2), THEN conjunct1] orset_decode_v1 [OF assms(2), THEN conjunct2])

theorem orset_decode_witness:
  "let es = [(''kept'', [7 :: uuid]), (''dropped'', [8])]; t = orset_from_wire (wire_v1 es {8}) ''u''
   in orset_contains t ''kept'' \<and> \<not> orset_contains t ''dropped''"
proof -
  have "orset_ok (orset_default ''u'' :: string orset)" by (rule orset_ok_default)
  moreover have "hmap_ok [(''kept'', [7 :: uuid]), (''dropped'', [8])]" by (simp add: hmap_ok_def)
  ultimately have "\<forall>x. orset_contains (orset_from_wire (wire_v1 [(''kept'', [7]), (''dropped'', [8])] {8}) ''u'') x =
      live_tag {8} (hget [(''kept'', [7]), (''dropped'', [8])] x)"
    using orset_decode [unfolded Let_def] by blast
  then show ?thesis by (simp add: Let_def live_tag_def)
qed

subsection \<open>Convergence and removal\<close>

text \<open>
  Replicas of an \<open>ORSet\<close> that have merged the same states are equal in
  the sense of the type's own \<open>==\<close>, whatever the order, the grouping and the repetitions.
\<close>

lemma orset_convergence:
  assumes ok: "\<forall>x\<in>insert s (set xs). orset_ok x" and same: "insert s (set xs) = insert t (set ys)"
  shows "orset_eq (deliver_all orset_merge xs s) (deliver_all orset_merge ys t)"
proof -
  have ok': "\<forall>x\<in>insert t (set ys). orset_ok x" using ok same by simp
  have "orset_view (deliver_all orset_merge xs s) = orset_view (deliver_all orset_merge ys t)"
    by (rule os.convergence [OF _ _ _ _ same]) (use ok ok' in auto)
  then show ?thesis
    using ok ok' by (simp add: orset_eq_iff os.inv_deliver)
qed

lemma orset_dots_add:
  "orset_dots (snd (orset_add s x)) k = (if k = x then {fst (orset_add s x)} else orset_dots s k)"
  by (simp add: orset_dots_def orset_add_def Let_def)

lemma orset_dots_remove: "orset_dots (orset_remove s x) k = (if k = x then {} else orset_dots s k)"
  by (simp add: orset_dots_def orset_remove_def)

lemma vv_orset_remove [simp]: "vv (orset_remove s x) = vv s"
  by (simp add: orset_remove_def)

text \<open>
  C29 (\<open>orset_observed_remove\<close>). A removal is final against everything the remover has observed: no
  state all of whose dots for the element the remover has seen brings it back, in either order
  of merging. Conversely a single dot the remover has not seen keeps the element (add wins).
\<close>

theorem orset_observed_remove:
  assumes "orset_ok s" "orset_ok t"
  shows "let r = orset_remove s x; shadowed = (\<forall>d\<in>orset_dots t x. seen (map_of (vv s)) d)
    in (orset_contains (orset_merge r t) x \<longleftrightarrow> \<not> shadowed) \<and>
       (orset_contains (orset_merge t r) x \<longleftrightarrow> \<not> shadowed)"
  using orset_ok_remove [OF assms(1), of x] assms(2)
  by (auto simp: Let_def orset_contains_iff orset_dots_merge view_join_def orset_view_def orset_dots_remove)

theorem orset_observed_remove_witness:
  "let t = snd (orset_add (orset_default ''A'') ''x''); s = orset_merge (orset_default ''B'') t
   in \<not> orset_contains (orset_merge (orset_remove s ''x'') t) ''x''"
proof -
  let ?t = "snd (orset_add (orset_default ''A'') ''x'')"
  let ?s = "orset_merge (orset_default ''B'') ?t"
  have t: "orset_ok ?t" by (simp add: orset_ok_add orset_ok_default)
  then have s: "orset_ok ?s" by (simp add: orset_ok_merge orset_ok_default)
  have "\<forall>d\<in>orset_dots ?t ''x''. seen (map_of (vv ?s)) d"
    using t orset_ok_seen [OF t] by (auto simp: vv_orset_merge orset_ok_def seen_join)
  with orset_observed_remove [OF s t, of "''x''"] show ?thesis by (simp add: Let_def)
qed

subsection \<open>A network of replicas\<close>

record 'a net =
  replicas :: "'a orset list"
  mail :: "'a orset list"

definition net_states :: "'a net \<Rightarrow> 'a orset set" where
  "net_states n = set (replicas n) \<union> set (mail n)"

text \<open>What a freshly minted UUID is relied on for: nobody has it.\<close>

definition fresh_actor :: "string \<Rightarrow> 'a net \<Rightarrow> bool" where
  "fresh_actor a n \<longleftrightarrow> (\<forall>s\<in>net_states n. actr s \<noteq> a \<and> hget (vv s) a = None)"

inductive net_step :: "'a net \<Rightarrow> 'a net \<Rightarrow> bool" where
  step_new: "fresh_actor a n \<Longrightarrow> net_step n (n\<lparr>replicas := replicas n @ [orset_default a]\<rparr>)"
| step_fork: "\<lbrakk>i < length (replicas n); fresh_actor a n\<rbrakk> \<Longrightarrow>
    net_step n (n\<lparr>replicas := replicas n @ [orset_fork (replicas n ! i) a]\<rparr>)"
| step_load: "\<lbrakk>m \<in> set (mail n); fresh_actor a n\<rbrakk> \<Longrightarrow>
    net_step n (n\<lparr>replicas := replicas n @ [orset_from_wire (wire_of m) a]\<rparr>)"
| step_add: "i < length (replicas n) \<Longrightarrow>
    net_step n (n\<lparr>replicas := (replicas n)[i := snd (orset_add (replicas n ! i) x)]\<rparr>)"
| step_remove: "i < length (replicas n) \<Longrightarrow>
    net_step n (n\<lparr>replicas := (replicas n)[i := orset_remove (replicas n ! i) x]\<rparr>)"
| step_send: "i < length (replicas n) \<Longrightarrow> net_step n (n\<lparr>mail := replicas n ! i # mail n\<rparr>)"
| step_receive: "\<lbrakk>i < length (replicas n); m \<in> set (mail n)\<rbrakk> \<Longrightarrow>
    net_step n (n\<lparr>replicas := (replicas n)[i := orset_merge (replicas n ! i) m]\<rparr>)"

definition net_reachable :: "'a net \<Rightarrow> bool" where
  "net_reachable n \<longleftrightarrow> net_step\<^sup>*\<^sup>* \<lparr>replicas = [], mail = []\<rparr> n"

definition net_inv :: "'a net \<Rightarrow> bool" where
  "net_inv n \<longleftrightarrow> (\<forall>s\<in>net_states n. orset_ok s) \<and>
     distinct (map actr (replicas n)) \<and>
     (\<forall>r\<in>set (replicas n). \<forall>s\<in>net_states n. hget_or 0 (vv s) (actr r) \<le> hget_or 0 (vv r) (actr r))"

lemma net_inv_extend:
  assumes inv: "net_inv n" and a: "fresh_actor a n" and r: "orset_ok r" "actr r = a"
    and vv: "vv r = [] \<or> (\<exists>s\<in>net_states n. vv r = vv s)"
  shows "net_inv (n\<lparr>replicas := replicas n @ [r]\<rparr>)"
proof -
  have none: "hget_or 0 (vv s) a = 0" if "s \<in> net_states n" for s
    using a that by (simp add: fresh_actor_def hget_or_def)
  have fresh: "a \<notin> actr ` set (replicas n)" using a by (auto simp: fresh_actor_def net_states_def)
  have old: "hget_or 0 (vv r) (actr q) \<le> hget_or 0 (vv q) (actr q)" if "q \<in> set (replicas n)" for q
    using inv vv that by (auto simp: net_inv_def)
  show ?thesis
    using inv r none fresh old
    unfolding net_inv_def net_states_def by (auto simp: net_states_def)
qed

lemma net_inv_update:
  assumes inv: "net_inv n" and i: "i < length (replicas n)" and r: "orset_ok r" "actr r = actr (replicas n ! i)"
    and own: "hget_or 0 (vv (replicas n ! i)) (actr r) \<le> hget_or 0 (vv r) (actr r)"
    and others: "\<And>q. q \<in> set (replicas n) \<Longrightarrow> actr q \<noteq> actr r \<Longrightarrow>
      hget_or 0 (vv r) (actr q) \<le> hget_or 0 (vv q) (actr q)"
  shows "net_inv (n\<lparr>replicas := (replicas n)[i := r]\<rparr>)"
proof -
  let ?rs = "(replicas n)[i := r]"
  have sub: "set ?rs \<subseteq> insert r (set (replicas n))" by (rule set_update_subset_insert)
  have at_i: "replicas n ! i \<in> set (replicas n)" using i by simp
  have same: "map actr ?rs = map actr (replicas n)"
    using i r(2) by (simp add: map_update list_update_same_conv)
  have diff: "q = r \<or> (q \<in> set (replicas n) \<and> actr q \<noteq> actr r)" if "q \<in> set ?rs" for q
    using that inv i r(2)
    by (auto simp: net_inv_def in_set_conv_nth nth_list_update distinct_conv_nth split: if_splits)
  have bound: "hget_or 0 (vv s) (actr q) \<le> hget_or 0 (vv q) (actr q)"
    if q: "q \<in> set ?rs" and s: "s = r \<or> s \<in> net_states n" for q s
    using diff [OF q]
  proof
    assume "q = r"
    then show ?thesis using s inv at_i own r(2) by (auto simp: net_inv_def intro: order_trans)
  next
    assume "q \<in> set (replicas n) \<and> actr q \<noteq> actr r"
    then show ?thesis using s inv others by (auto simp: net_inv_def)
  qed
  have states: "s = r \<or> s \<in> net_states n" if "s \<in> net_states (n\<lparr>replicas := ?rs\<rparr>)" for s
    using that sub by (auto simp: net_states_def)
  show ?thesis
    unfolding net_inv_def
  proof (intro conjI ballI)
    show "orset_ok s" if "s \<in> net_states (n\<lparr>replicas := ?rs\<rparr>)" for s
      using states [OF that] inv r(1) by (auto simp: net_inv_def)
    show "distinct (map actr (replicas (n\<lparr>replicas := ?rs\<rparr>)))"
      using inv same by (simp add: net_inv_def)
  qed (use bound states in auto)
qed

lemma hget_or_merge_vv:
  "orset_ok t \<Longrightarrow>
   hget_or 0 (vv (orset_merge s t)) a = max (hget_or 0 (vv s) a) (hget_or 0 (vv t) a)"
  by (simp add: orset_ok_def hget_or_def vv_orset_merge map_join_def split: option.split)

lemma actr_merge_key [simp]: "actr (merge_key t k s) = actr s"
  by (simp add: merge_key_def Let_def)

lemma actr_orset_merge [simp]: "actr (orset_merge s t) = actr s"
proof -
  have "actr (fold (merge_key t) ks s) = actr s" for ks by (induction ks arbitrary: s) simp_all
  then show ?thesis by (simp add: orset_merge_def Let_def)
qed

lemma net_step_inv: "net_step n n' \<Longrightarrow> net_inv n \<Longrightarrow> net_inv n'"
proof (induction rule: net_step.induct)
  case (step_new a n)
  then show ?case
    by (intro net_inv_extend orset_ok_default) (auto simp: orset_default_def)
next
  case (step_fork i n a)
  then have "replicas n ! i \<in> net_states n" by (simp add: net_states_def)
  with step_fork show ?case
    by (intro net_inv_extend orset_ok_fork) (auto simp: net_inv_def orset_fork_def)
next
  case (step_load m n a)
  then have m: "m \<in> net_states n" by (simp add: net_states_def)
  then have "orset_ok m" using step_load.prems by (simp add: net_inv_def)
  then have "orset_ok (m\<lparr>actr := a\<rparr>)" by (simp add: orset_ok_iff)
  with step_load m show ?case
    unfolding orset_from_wire_of by (intro net_inv_extend) auto
next
  case (step_add i n x)
  then have ri: "replicas n ! i \<in> set (replicas n)" "replicas n ! i \<in> net_states n"
    by (simp_all add: net_states_def)
  with step_add show ?case
    by (intro net_inv_update orset_ok_add) (auto simp: net_inv_def orset_add_def Let_def)
next
  case (step_remove i n x)
  then have ri: "replicas n ! i \<in> set (replicas n)" "replicas n ! i \<in> net_states n"
    by (simp_all add: net_states_def)
  with step_remove show ?case
    by (intro net_inv_update orset_ok_remove) (auto simp: net_inv_def orset_remove_def)
next
  case (step_send i n)
  then show ?case by (auto simp: net_inv_def net_states_def)
next
  case (step_receive i n m)
  then have ri: "replicas n ! i \<in> set (replicas n)" "replicas n ! i \<in> net_states n"
    and m: "m \<in> net_states n" by (simp_all add: net_states_def)
  then have "orset_ok m" using step_receive.prems by (simp add: net_inv_def)
  with step_receive ri m show ?case
    by (intro net_inv_update orset_ok_merge) (auto simp: net_inv_def hget_or_merge_vv)
qed

lemma net_reachable_inv: "net_reachable n \<Longrightarrow> net_inv n"
proof -
  assume "net_reachable n"
  then have "net_step\<^sup>*\<^sup>* \<lparr>replicas = [], mail = []\<rparr> n" by (simp add: net_reachable_def)
  then show "net_inv n"
    by (induction rule: rtranclp_induct) (auto simp: net_inv_def net_states_def dest: net_step_inv)
qed

text \<open>
  C15 (\<open>orset_add_wins\<close>). In every reachable network, with forks, decoded snapshots, duplicated,
  reordered and stale messages: the dot a replica mints when it adds an element is seen by no
  state anywhere, and merging the result with any state of the network, a replica's or a
  message's, in either order, has the element, even if that state has just removed it.
\<close>

theorem orset_add_wins:
  assumes "net_reachable n" and "r \<in> set (replicas n)" and "s \<in> net_states n"
  shows "let (d, t) = orset_add r x; s' = orset_remove s x
    in \<not> seen (map_of (vv s)) d \<and>
       orset_contains (orset_merge s' t) x \<and> orset_contains (orset_merge t s') x"
proof -
  have inv: "net_inv n" using assms(1) by (rule net_reachable_inv)
  have ok: "orset_ok r" "orset_ok s" using inv assms(2,3) by (auto simp: net_inv_def net_states_def)
  have "hget_or 0 (vv s) (actr r) \<le> hget_or 0 (vv r) (actr r)"
    using inv assms(2,3) by (simp add: net_inv_def)
  then have unseen: "\<not> seen (map_of (vv s)) (fst (orset_add r x))"
    by (simp add: seen_def orset_add_def Let_def hget_or_def)
  note oks = orset_ok_add [OF ok(1), of x] orset_ok_remove [OF ok(2), of x]
  have "fst (orset_add r x) \<in> orset_dots (orset_merge (orset_remove s x) (snd (orset_add r x))) x"
    "fst (orset_add r x) \<in> orset_dots (orset_merge (snd (orset_add r x)) (orset_remove s x)) x"
    using unseen oks by (simp_all add: orset_dots_merge view_join_def orset_view_def orset_dots_add)
  then have "orset_contains (orset_merge (orset_remove s x) (snd (orset_add r x))) x"
    "orset_contains (orset_merge (snd (orset_add r x)) (orset_remove s x)) x"
    unfolding orset_contains_iff by blast+
  with unseen show ?thesis by (simp add: Let_def case_prod_unfold)
qed

theorem orset_add_wins_witness:
  "let r = orset_default ''A''; (d, t) = orset_add r ''x''; s' = orset_remove r ''x''
   in orset_contains (orset_merge s' t) ''x'' \<and> orset_contains (orset_merge t s') ''x''"
proof -
  let ?n = "\<lparr>replicas = [orset_default ''A'' :: string orset], mail = []\<rparr>"
  have "net_step \<lparr>replicas = [], mail = []\<rparr> ?n"
    using step_new [of "''A''" "\<lparr>replicas = [], mail = []\<rparr> :: string net"]
    by (simp add: fresh_actor_def net_states_def)
  then have "net_reachable ?n" by (simp add: net_reachable_def)
  then have "let (d, t) = orset_add (orset_default ''A'') ''x''; s' = orset_remove (orset_default ''A'') ''x''
    in \<not> seen (map_of (vv (orset_default ''A'' :: string orset))) d \<and>
       orset_contains (orset_merge s' t) ''x'' \<and> orset_contains (orset_merge t s') ''x''"
    by (rule orset_add_wins) (simp_all add: net_states_def)
  then show ?thesis by (simp add: Let_def case_prod_unfold)
qed

end
