(* ===== verification/Crdt_Rga.thy ===== *)
theory Crdt_Rga
  imports Crdt_Core "HOL-Library.Product_Lexorder"
begin

text \<open>
  The replicated growable array, \<open>Rga\<close> (\<^verbatim>\<open>crates/uni-crdt/src/rga.rs\<close>).

  \<open>to_vec\<close> walks the tree of nodes with an explicit stack. The walk is a partial function: where
  node ids and map keys disagree it need not end. On well-formed arrays it is shown to end and to
  list the tree in preorder, siblings by descending timestamp and id. Merging is a join on arrays
  whose nodes agree with one assignment of content to ids, which is what UUIDs are for.
\<close>

record 'e rga_node =
  rn_id :: uuid
  rn_elem :: 'e
  rn_origin_left :: "uuid option"
  rn_tombstone :: bool
  rn_timestamp :: int

record 'e rga =
  rga_nodes :: "(uuid, 'e rga_node) hmap"

definition rga_new :: "'e rga" where
  "rga_new = \<lparr>rga_nodes = []\<rparr>"

definition rga_insert :: "'e rga \<Rightarrow> uuid \<Rightarrow> uuid option \<Rightarrow> 'e \<Rightarrow> int \<Rightarrow> uuid \<times> 'e rga" where
  "rga_insert r new_id prev_id x ts =
     (let node = \<lparr>rn_id = new_id, rn_elem = x, rn_origin_left = prev_id, rn_tombstone = False,
                  rn_timestamp = ts\<rparr>
      in (new_id, r\<lparr>rga_nodes := hput new_id node (rga_nodes r)\<rparr>))"

definition rga_delete :: "'e rga \<Rightarrow> uuid \<Rightarrow> 'e rga" where
  "rga_delete r i =
     (case hget (rga_nodes r) i of
        None \<Rightarrow> r
      | Some node \<Rightarrow> r\<lparr>rga_nodes := hput i (node\<lparr>rn_tombstone := True\<rparr>) (rga_nodes r)\<rparr>)"

definition rga_children :: "'e rga \<Rightarrow> (uuid option, 'e rga_node list) hmap" where
  "rga_children r =
     fold (\<lambda>node ch. hput (rn_origin_left node) (hget_or [] ch (rn_origin_left node) @ [node]) ch)
       (map snd (rga_nodes r)) []"

text \<open>Descending timestamp, then descending id.\<close>

definition rga_sort_key :: "'e rga_node \<Rightarrow> int \<times> int" where
  "rga_sort_key n = (- rn_timestamp n, - uint (rn_id n))"

definition rga_sorted_children :: "'e rga \<Rightarrow> (uuid option, 'e rga_node list) hmap" where
  "rga_sorted_children r = map (\<lambda>(p, ns). (p, sort_key rga_sort_key ns)) (rga_children r)"

partial_function (option) rga_walk ::
  "(uuid option, 'e rga_node list) hmap \<Rightarrow> (uuid option \<times> nat) list \<Rightarrow> 'e list \<Rightarrow> 'e list option" where
  "rga_walk ch stack result =
     (case stack of
        [] \<Rightarrow> Some result
      | (current, idx) # stack' \<Rightarrow>
          (case hget ch current of
             None \<Rightarrow> rga_walk ch stack' result
           | Some ns \<Rightarrow>
               if idx < length ns then
                 let child = ns ! idx;
                     result' = (if rn_tombstone child then result else result @ [rn_elem child])
                 in rga_walk ch ((Some (rn_id child), 0) # (current, idx + 1) # stack') result'
               else rga_walk ch stack' result))"

definition rga_to_vec :: "'e rga \<Rightarrow> 'e list option" where
  "rga_to_vec r = rga_walk (rga_sorted_children r) [(None, 0)] []"

definition rga_len :: "'e rga \<Rightarrow> nat" where
  "rga_len r = length (filter (\<lambda>n. \<not> rn_tombstone n) (map snd (rga_nodes r)))"

definition rga_is_empty :: "'e rga \<Rightarrow> bool" where
  "rga_is_empty r \<longleftrightarrow> rga_len r = 0"

definition rga_merge :: "'e rga \<Rightarrow> 'e rga \<Rightarrow> 'e rga" where
  "rga_merge r other =
     r\<lparr>rga_nodes := hmap_fold
         (\<lambda>mine theirs. case mine of
            Some node \<Rightarrow> if rn_tombstone theirs then node\<lparr>rn_tombstone := True\<rparr> else node
          | None \<Rightarrow> theirs)
         (rga_nodes other) (rga_nodes r)\<rparr>"

subsection \<open>Well-formed arrays\<close>

definition rga_ok :: "'e rga \<Rightarrow> bool" where
  "rga_ok r \<longleftrightarrow> hmap_ok (rga_nodes r) \<and> (\<forall>(i, n)\<in>set (rga_nodes r). rn_id n = i)"

definition siblings :: "'e rga \<Rightarrow> uuid option \<Rightarrow> 'e rga_node list" where
  "siblings r p = sort_key rga_sort_key (filter (\<lambda>n. rn_origin_left n = p) (map snd (rga_nodes r)))"

text \<open>The reference reading: the tree in preorder, to a given depth.\<close>

fun preorder :: "nat \<Rightarrow> 'e rga \<Rightarrow> uuid option \<Rightarrow> 'e list" where
  "preorder 0 r p = []"
| "preorder (Suc d) r p =
     concat (map (\<lambda>n. (if rn_tombstone n then [] else [rn_elem n]) @ preorder d r (Some (rn_id n)))
       (siblings r p))"

lemma hget_rga_children_fold:
  "hget_or [] (fold (\<lambda>n ch. hput (rn_origin_left n) (hget_or [] ch (rn_origin_left n) @ [n]) ch) ns ch) p =
     hget_or [] ch p @ filter (\<lambda>n. rn_origin_left n = p) ns"
  by (induction ns arbitrary: ch) auto

lemma hget_map_values: "hget (map (\<lambda>(q, v). (q, f v)) m) p = map_option f (hget m p)"
  by (induction m) auto

lemma hget_sorted_children: "hget_or [] (rga_sorted_children r) p = siblings r p"
proof -
  have "hget_or [] (rga_sorted_children r) p = sort_key rga_sort_key (hget_or [] (rga_children r) p)"
    by (simp add: rga_sorted_children_def hget_or_def hget_map_values split: option.split)
  then show ?thesis
    by (simp add: rga_children_def hget_rga_children_fold siblings_def)
qed

lemma rga_walk_Nil [simp]: "rga_walk ch [] out = Some out"
  by (subst rga_walk.simps) simp

lemma rga_walk_step:
  "rga_walk (rga_sorted_children r) ((p, i) # stk) out =
     (if i < length (siblings r p) then
        let c = siblings r p ! i
        in rga_walk (rga_sorted_children r) ((Some (rn_id c), 0) # (p, i + 1) # stk)
             (out @ (if rn_tombstone c then [] else [rn_elem c]))
      else rga_walk (rga_sorted_children r) stk out)"
  using hget_sorted_children [of r p]
  by (subst rga_walk.simps) (auto simp: hget_or_def Let_def split: option.splits)

subsection \<open>Paths from the root\<close>

inductive rga_path :: "'e rga \<Rightarrow> uuid list \<Rightarrow> uuid option \<Rightarrow> bool" for r where
  root: "rga_path r [] None"
| down: "\<lbrakk>rga_path r is p; hget (rga_nodes r) i = Some n; rn_origin_left n = p\<rbrakk> \<Longrightarrow>
    rga_path r (i # is) (Some i)"

inductive_cases rga_path_NoneE: "rga_path r is None"
inductive_cases rga_path_SomeE: "rga_path r is (Some i)"
inductive_cases rga_path_ConsE: "rga_path r (i # is) p"

lemma rga_path_unique: "rga_path r is p \<Longrightarrow> rga_path r js p \<Longrightarrow> is = js"
proof (induction arbitrary: js rule: rga_path.induct)
  case root
  from root show ?case by (rule rga_path_NoneE) simp
next
  case (down "is" p i n)
  from down.prems obtain ks where "js = i # ks" "rga_path r ks p"
    by (rule rga_path_SomeE) (use down.hyps in simp)
  with down.IH show ?case by simp
qed

lemma rga_path_suffix: "rga_path r (is @ i # js) p \<Longrightarrow> rga_path r (i # js) (Some i)"
proof (induction "is" arbitrary: p)
  case Nil
  then have "rga_path r (i # js) p" by simp
  then show ?case by (rule rga_path_ConsE) (metis rga_path.down)
next
  case (Cons j "is")
  then have "rga_path r (j # is @ i # js) p" by simp
  then show ?case by (rule rga_path_ConsE) (rule Cons.IH)
qed

lemma rga_path_distinct: "rga_path r is p \<Longrightarrow> distinct is"
proof (induction rule: rga_path.induct)
  case (down "is" p i n)
  have "i \<notin> set is"
  proof
    assume "i \<in> set is"
    then obtain js ks where js: "is = js @ i # ks" by (meson split_list)
    then have "rga_path r (i # ks) (Some i)" using down.hyps(1) rga_path_suffix by blast
    moreover have "rga_path r (i # is) (Some i)" using down.hyps by (rule rga_path.down)
    ultimately have "i # ks = i # is" by (rule rga_path_unique)
    then have "length ks = length is" by simp
    then show False using js by simp
  qed
  with down show ?case by simp
qed simp

lemma rga_path_keys: "rga_path r is p \<Longrightarrow> set is \<subseteq> dom (map_of (rga_nodes r))"
  by (induction rule: rga_path.induct) auto

lemma rga_path_length:
  assumes "rga_path r is p"
  shows "length is \<le> length (rga_nodes r)"
proof -
  have "length is = card (set is)" using assms by (simp add: rga_path_distinct distinct_card)
  also have "\<dots> \<le> card (dom (map_of (rga_nodes r)))"
    using assms by (intro card_mono rga_path_keys) (auto simp: finite_dom_map_of)
  also have "\<dots> \<le> length (rga_nodes r)"
    by (metis card_length dom_map_of_conv_image_fst length_map list.set_map)
  finally show ?thesis .
qed

subsection \<open>The walk is the preorder\<close>

lemma siblings_node:
  "rga_ok r \<Longrightarrow> n \<in> set (siblings r p) \<Longrightarrow> hget (rga_nodes r) (rn_id n) = Some n \<and> rn_origin_left n = p"
  by (auto simp: siblings_def rga_ok_def hmap_entries)

lemma rga_walk_siblings:
  assumes "\<And>n stk out. n \<in> set (siblings r p) \<Longrightarrow>
    rga_walk (rga_sorted_children r) ((Some (rn_id n), 0) # stk) out =
    rga_walk (rga_sorted_children r) stk (out @ preorder d r (Some (rn_id n)))"
  shows "rga_walk (rga_sorted_children r) ((p, i) # stk) out =
    rga_walk (rga_sorted_children r) stk (out @ concat (map (\<lambda>n.
      (if rn_tombstone n then [] else [rn_elem n]) @ preorder d r (Some (rn_id n))) (drop i (siblings r p))))"
proof (induction "length (siblings r p) - i" arbitrary: i out)
  case 0
  then show ?case by (simp add: rga_walk_step)
next
  case (Suc k)
  then have i: "i < length (siblings r p)" and k: "k = length (siblings r p) - (i + 1)" by simp_all
  show ?case
    using i Suc.hyps(1) [OF k]
    by (simp add: rga_walk_step [of r p i] Let_def assms Cons_nth_drop_Suc [symmetric])
qed

lemma rga_walk_preorder:
  assumes "rga_ok r" and "rga_path r is p" and "length (rga_nodes r) < length is + d"
  shows "rga_walk (rga_sorted_children r) ((p, 0) # stk) out =
    rga_walk (rga_sorted_children r) stk (out @ preorder d r p)"
  using assms(2,3)
proof (induction d arbitrary: "is" p stk out)
  case 0
  then show ?case using rga_path_length [OF 0(1)] by simp
next
  case (Suc d)
  have "rga_walk (rga_sorted_children r) ((Some (rn_id n), 0) # stk') out' =
      rga_walk (rga_sorted_children r) stk' (out' @ preorder d r (Some (rn_id n)))"
    if "n \<in> set (siblings r p)" for n stk' out'
  proof (rule Suc.IH)
    show "rga_path r (rn_id n # is) (Some (rn_id n))"
      using Suc.prems(1) siblings_node [OF assms(1) that] by (auto intro: rga_path.down)
    show "length (rga_nodes r) < length (rn_id n # is) + d" using Suc.prems(2) by simp
  qed
  from rga_walk_siblings [where i = 0, OF this] show ?case by simp
qed

lemma rga_to_vec_preorder:
  assumes "rga_ok r"
  shows "rga_to_vec r = Some (preorder (length (rga_nodes r) + 1) r None)"
proof -
  have "rga_path r [] None" by (rule rga_path.root)
  from rga_walk_preorder [OF assms this, of "length (rga_nodes r) + 1" "[]" "[]"]
  show ?thesis unfolding rga_to_vec_def by simp
qed

lemma rga_ok_iff: "rga_ok r \<longleftrightarrow> hmap_ok (rga_nodes r) \<and> (\<forall>i n. hget (rga_nodes r) i = Some n \<longrightarrow> rn_id n = i)"
  unfolding rga_ok_def using hmap_ball [of "rga_nodes r" "\<lambda>i n. rn_id n = i"] by blast

lemma rga_ok_new: "rga_ok rga_new"
  by (simp add: rga_ok_iff rga_new_def)

lemma rga_ok_insert: "rga_ok r \<Longrightarrow> rga_ok (snd (rga_insert r i p x ts))"
  by (auto simp: rga_ok_iff rga_insert_def Let_def)

lemma rga_ok_delete: "rga_ok r \<Longrightarrow> rga_ok (rga_delete r i)"
  by (auto simp: rga_ok_iff rga_delete_def split: option.split)

definition node_join :: "'e rga_node \<Rightarrow> 'e rga_node \<Rightarrow> 'e rga_node" where
  "node_join n m = (if rn_tombstone m then n\<lparr>rn_tombstone := True\<rparr> else n)"

lemma rga_merge_nodes:
  "hmap_ok (rga_nodes q) \<Longrightarrow>
   map_of (rga_nodes (rga_merge r q)) = map_join node_join (map_of (rga_nodes r)) (map_of (rga_nodes q))"
  by (simp add: rga_merge_def map_join_fold [where c = node_join] node_join_def)

lemma rga_ok_merge: "rga_ok r \<Longrightarrow> rga_ok q \<Longrightarrow> rga_ok (rga_merge r q)"
  unfolding rga_ok_iff
  by (auto simp: rga_merge_nodes map_join_def node_join_def split: option.splits)
    (auto simp: rga_merge_def)

text \<open>
  C27 (\<open>rga_to_vec_total\<close>). On every well-formed array, \<open>to_vec\<close> returns: the stack loop ends, and
  lists the tree in preorder, siblings by descending timestamp and then descending id, without
  the tombstoned elements. Every operation keeps arrays well-formed.
\<close>

theorem rga_to_vec_total:
  assumes "rga_ok r" and "rga_ok q"
  shows "rga_to_vec r = Some (preorder (length (rga_nodes r) + 1) r None) \<and>
    rga_ok (snd (rga_insert r i p x ts)) \<and> rga_ok (rga_delete r i) \<and> rga_ok (rga_merge r q)"
  using assms by (simp only: rga_to_vec_preorder rga_ok_insert rga_ok_delete rga_ok_merge simp_thms)

theorem rga_to_vec_total_witness:
  "rga_to_vec (snd (rga_insert (snd (rga_insert rga_new 1 None CHR ''b'' 1)) 2 None CHR ''a'' 2)) = Some ''ab''"
proof -
  let ?r = "snd (rga_insert (snd (rga_insert rga_new 1 None CHR ''b'' 1)) 2 None CHR ''a'' 2)"
  have "rga_ok ?r" by (intro rga_ok_insert rga_ok_new)
  from rga_to_vec_total [OF this this, THEN conjunct1] show ?thesis
    by (simp add: rga_insert_def rga_new_def siblings_def rga_sort_key_def numeral_eq_Suc)
qed

subsection \<open>Convergence\<close>

text \<open>Ids name content: \<open>birth\<close> says what was inserted under an id, where and when.\<close>

definition rga_born :: "(uuid \<Rightarrow> 'e \<times> uuid option \<times> int) \<Rightarrow> 'e rga \<Rightarrow> bool" where
  "rga_born birth r \<longleftrightarrow> rga_ok r \<and>
     (\<forall>(i, n)\<in>set (rga_nodes r). birth i = (rn_elem n, rn_origin_left n, rn_timestamp n))"

lemma rga_born_iff:
  "rga_born birth r \<longleftrightarrow> hmap_ok (rga_nodes r) \<and>
     (\<forall>i n. hget (rga_nodes r) i = Some n \<longrightarrow>
        rn_id n = i \<and> birth i = (rn_elem n, rn_origin_left n, rn_timestamp n))"
  using hmap_ball [of "rga_nodes r" "\<lambda>i n. birth i = (rn_elem n, rn_origin_left n, rn_timestamp n)"]
  unfolding rga_born_def rga_ok_iff by blast

lemma rga_born_merge: "rga_born birth r \<Longrightarrow> rga_born birth q \<Longrightarrow> rga_born birth (rga_merge r q)"
  unfolding rga_born_iff
  by (auto simp: rga_merge_nodes map_join_def node_join_def split: option.splits)
    (auto simp: rga_merge_def)

lemma node_join_commute:
  assumes "rga_born birth r" "rga_born birth q"
  shows "map_join node_join (map_of (rga_nodes r)) (map_of (rga_nodes q)) =
    map_join node_join (map_of (rga_nodes q)) (map_of (rga_nodes r))"
proof
  fix i
  have "node_join n m = node_join m n"
    if "hget (rga_nodes r) i = Some n" "hget (rga_nodes q) i = Some m" for n m
  proof -
    have n: "rn_id n = i" "birth i = (rn_elem n, rn_origin_left n, rn_timestamp n)"
      and m: "rn_id m = i" "birth i = (rn_elem m, rn_origin_left m, rn_timestamp m)"
      using assms [unfolded rga_born_iff] that by blast+
    then have "rn_elem n = rn_elem m" "rn_origin_left n = rn_origin_left m" "rn_timestamp n = rn_timestamp m"
      by simp_all
    then show ?thesis
      using n(1) m(1) by (intro rga_node.equality) (simp_all add: node_join_def)
  qed
  then show "map_join node_join (map_of (rga_nodes r)) (map_of (rga_nodes q)) i =
    map_join node_join (map_of (rga_nodes q)) (map_of (rga_nodes r)) i"
    by (cases "hget (rga_nodes r) i"; cases "hget (rga_nodes q) i") (auto simp: map_join_def)
qed

interpretation rg: state_crdt "rga_born birth" "\<lambda>r. map_of (rga_nodes r)" rga_merge
  "map_join node_join" for birth
proof
  fix a b c :: "'a rga"
  show "rga_born birth a \<Longrightarrow> rga_born birth b \<Longrightarrow> rga_born birth (rga_merge a b)" for birth
    by (rule rga_born_merge)
  show "rga_born birth a \<Longrightarrow> rga_born birth b \<Longrightarrow>
    map_of (rga_nodes (rga_merge a b)) = map_join node_join (map_of (rga_nodes a)) (map_of (rga_nodes b))"
    for birth
    by (simp add: rga_merge_nodes rga_born_iff)
  show "rga_born birth a \<Longrightarrow> rga_born birth b \<Longrightarrow>
    map_join node_join (map_of (rga_nodes a)) (map_of (rga_nodes b)) =
    map_join node_join (map_of (rga_nodes b)) (map_of (rga_nodes a))" for birth
    by (rule node_join_commute)
qed (auto simp: node_join_def intro!: map_join_assoc map_join_idem)

lemma siblings_cong:
  assumes r: "rga_ok r" and q: "rga_ok q" and same: "map_of (rga_nodes r) = map_of (rga_nodes q)"
  shows "siblings r p = siblings q p"
proof -
  let ?ns = "\<lambda>r. filter (\<lambda>n. rn_origin_left n = p) (map snd (rga_nodes r))"
  have nodes: "set (rga_nodes r) = set (rga_nodes q)"
    using r q same by (auto simp: rga_ok_iff hmap_entries)
  have dist: "distinct (map snd (rga_nodes u))" if "rga_ok u" for u :: "'a rga"
  proof -
    have "rn_id (snd e) = fst e" if "e \<in> set (rga_nodes u)" for e
      using \<open>rga_ok u\<close> that by (auto simp: rga_ok_def)
    then have "inj_on snd (set (rga_nodes u))" by (intro inj_onI) (metis prod_eqI)
    then show ?thesis using \<open>rga_ok u\<close> by (simp add: rga_ok_def hmap_ok_def distinct_map)
  qed
  have "mset (?ns r) = mset (?ns q)"
    using dist [OF r] dist [OF q] nodes
    by (intro set_eq_iff_mset_eq_distinct [THEN iffD1] distinct_filter) simp_all
  moreover have "inj_on rga_sort_key (set (?ns r))"
    using r by (auto simp: inj_on_def rga_sort_key_def rga_ok_iff hmap_entries word_uint_eq_iff [symmetric])
  ultimately show ?thesis
    unfolding siblings_def
    by (intro sort_key_inj_key_eq) simp_all
qed

lemma preorder_cong:
  "(\<And>p. siblings r p = siblings q p) \<Longrightarrow> preorder d r p = preorder d q p"
  by (induction d arbitrary: p) simp_all

text \<open>
  Replicas of an \<open>Rga\<close> that have merged the same arrays read the same
  sequence, provided every id stands for one insertion.
\<close>

lemma rga_convergence:
  assumes born: "\<forall>x\<in>insert r (set xs). rga_born birth x" and same: "insert r (set xs) = insert q (set ys)"
  shows "hmap_eq (rga_nodes (deliver_all rga_merge xs r)) (rga_nodes (deliver_all rga_merge ys q)) \<and>
    rga_to_vec (deliver_all rga_merge xs r) = rga_to_vec (deliver_all rga_merge ys q)"
proof -
  let ?r = "deliver_all rga_merge xs r" and ?q = "deliver_all rga_merge ys q"
  have born': "\<forall>x\<in>insert q (set ys). rga_born birth x" using born same by simp
  have "rga_born birth ?r" "rga_born birth ?q"
    using born born' by (simp_all add: rg.inv_deliver)
  then have ok: "rga_ok ?r" "rga_ok ?q" by (simp_all add: rga_born_def)
  have nodes: "map_of (rga_nodes ?r) = map_of (rga_nodes ?q)"
    by (rule rg.convergence [OF _ _ _ _ same]) (use born born' in auto)
  then have "length (rga_nodes ?r) = length (rga_nodes ?q)"
    using ok by (simp add: rga_ok_def hmap_keys_card)
  then have "rga_to_vec ?r = rga_to_vec ?q"
    using ok preorder_cong [OF siblings_cong [OF ok nodes]] by (simp only: rga_to_vec_preorder)
  then show ?thesis using ok nodes by (simp add: hmap_eq_iff rga_ok_def)
qed

end
