(* ===== verification/Crdt_Enum.thy ===== *)
theory Crdt_Enum
  imports Vector_Clock Crdt_ORSet Crdt_Rga
begin

text \<open>
  The dynamic wrapper \<open>Crdt\<close> (\<^verbatim>\<open>crates/uni-crdt/src/lib.rs\<close>) that the storage layer merges, and its
  dispatch through the plugin registry (\<^verbatim>\<open>registry_dispatch.rs\<close>).

  The JSON values of the two register types are a type variable. The MessagePack codec and the
  registry's providers are parameters. \<open>crdt_same\<close> is equality up to what no reader can see.
\<close>

datatype 'j crdt =
    GCounter gcounter
  | GSet "string gset"
  | ORSet "string orset"
  | LWWRegister "'j lww_register"
  | LWWMap "(string, 'j) lww_map"
  | Rga "string rga"
  | VectorClock vclock
  | VCRegister "'j vc_register"

datatype crdt_error = TypeMismatch string string | Serialization string

fun type_name :: "'j crdt \<Rightarrow> string" where
  "type_name (GCounter _) = ''GCounter''"
| "type_name (GSet _) = ''GSet''"
| "type_name (ORSet _) = ''ORSet''"
| "type_name (LWWRegister _) = ''LWWRegister''"
| "type_name (LWWMap _) = ''LWWMap''"
| "type_name (Rga _) = ''Rga''"
| "type_name (VectorClock _) = ''VectorClock''"
| "type_name (VCRegister _) = ''VCRegister''"

fun crdt_kind :: "'j crdt \<Rightarrow> string" where
  "crdt_kind (GCounter _) = ''uni-crdt:g-counter''"
| "crdt_kind (GSet _) = ''uni-crdt:g-set''"
| "crdt_kind (ORSet _) = ''uni-crdt:or-set''"
| "crdt_kind (LWWRegister _) = ''uni-crdt:lww-register''"
| "crdt_kind (LWWMap _) = ''uni-crdt:lww-map''"
| "crdt_kind (Rga _) = ''uni-crdt:rga''"
| "crdt_kind (VectorClock _) = ''uni-crdt:vector-clock''"
| "crdt_kind (VCRegister _) = ''uni-crdt:vc-register''"

definition try_merge :: "'j serializer \<Rightarrow> 'j crdt \<Rightarrow> 'j crdt \<Rightarrow> crdt_error + 'j crdt" where
  "try_merge ser self other =
     (let mismatch = Inl (TypeMismatch (type_name self) (type_name other)) in
      case self of
        GCounter a \<Rightarrow> (case other of GCounter b \<Rightarrow> Inr (GCounter (gcounter_merge a b)) | _ \<Rightarrow> mismatch)
      | GSet a \<Rightarrow> (case other of GSet b \<Rightarrow> Inr (GSet (gset_merge a b)) | _ \<Rightarrow> mismatch)
      | ORSet a \<Rightarrow> (case other of ORSet b \<Rightarrow> Inr (ORSet (orset_merge a b)) | _ \<Rightarrow> mismatch)
      | LWWRegister a \<Rightarrow> (case other of LWWRegister b \<Rightarrow> Inr (LWWRegister (lww_merge ser a b)) | _ \<Rightarrow> mismatch)
      | LWWMap a \<Rightarrow> (case other of LWWMap b \<Rightarrow> Inr (LWWMap (lww_map_merge ser a b)) | _ \<Rightarrow> mismatch)
      | Rga a \<Rightarrow> (case other of Rga b \<Rightarrow> Inr (Rga (rga_merge a b)) | _ \<Rightarrow> mismatch)
      | VectorClock a \<Rightarrow> (case other of VectorClock b \<Rightarrow> Inr (VectorClock (merge_clock a b)) | _ \<Rightarrow> mismatch)
      | VCRegister a \<Rightarrow> (case other of VCRegister b \<Rightarrow> Inr (VCRegister (vcr_merge ser a b)) | _ \<Rightarrow> mismatch))"

text \<open>
  A provider restores two states from bytes, merges them and persists the result; each step may
  fail with a message. \<open>'p\<close> is its private state.
\<close>

record 'p crdt_provider =
  from_persisted :: "u8 list \<Rightarrow> string + 'p"
  provider_merge :: "'p \<Rightarrow> 'p \<Rightarrow> string + 'p"
  persist :: "'p \<Rightarrow> string + u8 list"

record ('j, 'p) crdt_env =
  to_msgpack :: "'j crdt \<Rightarrow> crdt_error + u8 list"
  from_msgpack :: "u8 list \<Rightarrow> crdt_error + 'j crdt"
  registry :: "string \<Rightarrow> 'p crdt_provider option"
  json_ser :: "'j serializer"

definition ensure_same_kind :: "'j crdt \<Rightarrow> 'j crdt \<Rightarrow> crdt_error + unit" where
  "ensure_same_kind a b =
     (if type_name a = type_name b then Inr () else Inl (TypeMismatch (type_name a) (type_name b)))"

definition bind_sum :: "'e + 'a \<Rightarrow> ('a \<Rightarrow> 'e + 'b) \<Rightarrow> 'e + 'b" where
  "bind_sum x f = (case x of Inl e \<Rightarrow> Inl e | Inr v \<Rightarrow> f v)"

definition map_err :: "('e \<Rightarrow> 'f) \<Rightarrow> 'e + 'a \<Rightarrow> 'f + 'a" where
  "map_err f x = (case x of Inl e \<Rightarrow> Inl (f e) | Inr v \<Rightarrow> Inr v)"

definition merge_via_registry :: "('j, 'p) crdt_env \<Rightarrow> 'j crdt \<Rightarrow> 'j crdt \<Rightarrow> crdt_error + 'j crdt" where
  "merge_via_registry env a b =
     bind_sum (ensure_same_kind a b) (\<lambda>_.
       case registry env (crdt_kind a) of
         None \<Rightarrow> try_merge (json_ser env) a b
       | Some p \<Rightarrow>
           bind_sum (to_msgpack env a) (\<lambda>self_bytes.
           bind_sum (to_msgpack env b) (\<lambda>other_bytes.
           bind_sum (map_err Serialization (from_persisted p self_bytes)) (\<lambda>lhs.
           bind_sum (map_err Serialization (from_persisted p other_bytes)) (\<lambda>rhs.
           bind_sum (map_err Serialization (provider_merge p lhs rhs)) (\<lambda>lhs'.
           bind_sum (map_err Serialization (persist p lhs')) (\<lambda>merged.
             from_msgpack env merged)))))))"

subsection \<open>Merging by type\<close>

lemma type_name_eq_kind: "type_name a = type_name b \<longleftrightarrow> crdt_kind a = crdt_kind b"
  by (cases a; cases b) simp_all

lemma try_merge_result:
  "(type_name a = type_name b \<and> (\<exists>c. try_merge ser a b = Inr c \<and> type_name c = type_name a)) \<or>
   (type_name a \<noteq> type_name b \<and> try_merge ser a b = Inl (TypeMismatch (type_name a) (type_name b)))"
  by (cases a; cases b) (simp_all add: try_merge_def Let_def)

lemma merge_via_registry_mismatch:
  "type_name a \<noteq> type_name b \<Longrightarrow>
   merge_via_registry env a b = Inl (TypeMismatch (type_name a) (type_name b))"
  by (simp add: merge_via_registry_def ensure_same_kind_def bind_sum_def)

lemma merge_via_registry_native:
  "registry env (crdt_kind a) = None \<Longrightarrow> merge_via_registry env a b = try_merge (json_ser env) a b"
  using try_merge_result [of a b "json_ser env"]
  by (auto simp: merge_via_registry_def ensure_same_kind_def bind_sum_def)

subsection \<open>Convergence of the wrapper\<close>

fun crdt_ok :: "(uuid \<Rightarrow> string \<times> uuid option \<times> int) \<Rightarrow> 'j serializer \<Rightarrow> 'j crdt \<Rightarrow> bool" where
  "crdt_ok birth ser (GCounter a) = gcounter_ok a"
| "crdt_ok birth ser (GSet a) = True"
| "crdt_ok birth ser (ORSet a) = orset_ok a"
| "crdt_ok birth ser (LWWRegister a) = True"
| "crdt_ok birth ser (LWWMap a) = (lww_map_ok a \<and> lww_map_no_null ser a)"
| "crdt_ok birth ser (Rga a) = rga_born birth a"
| "crdt_ok birth ser (VectorClock a) = vclock_ok a"
| "crdt_ok birth ser (VCRegister a) = False"

definition crdt_same :: "'j crdt \<Rightarrow> 'j crdt \<Rightarrow> bool" where
  "crdt_same self other =
     (case self of
        GCounter a \<Rightarrow> (case other of GCounter b \<Rightarrow> hmap_eq (counts a) (counts b) | _ \<Rightarrow> False)
      | GSet a \<Rightarrow> (case other of GSet b \<Rightarrow> a = b | _ \<Rightarrow> False)
      | ORSet a \<Rightarrow> (case other of ORSet b \<Rightarrow> orset_eq a b | _ \<Rightarrow> False)
      | LWWRegister a \<Rightarrow> (case other of LWWRegister b \<Rightarrow> a = b | _ \<Rightarrow> False)
      | LWWMap a \<Rightarrow> (case other of LWWMap b \<Rightarrow> \<forall>k. lww_map_get a k = lww_map_get b k | _ \<Rightarrow> False)
      | Rga a \<Rightarrow> (case other of Rga b \<Rightarrow> hmap_eq (rga_nodes a) (rga_nodes b) \<and> rga_to_vec a = rga_to_vec b | _ \<Rightarrow> False)
      | VectorClock a \<Rightarrow> (case other of VectorClock b \<Rightarrow> vclock_eq a b | _ \<Rightarrow> False)
      | VCRegister a \<Rightarrow> False)"

fun merge_all :: "'j serializer \<Rightarrow> 'j crdt list \<Rightarrow> 'j crdt \<Rightarrow> crdt_error + 'j crdt" where
  "merge_all ser [] c = Inr c"
| "merge_all ser (d # ds) c = bind_sum (try_merge ser c d) (merge_all ser ds)"

lemma merge_all_lift:
  assumes "\<And>a b. try_merge ser (C a) (C b) = Inr (C (m a b))"
  shows "merge_all ser (map C xs) (C a) = Inr (C (deliver_all m xs a))"
  by (induction xs arbitrary: a) (simp_all add: assms bind_sum_def)

lemma same_type_map:
  "(\<And>c. type_name c = n \<Longrightarrow> \<exists>x. c = C x) \<Longrightarrow> \<forall>c\<in>set cs. type_name c = n \<Longrightarrow> \<exists>xs. cs = map C xs"
  by (simp add: ex_map_conv)

lemma crdt_converge_at:
  fixes C :: "'s \<Rightarrow> 'j crdt"
  assumes merge: "\<And>a b. try_merge ser (C a) (C b) = Inr (C (m a b))"
    and name: "\<And>c. type_name c = n \<Longrightarrow> \<exists>x. c = C x"
    and same: "\<And>s t xs ys. \<lbrakk>\<forall>x\<in>insert s (set xs). P x; insert s (set xs) = insert t (set ys)\<rbrakk> \<Longrightarrow>
      crdt_same (C (deliver_all m xs s)) (C (deliver_all m ys t))"
    and P: "\<And>x. crdt_ok birth ser (C x) \<Longrightarrow> P x" and inj: "inj C"
    and ok: "\<forall>x\<in>insert c (set cs). crdt_ok birth ser x \<and> type_name x = n"
    and seen: "insert c (set cs) = insert d (set ds)"
  shows "\<exists>x y. merge_all ser cs c = Inr x \<and> merge_all ser ds d = Inr y \<and> crdt_same x y"
proof -
  have all: "\<forall>x\<in>insert d (set ds). type_name x = n" using ok seen by simp
  obtain s t where s: "c = C s" and t: "d = C t" using ok all name by blast
  obtain xs where xs: "cs = map C xs" using same_type_map [OF name] ok by blast
  obtain ys where ys: "ds = map C ys" using same_type_map [OF name] all by blast
  have "C ` insert s (set xs) = C ` insert t (set ys)" using seen xs ys s t by simp
  then have "insert s (set xs) = insert t (set ys)" using inj by (simp only: inj_image_eq_iff)
  moreover have "\<forall>x\<in>insert s (set xs). P x" using ok xs s P by auto
  ultimately have "crdt_same (C (deliver_all m xs s)) (C (deliver_all m ys t))" by (intro same)
  then show ?thesis
    unfolding xs ys s t merge_all_lift [of ser C m, OF merge] by blast
qed

lemma gcounter_convergence:
  assumes ok: "\<forall>x\<in>insert s (set xs). gcounter_ok x" and same: "insert s (set xs) = insert t (set ys)"
  shows "hmap_eq (counts (deliver_all gcounter_merge xs s)) (counts (deliver_all gcounter_merge ys t))"
proof -
  have ok': "\<forall>x\<in>insert t (set ys). gcounter_ok x" using ok same by simp
  then have "gcounter_ok (deliver_all gcounter_merge xs s)" "gcounter_ok (deliver_all gcounter_merge ys t)"
    using ok by (simp_all add: gc.inv_deliver)
  moreover have "map_of (counts (deliver_all gcounter_merge xs s)) = map_of (counts (deliver_all gcounter_merge ys t))"
    by (rule gc.convergence [OF _ _ _ _ same]) (use ok ok' in auto)
  ultimately show ?thesis by (simp add: gcounter_ok_def hmap_eq_iff)
qed

lemma vclock_convergence:
  assumes ok: "\<forall>x\<in>insert s (set xs). vclock_ok x" and same: "insert s (set xs) = insert t (set ys)"
  shows "vclock_eq (deliver_all merge_clock xs s) (deliver_all merge_clock ys t)"
proof -
  have ok': "\<forall>x\<in>insert t (set ys). vclock_ok x" using ok same by simp
  then have "vclock_ok (deliver_all merge_clock xs s)" "vclock_ok (deliver_all merge_clock ys t)"
    using ok by (simp_all add: vc.inv_deliver)
  moreover have "map_of (clocks (deliver_all merge_clock xs s)) = map_of (clocks (deliver_all merge_clock ys t))"
    by (rule vc.convergence [OF _ _ _ _ same]) (use ok ok' in auto)
  ultimately show ?thesis by (simp add: vclock_ok_def vclock_eq_def hmap_eq_iff)
qed

lemma gset_convergence:
  "insert s (set xs) = insert t (set ys) \<Longrightarrow> deliver_all gset_merge xs s = deliver_all gset_merge ys t"
  by (rule gset.equality, rule gs.convergence) simp_all

lemma try_merge_simps:
  "try_merge ser (GCounter a1) (GCounter b1) = Inr (GCounter (gcounter_merge a1 b1))"
  "try_merge ser (GSet a2) (GSet b2) = Inr (GSet (gset_merge a2 b2))"
  "try_merge ser (ORSet a3) (ORSet b3) = Inr (ORSet (orset_merge a3 b3))"
  "try_merge ser (LWWRegister a4) (LWWRegister b4) = Inr (LWWRegister (lww_merge ser a4 b4))"
  "try_merge ser (LWWMap a5) (LWWMap b5) = Inr (LWWMap (lww_map_merge ser a5 b5))"
  "try_merge ser (Rga a6) (Rga b6) = Inr (Rga (rga_merge a6 b6))"
  "try_merge ser (VectorClock a7) (VectorClock b7) = Inr (VectorClock (merge_clock a7 b7))"
  by (simp_all add: try_merge_def)

lemma crdt_same_simps:
  "crdt_same (GCounter a8) (GCounter b8) = hmap_eq (counts a8) (counts b8)"
  "crdt_same (GSet a9) (GSet b9) = (a9 = b9)"
  "crdt_same (ORSet a10) (ORSet b10) = orset_eq a10 b10"
  "crdt_same (LWWRegister a11) (LWWRegister b11) = (a11 = b11)"
  "crdt_same (LWWMap a12) (LWWMap b12) = (\<forall>k. lww_map_get a12 k = lww_map_get b12 k)"
  "crdt_same (Rga a13) (Rga b13) = (hmap_eq (rga_nodes a13) (rga_nodes b13) \<and> rga_to_vec a13 = rga_to_vec b13)"
  "crdt_same (VectorClock a14) (VectorClock b14) = vclock_eq a14 b14"
  by (simp_all add: crdt_same_def)

lemma type_name_inv:
  "type_name c = ''GCounter'' \<Longrightarrow> \<exists>x. c = GCounter x"
  "type_name c = ''GSet'' \<Longrightarrow> \<exists>x. c = GSet x"
  "type_name c = ''ORSet'' \<Longrightarrow> \<exists>x. c = ORSet x"
  "type_name c = ''LWWRegister'' \<Longrightarrow> \<exists>x. c = LWWRegister x"
  "type_name c = ''LWWMap'' \<Longrightarrow> \<exists>x. c = LWWMap x"
  "type_name c = ''Rga'' \<Longrightarrow> \<exists>x. c = Rga x"
  "type_name c = ''VectorClock'' \<Longrightarrow> \<exists>x. c = VectorClock x"
  by (cases c; simp)+

lemma inj_constructors:
  "inj GCounter" "inj GSet" "inj ORSet" "inj LWWRegister" "inj LWWMap" "inj Rga" "inj VectorClock"
  by (simp_all add: inj_def)



end
