(* ===== verification/L0_Buffer.thy ===== *)
theory L0_Buffer
  imports Value Simple_Graph Occ_Registry Crdt_Enum "HOL-Library.List_Lexorder" "HOL-Library.Char_ord"
begin

text \<open>
  The in-memory write buffer (\<^verbatim>\<open>crates/uni-store/src/runtime/l0.rs\<close>): its state and its operations.

  \<open>l0_buffer\<close> has the fields of \<open>L0Buffer\<close>; the fields of the side-effect counters, of the running
  statement and of the edge identity memo are records of their own, as \<open>MutationStats\<close> and
  \<open>EdgeIdentityMemo\<close> are in the source. The log is the list of the mutations appended to it.
  Versions, counts and sizes are natural numbers: the program only steps and adds them, and never
  near the bounds of their types. Timestamps are integers, and the clock reading \<open>now\<close> is an
  argument. A panic is \<open>None\<close>; an operation that returns a \<open>Result\<close> yields it together with the
  buffer it leaves behind, also when it fails. The lock of the log cannot be poisoned.

  What the buffer takes from outside is the record \<open>l0_env\<close>: serde's conversions between values
  and CRDTs, its JSON text of a value, and the codec of the CRDT wrapper. The plugin registry is a
  field of the buffer, as in the source.
\<close>

type_synonym bytes = "u8 list"
type_synonym 'p providers = "string \<Rightarrow> 'p crdt_provider option"

record ('j, 'p) l0_env =
  crdt_of_value :: "val \<Rightarrow> 'j crdt option"
  value_of_crdt :: "'j crdt \<Rightarrow> val option"
  json_bytes :: "val \<Rightarrow> bytes"
  crdt_codec :: "('j, 'p) crdt_env"

record mutation_stats =
  nodes_created :: nat
  nodes_deleted :: nat
  relationships_created :: nat
  relationships_deleted :: nat
  properties_set :: nat
  properties_removed :: nat
  labels_added :: nat
  labels_removed :: nat

datatype stat_entity = VertexEntity vid | EdgeEntity eid

record tombstone_entry =
  te_eid :: eid
  te_src :: vid
  te_dst :: vid
  te_type :: u32

record edge_identity_memo =
  identities :: "(eid, vid \<times> vid \<times> u32) hmap"
  scanned :: "(vid \<times> u32) list"
  storage_reads :: "(u32, nat) hmap"
  charged_bytes :: nat

record statement_state =
  statement_depth :: nat
  statement_write_admitted :: bool
  statement_created_vertices :: "vid set"
  statement_created_edges :: "eid set"
  statement_tracks_created :: bool

text \<open>One record of the write-ahead log (\<^verbatim>\<open>wal.rs\<close>), its fields in the source's order.\<close>

datatype mutation =
    InsertEdge vid vid u32 eid nat properties "string option" "int option" "int option"
  | DeleteEdge eid vid vid u32 nat "string option"
  | InsertVertex vid properties "string list" "int option" "int option"
  | DeleteVertex vid "string list"
  | SetVertexLabels vid "string list"

record 'p l0_buffer =
  graph :: simple_graph
  tombstones :: "(eid, tombstone_entry) hmap"
  vertex_tombstones :: "vid list"
  edge_versions :: "(eid, nat) hmap"
  vertex_versions :: "(vid, nat) hmap"
  edge_properties :: "(eid, properties) hmap"
  vertex_properties :: "(vid, properties) hmap"
  edge_endpoints :: "(eid, vid \<times> vid \<times> u32) hmap"
  vertex_labels :: "(vid, string list) hmap"
  label_to_vids :: "(string, vid list) hmap"
  vertex_label_overwrites :: "vid list"
  vertex_labels_before :: "(vid, string list) hmap"
  vertex_label_versions :: "(vid, nat) hmap"
  edge_types :: "(eid, string) hmap"
  current_version :: nat
  mutation_count :: nat
  stats :: mutation_stats
  wal :: "mutation list option"
  wal_lsn_at_flush :: nat
  wal_lsn_at_start :: nat
  unpublished_bulk_at_rotation :: "nat list"
  vertex_created_at :: "(vid, int) hmap"
  vertex_updated_at :: "(vid, int) hmap"
  edge_created_at :: "(eid, int) hmap"
  edge_updated_at :: "(eid, int) hmap"
  estimated_size :: nat
  constraint_index :: "(bytes, vid) hmap"
  constraint_keys_by_vid :: "(vid, bytes list) hmap"
  merge_guard_index :: "(bytes, vid) hmap"
  merge_keys_by_vid :: "(vid, bytes list) hmap"
  edge_constraint_index :: "(bytes, eid) hmap"
  edge_keys_by_eid :: "(eid, bytes list) hmap"
  extid_index :: "(string, vid) hmap"
  statement :: statement_state
  created_edges :: "eid set"
  created_vertices :: "vid set"
  memo :: edge_identity_memo
  pending_embeddings :: "(vid, string) hmap"
  occ_read_seq :: nat
  validated_schema_version :: "u32 option"
  l0_read_set :: "occ_read_set option"
  plugin_registry :: "'p providers option"

definition stats_default :: mutation_stats where
  "stats_default = \<lparr>nodes_created = 0, nodes_deleted = 0, relationships_created = 0, relationships_deleted = 0,
     properties_set = 0, properties_removed = 0, labels_added = 0, labels_removed = 0\<rparr>"

definition stats_diff :: "mutation_stats \<Rightarrow> mutation_stats \<Rightarrow> mutation_stats" where
  "stats_diff self before =
     \<lparr>nodes_created = nodes_created self - nodes_created before,
      nodes_deleted = nodes_deleted self - nodes_deleted before,
      relationships_created = relationships_created self - relationships_created before,
      relationships_deleted = relationships_deleted self - relationships_deleted before,
      properties_set = properties_set self - properties_set before,
      properties_removed = properties_removed self - properties_removed before,
      labels_added = labels_added self - labels_added before,
      labels_removed = labels_removed self - labels_removed before\<rparr>"

definition memo_default :: edge_identity_memo where
  "memo_default = \<lparr>identities = [], scanned = [], storage_reads = [], charged_bytes = 0\<rparr>"

definition IDENTITY_BYTES :: nat where
  "IDENTITY_BYTES = 40"

definition SCANNED_BYTES :: nat where
  "SCANNED_BYTES = 24"

definition memo_charge :: "edge_identity_memo \<Rightarrow> nat \<Rightarrow> nat \<Rightarrow> nat \<times> edge_identity_memo" where
  "memo_charge mm n_identities n_scanned =
     (let added = (length (identities mm) - n_identities) * IDENTITY_BYTES +
        (length (scanned mm) - n_scanned) * SCANNED_BYTES
      in (added, mm\<lparr>charged_bytes := charged_bytes mm + added\<rparr>))"

definition statement_closed :: statement_state where
  "statement_closed = \<lparr>statement_depth = 0, statement_write_admitted = False,
     statement_created_vertices = {}, statement_created_edges = {}, statement_tracks_created = False\<rparr>"

definition l0_new :: "nat \<Rightarrow> mutation list option \<Rightarrow> 'p l0_buffer" where
  "l0_new start_version w =
     \<lparr>graph = graph_new, tombstones = [], vertex_tombstones = [], edge_versions = [], vertex_versions = [],
      edge_properties = [], vertex_properties = [], edge_endpoints = [], vertex_labels = [],
      label_to_vids = [], vertex_label_overwrites = [], vertex_labels_before = [],
      vertex_label_versions = [], edge_types = [], current_version = start_version, mutation_count = 0,
      stats = stats_default, wal = w, wal_lsn_at_flush = 0, wal_lsn_at_start = 0,
      unpublished_bulk_at_rotation = [], vertex_created_at = [], vertex_updated_at = [],
      edge_created_at = [], edge_updated_at = [], estimated_size = 0, constraint_index = [],
      constraint_keys_by_vid = [], merge_guard_index = [], merge_keys_by_vid = [],
      edge_constraint_index = [], edge_keys_by_eid = [], extid_index = [],
      statement = statement_closed, created_edges = {}, created_vertices = {}, memo = memo_default,
      pending_embeddings = [], occ_read_seq = 0, validated_schema_version = None, l0_read_set = None,
      plugin_registry = None\<rparr>"

text \<open>A clone shares neither the log nor the read-set, and starts outside any statement.\<close>

definition l0_clone :: "'p l0_buffer \<Rightarrow> 'p l0_buffer" where
  "l0_clone l = l\<lparr>wal := None, estimated_size := estimated_size l - charged_bytes (memo l),
     statement := statement_closed, memo := memo_default, l0_read_set := None\<rparr>"

definition set_plugin_registry :: "'p providers \<Rightarrow> 'p l0_buffer \<Rightarrow> 'p l0_buffer" where
  "set_plugin_registry r l = l\<lparr>plugin_registry := Some r\<rparr>"

end
