(* ===== verification/L0_Ops.thy ===== *)
theory L0_Ops
  imports L0_Buffer
begin

text \<open>
  The operations of the write buffer (\<^verbatim>\<open>crates/uni-store/src/runtime/l0.rs\<close>), in the order of the
  source: constraint keys, labels, the CRDT-aware property merge, vertex and edge writes and
  deletions, reads, and the uniqueness indexes. The invariant and the theorems are in
  \<open>L0_Invariant\<close>; merging two buffers and replaying a log are in \<open>L0_Merge\<close>.
\<close>

subsection \<open>Constraint keys\<close>

definition str_bytes :: "string \<Rightarrow> bytes" where
  "str_bytes s = map of_char s"

definition serialize_constraint_key :: "('j, 'p) l0_env \<Rightarrow> string \<Rightarrow> (string \<times> val) list \<Rightarrow> bytes" where
  "serialize_constraint_key env label key_values =
     str_bytes label @ [0] @
     concat (map (\<lambda>(k, v). str_bytes k @ [0] @ json_bytes env v @ [0]) (sort_key fst key_values))"

text \<open>\<open>slice::split\<close> on the byte 0.\<close>

fun split_nul :: "bytes \<Rightarrow> bytes list" where
  "split_nul [] = [[]]"
| "split_nul (b # bs) =
     (if b = 0 then [] # split_nul bs
      else (case split_nul bs of p # ps \<Rightarrow> (b # p) # ps | [] \<Rightarrow> [[b]]))"

definition constraint_key_shape :: "bytes \<Rightarrow> bytes" where
  "constraint_key_shape key =
     concat (map (\<lambda>(i, part). part @ [0])
       (filter (\<lambda>(i, part). i = 0 \<or> i mod 2 = 1) (enumerate 0 (split_nul key))))"

subsection \<open>Labels\<close>

definition append_unique_labels :: "string list \<Rightarrow> string list \<Rightarrow> string list" where
  "append_unique_labels existing labels = fold hset_insert labels existing"

definition index_labels :: "vid \<Rightarrow> string list \<Rightarrow> (string, vid list) hmap \<Rightarrow> (string, vid list) hmap" where
  "index_labels vid labels m = fold (\<lambda>label m. hput label (hset_insert vid (hget_or [] m label)) m) labels m"

definition index_labels_for_vid :: "vid \<Rightarrow> string list \<Rightarrow> 'p l0_buffer \<Rightarrow> 'p l0_buffer" where
  "index_labels_for_vid vid labels l = l\<lparr>label_to_vids := index_labels vid labels (label_to_vids l)\<rparr>"

definition unindex_label :: "vid \<Rightarrow> string \<Rightarrow> (string, vid list) hmap \<Rightarrow> (string, vid list) hmap" where
  "unindex_label vid label m =
     (case hget m label of None \<Rightarrow> m | Some vids \<Rightarrow> hput label (removeAll vid vids) m)"

definition remove_vid_from_label_index :: "vid \<Rightarrow> 'p l0_buffer \<Rightarrow> 'p l0_buffer" where
  "remove_vid_from_label_index vid l =
     (case hget (vertex_labels l) vid of
        None \<Rightarrow> l
      | Some labels \<Rightarrow> l\<lparr>label_to_vids := fold (unindex_label vid) labels (label_to_vids l)\<rparr>)"

definition extid_of :: "properties \<Rightarrow> string option" where
  "extid_of props = Option.bind (hget props ''ext_id'') as_str"

definition sync_extid_index :: "vid \<Rightarrow> string option \<Rightarrow> string option \<Rightarrow> 'p l0_buffer \<Rightarrow> 'p l0_buffer" where
  "sync_extid_index vid old new l =
     (if old = new then l
      else
        let m1 = (case old of
                    Some x \<Rightarrow> if hget (extid_index l) x = Some vid then hdel x (extid_index l) else extid_index l
                  | None \<Rightarrow> extid_index l);
            m2 = (case new of Some x \<Rightarrow> hput x vid m1 | None \<Rightarrow> m1)
        in l\<lparr>extid_index := m2\<rparr>)"

definition set_vertex_labels :: "vid \<Rightarrow> string list \<Rightarrow> 'p l0_buffer \<Rightarrow> 'p l0_buffer" where
  "set_vertex_labels vid labels l =
     (let l1 = remove_vid_from_label_index vid l;
          l2 = l1\<lparr>vertex_labels := hput vid labels (vertex_labels l1)\<rparr>;
          l3 = index_labels_for_vid vid labels l2;
          v = current_version l3 + 1
      in l3\<lparr>vertex_label_overwrites := hset_insert vid (vertex_label_overwrites l3),
            current_version := v,
            vertex_label_versions := hput vid v (vertex_label_versions l3),
            mutation_count := mutation_count l3 + 1\<rparr>)"

text \<open>\<open>entry(k).or_insert(v)\<close>.\<close>

definition or_insert :: "'k \<Rightarrow> 'v \<Rightarrow> ('k, 'v) hmap \<Rightarrow> ('k, 'v) hmap" where
  "or_insert k v m = (case hget m k of None \<Rightarrow> hput k v m | Some _ \<Rightarrow> m)"

definition relabel_vertex :: "vid \<Rightarrow> string list \<Rightarrow> string list \<Rightarrow> 'p l0_buffer \<Rightarrow> 'p l0_buffer" where
  "relabel_vertex vid previous labels l =
     set_vertex_labels vid labels (l\<lparr>vertex_labels_before := or_insert vid previous (vertex_labels_before l)\<rparr>)"

definition vertex_write_version :: "'p l0_buffer \<Rightarrow> vid \<Rightarrow> nat" where
  "vertex_write_version l vid =
     max (hget_or 0 (vertex_versions l) vid) (hget_or 0 (vertex_label_versions l) vid)"

subsection \<open>Property merge\<close>

definition try_as_crdt :: "('j, 'p) l0_env \<Rightarrow> val \<Rightarrow> 'j crdt option" where
  "try_as_crdt env v = (if is_map v then crdt_of_value env v else None)"

text \<open>
  The value that one iteration of the loop of \<open>merge_crdt_properties\<close> stores under a key: the merge
  of the incoming CRDT with the existing one, or else the incoming value.
\<close>

definition merged_value :: "('j, 'p) l0_env \<Rightarrow> 'p providers option \<Rightarrow> val option \<Rightarrow> val \<Rightarrow> val" where
  "merged_value env reg existing_v v =
     (case try_as_crdt env v of
        None \<Rightarrow> v
      | Some new_crdt \<Rightarrow>
          (case Option.bind existing_v (crdt_of_value env) of
             None \<Rightarrow> v
           | Some existing_crdt \<Rightarrow>
               (case (case reg of
                        Some r \<Rightarrow> merge_via_registry ((crdt_codec env)\<lparr>registry := r\<rparr>) new_crdt existing_crdt
                      | None \<Rightarrow> try_merge (json_ser (crdt_codec env)) new_crdt existing_crdt) of
                  Inr merged \<Rightarrow>
                    (case value_of_crdt env merged of Some merged_json \<Rightarrow> merged_json | None \<Rightarrow> v)
                | Inl _ \<Rightarrow> v)))"

definition merge_crdt_properties ::
  "('j, 'p) l0_env \<Rightarrow> 'p providers option \<Rightarrow> properties \<Rightarrow> properties \<Rightarrow> properties" where
  "merge_crdt_properties env reg entry properties =
     (if entry = [] then properties else hmap_fold (merged_value env reg) properties entry)"

definition estimate_properties_size :: "properties \<Rightarrow> nat" where
  "estimate_properties_size props = sum_list (map (\<lambda>(k, _). length k + 32) props)"

definition size_bytes :: "'p l0_buffer \<Rightarrow> nat" where
  "size_bytes l =
     vertex_count (graph l) * 8 + edge_count (graph l) * 24
     + sum_list (map (estimate_properties_size \<circ> snd) (vertex_properties l))
     + sum_list (map (estimate_properties_size \<circ> snd) (edge_properties l))
     + length (tombstones l) * 64 + length (vertex_tombstones l) * 8 + length (edge_versions l) * 16
     + length (vertex_versions l) * 16 + length (vertex_label_versions l) * 16 + length (edge_endpoints l) * 28
     + sum_list (map (\<lambda>(_, labels). sum_list (map (\<lambda>s. length s + 24) labels)) (vertex_labels l))
     + sum_list (map (\<lambda>(label, vids). length label + 24 + length vids * 8 + 48) (label_to_vids l))
     + sum_list (map (\<lambda>(_, etype). length etype + 24) (edge_types l))
     + length (vertex_created_at l) * 16 + length (vertex_updated_at l) * 16
     + length (edge_created_at l) * 16 + length (edge_updated_at l) * 16
     + length (identities (memo l)) * IDENTITY_BYTES + length (scanned (memo l)) * SCANNED_BYTES"

subsection \<open>Vertex writes\<close>

text \<open>Append to the log, if there is one.\<close>

definition wal_append :: "mutation \<Rightarrow> 'p l0_buffer \<Rightarrow> 'p l0_buffer" where
  "wal_append mu l = l\<lparr>wal := map_option (\<lambda>w. w @ [mu]) (wal l)\<rparr>"

definition add_stats :: "(mutation_stats \<Rightarrow> mutation_stats) \<Rightarrow> 'p l0_buffer \<Rightarrow> 'p l0_buffer" where
  "add_stats f l = l\<lparr>stats := f (stats l)\<rparr>"

definition labels_size :: "string list \<Rightarrow> nat" where
  "labels_size labels = sum_list (map (\<lambda>s. length s + 24) labels)"

definition apply_vertex_write ::
  "('j, 'p) l0_env \<Rightarrow> vid \<Rightarrow> properties \<Rightarrow> string list \<Rightarrow> nat \<Rightarrow> int \<Rightarrow> 'p l0_buffer \<Rightarrow> 'p l0_buffer" where
  "apply_vertex_write env vid properties labels version now l =
     (let tracks_extid = (hget properties ''ext_id'' \<noteq> None);
          entry = hget_or [] (vertex_properties l) vid;
          old_extid = (if tracks_extid then extid_of entry else None);
          entry' = merge_crdt_properties env (plugin_registry l) entry properties;
          l1 = l\<lparr>vertex_tombstones := removeAll vid (vertex_tombstones l),
                 vertex_properties := hput vid entry' (vertex_properties l)\<rparr>;
          l2 = (if tracks_extid then sync_extid_index vid old_extid (extid_of entry') l1 else l1);
          l3 = l2\<lparr>vertex_versions := hput vid version (vertex_versions l2),
                  vertex_created_at := or_insert vid now (vertex_created_at l2),
                  vertex_updated_at := hput vid now (vertex_updated_at l2),
                  vertex_labels :=
                    hput vid (append_unique_labels (hget_or [] (vertex_labels l2) vid) labels) (vertex_labels l2)\<rparr>;
          l4 = index_labels_for_vid vid labels l3
      in l4\<lparr>graph := snd (add_vertex (graph l4) vid),
            mutation_count := mutation_count l4 + 1,
            estimated_size := estimated_size l4 + (8 + estimate_properties_size properties + 16 + labels_size labels + 32)\<rparr>)"

definition insert_vertex_with_labels_impl ::
  "('j, 'p) l0_env \<Rightarrow> int \<Rightarrow> vid \<Rightarrow> properties \<Rightarrow> string list \<Rightarrow> bool \<Rightarrow> 'p l0_buffer \<Rightarrow> 'p l0_buffer" where
  "insert_vertex_with_labels_impl env now vid properties labels skip_wal l =
     (let version = current_version l + 1;
          l1 = l\<lparr>current_version := version\<rparr>;
          l2 = (if skip_wal then l1 else wal_append (InsertVertex vid properties labels (Some now) (Some now)) l1)
      in apply_vertex_write env vid properties labels version now l2)"

definition non_null_count :: "properties \<Rightarrow> nat" where
  "non_null_count props = length (filter (\<lambda>(_, v). \<not> is_null v) props)"

definition insert_vertex_with_labels ::
  "('j, 'p) l0_env \<Rightarrow> int \<Rightarrow> vid \<Rightarrow> properties \<Rightarrow> string list \<Rightarrow> 'p l0_buffer \<Rightarrow> 'p l0_buffer" where
  "insert_vertex_with_labels env now vid properties labels l =
     (let l1 = insert_vertex_with_labels_impl env now vid properties labels False l;
          l2 = add_stats (\<lambda>s. s\<lparr>nodes_created := nodes_created s + 1,
                 labels_added := labels_added s + length labels,
                 properties_set := properties_set s + non_null_count properties\<rparr>) l1;
          l3 = l2\<lparr>created_vertices := insert vid (created_vertices l2),
                 estimated_size := estimated_size l2 + (if vid \<in> created_vertices l2 then 0 else 16)\<rparr>;
          st = statement l3
      in if statement_depth st > 0 \<and> statement_tracks_created st
         then l3\<lparr>statement := st\<lparr>statement_created_vertices := insert vid (statement_created_vertices st)\<rparr>\<rparr>
         else l3)"

definition insert_vertex :: "('j, 'p) l0_env \<Rightarrow> int \<Rightarrow> vid \<Rightarrow> properties \<Rightarrow> 'p l0_buffer \<Rightarrow> 'p l0_buffer" where
  "insert_vertex env now vid properties l = insert_vertex_with_labels env now vid properties [] l"

definition update_vertex_with_labels ::
  "('j, 'p) l0_env \<Rightarrow> int \<Rightarrow> vid \<Rightarrow> properties \<Rightarrow> string list \<Rightarrow> 'p l0_buffer \<Rightarrow> 'p l0_buffer" where
  "update_vertex_with_labels env now vid properties labels l =
     insert_vertex_with_labels_impl env now vid properties labels False l"

subsection \<open>Statement scopes and counters\<close>

definition begin_statement :: "bool \<Rightarrow> 'p l0_buffer \<Rightarrow> 'p l0_buffer" where
  "begin_statement track_created l =
     (let st = (if statement_depth (statement l) = 0
                then (statement l)\<lparr>statement_write_admitted := False, statement_tracks_created := track_created,
                       statement_created_vertices := {}, statement_created_edges := {}\<rparr>
                else statement l)
      in l\<lparr>statement := st\<lparr>statement_depth := statement_depth st + 1\<rparr>\<rparr>)"

definition end_statement :: "'p l0_buffer \<Rightarrow> 'p l0_buffer" where
  "end_statement l =
     (let st = (statement l)\<lparr>statement_depth := statement_depth (statement l) - 1\<rparr>
      in l\<lparr>statement :=
           (if statement_depth st = 0
            then st\<lparr>statement_write_admitted := False, statement_tracks_created := False,
                   statement_created_vertices := {}, statement_created_edges := {}\<rparr>
            else st)\<rparr>)"

definition write_admitted :: "'p l0_buffer \<Rightarrow> bool" where
  "write_admitted l \<longleftrightarrow> statement_depth (statement l) > 0 \<and> statement_write_admitted (statement l)"

definition note_write_admitted :: "'p l0_buffer \<Rightarrow> 'p l0_buffer" where
  "note_write_admitted l =
     (if statement_depth (statement l) > 0
      then l\<lparr>statement := (statement l)\<lparr>statement_write_admitted := True\<rparr>\<rparr> else l)"

definition record_labels_added :: "vid \<Rightarrow> nat \<Rightarrow> 'p l0_buffer \<Rightarrow> 'p l0_buffer" where
  "record_labels_added _ n l = add_stats (\<lambda>s. s\<lparr>labels_added := labels_added s + n\<rparr>) l"

definition record_labels_removed :: "vid \<Rightarrow> nat \<Rightarrow> 'p l0_buffer \<Rightarrow> 'p l0_buffer" where
  "record_labels_removed vid n l =
     (if vid \<in> statement_created_vertices (statement l)
      then add_stats (\<lambda>s. s\<lparr>labels_added := labels_added s - n\<rparr>) l
      else add_stats (\<lambda>s. s\<lparr>labels_removed := labels_removed s + n\<rparr>) l)"

definition holds_flushable_data :: "'p l0_buffer \<Rightarrow> bool" where
  "holds_flushable_data l \<longleftrightarrow>
     mutation_count l > 0 \<or> vertex_properties l \<noteq> [] \<or> vertex_tombstones l \<noteq> [] \<or> vertex_labels l \<noteq> [] \<or>
     vertex_label_overwrites l \<noteq> [] \<or> edge_endpoints l \<noteq> [] \<or> tombstones l \<noteq> []"

definition add_vertex_labels :: "vid \<Rightarrow> string list \<Rightarrow> 'p l0_buffer \<Rightarrow> 'p l0_buffer" where
  "add_vertex_labels vid labels l =
     index_labels_for_vid vid labels
       (l\<lparr>vertex_labels := hput vid (append_unique_labels (hget_or [] (vertex_labels l) vid) labels) (vertex_labels l)\<rparr>)"

definition remove_vertex_label :: "vid \<Rightarrow> string \<Rightarrow> 'p l0_buffer \<Rightarrow> bool \<times> 'p l0_buffer" where
  "remove_vertex_label vid label l =
     (case hget (vertex_labels l) vid of
        None \<Rightarrow> (False, l)
      | Some labels \<Rightarrow>
          if label \<in> set labels
          then (True, add_stats (\<lambda>s. s\<lparr>labels_removed := labels_removed s + 1\<rparr>)
                 (l\<lparr>vertex_labels := hput vid (remove1 label labels) (vertex_labels l),
                    label_to_vids := unindex_label vid label (label_to_vids l),
                    current_version := current_version l + 1,
                    mutation_count := mutation_count l + 1\<rparr>))
          else (False, l))"

definition set_edge_type :: "eid \<Rightarrow> string \<Rightarrow> 'p l0_buffer \<Rightarrow> 'p l0_buffer" where
  "set_edge_type eid edge_type l = l\<lparr>edge_types := hput eid edge_type (edge_types l)\<rparr>"

subsection \<open>Deletions\<close>

text \<open>The loop that takes an owner's keys out of an index, leaving the entries of other owners.\<close>

definition drop_owned :: "'o \<Rightarrow> bytes list \<Rightarrow> (bytes, 'o) hmap \<Rightarrow> (bytes, 'o) hmap" where
  "drop_owned owner keys index =
     fold (\<lambda>key m. if hget m key = Some owner then hdel key m else m) keys index"

definition retire_edge_constraint_keys :: "eid \<Rightarrow> 'p l0_buffer \<Rightarrow> 'p l0_buffer" where
  "retire_edge_constraint_keys eid l =
     l\<lparr>edge_constraint_index := drop_owned eid (hget_or [] (edge_keys_by_eid l) eid) (edge_constraint_index l),
       edge_keys_by_eid := hdel eid (edge_keys_by_eid l)\<rparr>"

text \<open>One iteration of the cascade of \<open>apply_vertex_deletion\<close>.\<close>

definition cascade_edge ::
  "nat \<Rightarrow> eid \<Rightarrow> 'p l0_buffer \<Rightarrow> (tombstone_entry list \<times> 'p l0_buffer) option" where
  "cascade_edge version eid l =
     (case hget (edge_endpoints l) eid of
        None \<Rightarrow> Some ([], l)
      | Some (src, dst, etype) \<Rightarrow>
          let entry = \<lparr>te_eid = eid, te_src = src, te_dst = dst, te_type = etype\<rparr>;
              l1 = l\<lparr>tombstones := hput eid entry (tombstones l),
                     edge_versions := hput eid version (edge_versions l),
                     edge_endpoints := hdel eid (edge_endpoints l),
                     edge_properties := hdel eid (edge_properties l)\<rparr>;
              l2 = retire_edge_constraint_keys eid l1
          in (case remove_edge (graph l2) eid of
                None \<Rightarrow> None
              | Some (_, g) \<Rightarrow>
                  Some ([entry], add_stats (\<lambda>s. s\<lparr>relationships_deleted := relationships_deleted s + 1\<rparr>)
                    (l2\<lparr>graph := g, mutation_count := mutation_count l2 + 1\<rparr>))))"

fun cascade_edges ::
  "nat \<Rightarrow> eid list \<Rightarrow> 'p l0_buffer \<Rightarrow> (tombstone_entry list \<times> 'p l0_buffer) option" where
  "cascade_edges version [] l = Some ([], l)"
| "cascade_edges version (eid # eids) l =
     (case cascade_edge version eid l of
        None \<Rightarrow> None
      | Some (ts, l1) \<Rightarrow> map_option (\<lambda>(ts', l2). (ts @ ts', l2)) (cascade_edges version eids l1))"

text \<open>The edges at a vertex, as the hash set the source collects them into.\<close>

definition incident_edges :: "simple_graph \<Rightarrow> vid \<Rightarrow> eid list" where
  "incident_edges g vid =
     fold hset_insert (map ee_eid (neighbors g vid Incoming)) (fold hset_insert (map ee_eid (neighbors g vid Outgoing)) [])"

definition drop_extid :: "vid \<Rightarrow> 'p l0_buffer \<Rightarrow> 'p l0_buffer" where
  "drop_extid vid l =
     (case Option.bind (hget (vertex_properties l) vid) extid_of of
        None \<Rightarrow> l
      | Some ext \<Rightarrow>
          if hget (extid_index l) ext = Some vid then l\<lparr>extid_index := hdel ext (extid_index l)\<rparr> else l)"

definition apply_vertex_deletion ::
  "vid \<Rightarrow> 'p l0_buffer \<Rightarrow> (tombstone_entry list \<times> 'p l0_buffer) option" where
  "apply_vertex_deletion vid l =
     (let version = current_version l;
          edges_to_remove = incident_edges (graph l) vid
      in case cascade_edges version edges_to_remove l of
           None \<Rightarrow> None
         | Some (cascaded, l1) \<Rightarrow>
             let l2 = remove_vid_from_label_index vid l1;
                 newly_deleted = (vid \<notin> set (vertex_tombstones l2));
                 l3 = drop_extid vid (l2\<lparr>vertex_tombstones := hset_insert vid (vertex_tombstones l2)\<rparr>);
                 l4 = l3\<lparr>vertex_properties := hdel vid (vertex_properties l3),
                         vertex_versions := hput vid version (vertex_versions l3)\<rparr>
             in (case remove_vertex (graph l4) vid of
                  None \<Rightarrow> None
                | Some g \<Rightarrow>
                    let l5 = l4\<lparr>graph := g, mutation_count := mutation_count l4 + 1\<rparr>;
                        l6 = (if newly_deleted then add_stats (\<lambda>s. s\<lparr>nodes_deleted := nodes_deleted s + 1\<rparr>) l5 else l5)
                    in Some (cascaded, l6\<lparr>
                      constraint_index := drop_owned vid (hget_or [] (constraint_keys_by_vid l6) vid) (constraint_index l6),
                      constraint_keys_by_vid := hdel vid (constraint_keys_by_vid l6),
                      merge_guard_index := drop_owned vid (hget_or [] (merge_keys_by_vid l6) vid) (merge_guard_index l6),
                      merge_keys_by_vid := hdel vid (merge_keys_by_vid l6),
                      estimated_size := estimated_size l6 + (length edges_to_remove * 72 + 8)\<rparr>)))"

definition delete_vertex_impl ::
  "vid \<Rightarrow> bool \<Rightarrow> 'p l0_buffer \<Rightarrow> (tombstone_entry list \<times> 'p l0_buffer) option" where
  "delete_vertex_impl vid skip_wal l =
     (let l1 = l\<lparr>current_version := current_version l + 1\<rparr>;
          l2 = (if skip_wal then l1 else wal_append (DeleteVertex vid (hget_or [] (vertex_labels l1) vid)) l1)
      in apply_vertex_deletion vid l2)"

definition delete_vertex :: "vid \<Rightarrow> 'p l0_buffer \<Rightarrow> (tombstone_entry list \<times> 'p l0_buffer) option" where
  "delete_vertex vid l = delete_vertex_impl vid False l"

definition apply_edge_deletion :: "eid \<Rightarrow> vid \<Rightarrow> vid \<Rightarrow> u32 \<Rightarrow> 'p l0_buffer \<Rightarrow> 'p l0_buffer option" where
  "apply_edge_deletion eid src dst etype l =
     (let newly_deleted = (hget (tombstones l) eid = None);
          l1 = l\<lparr>tombstones := hput eid \<lparr>te_eid = eid, te_src = src, te_dst = dst, te_type = etype\<rparr> (tombstones l),
                 edge_versions := hput eid (current_version l) (edge_versions l)\<rparr>;
          l2 = retire_edge_constraint_keys eid l1
      in case remove_edge (graph l2) eid of
           None \<Rightarrow> None
         | Some (_, g) \<Rightarrow>
             let l3 = l2\<lparr>graph := g, mutation_count := mutation_count l2 + 1, estimated_size := estimated_size l2 + 80\<rparr>
             in Some (if newly_deleted
                      then add_stats (\<lambda>s. s\<lparr>relationships_deleted := relationships_deleted s + 1\<rparr>) l3 else l3))"

definition delete_edge_impl ::
  "int \<Rightarrow> eid \<Rightarrow> vid \<Rightarrow> vid \<Rightarrow> u32 \<Rightarrow> bool \<Rightarrow> 'p l0_buffer \<Rightarrow> 'p l0_buffer option" where
  "delete_edge_impl now eid src dst etype skip_wal l =
     (let l1 = l\<lparr>current_version := current_version l + 1\<rparr>;
          l2 = (if skip_wal then l1
                else wal_append (DeleteEdge eid src dst etype (current_version l1) (hget (edge_types l1) eid)) l1)
      in map_option (\<lambda>l3. l3\<lparr>edge_updated_at := hput eid now (edge_updated_at l3)\<rparr>)
           (apply_edge_deletion eid src dst etype l2))"

definition delete_edge :: "int \<Rightarrow> eid \<Rightarrow> vid \<Rightarrow> vid \<Rightarrow> u32 \<Rightarrow> 'p l0_buffer \<Rightarrow> 'p l0_buffer option" where
  "delete_edge now eid src dst etype l = delete_edge_impl now eid src dst etype False l"

subsection \<open>Edge writes\<close>

datatype l0_error = SourceDeleted vid | DestinationDeleted vid

type_synonym 'p l0_result = "((l0_error + unit) \<times> 'p l0_buffer) option"

definition ensure_vertex :: "simple_graph \<Rightarrow> vid \<Rightarrow> simple_graph" where
  "ensure_vertex g v = (if contains_vertex g v then g else snd (add_vertex g v))"

definition apply_edge_insertion ::
  "('j, 'p) l0_env \<Rightarrow> vid \<Rightarrow> vid \<Rightarrow> u32 \<Rightarrow> eid \<Rightarrow> properties \<Rightarrow> 'p l0_buffer \<Rightarrow> 'p l0_result" where
  "apply_edge_insertion env src dst etype eid properties l =
     (if src \<in> set (vertex_tombstones l) then Some (Inl (SourceDeleted src), l)
      else if dst \<in> set (vertex_tombstones l) then Some (Inl (DestinationDeleted dst), l)
      else
        case add_edge (ensure_vertex (ensure_vertex (graph l) src) dst) src dst eid etype of
          None \<Rightarrow> None
        | Some g \<Rightarrow>
            let l1 = l\<lparr>graph := g\<rparr>;
                l2 = (if properties = [] then l1
                      else l1\<lparr>edge_properties :=
                        hput eid (merge_crdt_properties env (plugin_registry l1)
                          (hget_or [] (edge_properties l1) eid) properties) (edge_properties l1)\<rparr>)
            in Some (Inr (), l2\<lparr>edge_versions := hput eid (current_version l2) (edge_versions l2),
                 edge_endpoints := hput eid (src, dst, etype) (edge_endpoints l2),
                 tombstones := hdel eid (tombstones l2),
                 mutation_count := mutation_count l2 + 1,
                 estimated_size := estimated_size l2 + (24 + estimate_properties_size properties + 16 + 28 + 32)\<rparr>))"

definition insert_edge_impl ::
  "('j, 'p) l0_env \<Rightarrow> int \<Rightarrow> vid \<Rightarrow> vid \<Rightarrow> u32 \<Rightarrow> eid \<Rightarrow> properties \<Rightarrow> string option \<Rightarrow> bool \<Rightarrow>
   'p l0_buffer \<Rightarrow> 'p l0_result" where
  "insert_edge_impl env now src dst etype eid properties edge_type_name skip_wal l =
     (let l1 = l\<lparr>current_version := current_version l + 1\<rparr>;
          l2 = (if skip_wal then l1
                else wal_append (InsertEdge src dst etype eid (current_version l1) properties edge_type_name (Some now) (Some now)) l1)
      in case apply_edge_insertion env src dst etype eid properties l2 of
           None \<Rightarrow> None
         | Some (Inl e, l3) \<Rightarrow> Some (Inl e, l3)
         | Some (Inr _, l3) \<Rightarrow>
             Some (Inr (), l3\<lparr>
               edge_types := (case edge_type_name of Some name \<Rightarrow> hput eid name (edge_types l3) | None \<Rightarrow> edge_types l3),
               edge_created_at := or_insert eid now (edge_created_at l3),
               edge_updated_at := hput eid now (edge_updated_at l3),
               estimated_size := estimated_size l3 + (case edge_type_name of Some name \<Rightarrow> length name + 24 | None \<Rightarrow> 0)\<rparr>))"

definition insert_edge ::
  "('j, 'p) l0_env \<Rightarrow> int \<Rightarrow> vid \<Rightarrow> vid \<Rightarrow> u32 \<Rightarrow> eid \<Rightarrow> properties \<Rightarrow> string option \<Rightarrow> 'p l0_buffer \<Rightarrow> 'p l0_result" where
  "insert_edge env now src dst etype eid properties edge_type_name l =
     (case insert_edge_impl env now src dst etype eid properties edge_type_name False l of
        None \<Rightarrow> None
      | Some (Inl e, l1) \<Rightarrow> Some (Inl e, l1)
      | Some (Inr _, l1) \<Rightarrow>
          let l2 = add_stats (\<lambda>s. s\<lparr>relationships_created := relationships_created s + 1,
                 properties_set := properties_set s + non_null_count properties\<rparr>) l1;
              l3 = l2\<lparr>created_edges := insert eid (created_edges l2),
                 estimated_size := estimated_size l2 + (if eid \<in> created_edges l2 then 0 else 16)\<rparr>;
              st = statement l3
          in Some (Inr (),
               if statement_depth st > 0 \<and> statement_tracks_created st
               then l3\<lparr>statement := st\<lparr>statement_created_edges := insert eid (statement_created_edges st)\<rparr>\<rparr>
               else l3))"

definition update_edge ::
  "('j, 'p) l0_env \<Rightarrow> int \<Rightarrow> vid \<Rightarrow> vid \<Rightarrow> u32 \<Rightarrow> eid \<Rightarrow> properties \<Rightarrow> string option \<Rightarrow> 'p l0_buffer \<Rightarrow> 'p l0_result" where
  "update_edge env now src dst etype eid properties edge_type_name l =
     insert_edge_impl env now src dst etype eid properties edge_type_name False l"

subsection \<open>Reads\<close>

definition is_tombstoned :: "'p l0_buffer \<Rightarrow> eid \<Rightarrow> bool" where
  "is_tombstoned l eid \<longleftrightarrow> hget (tombstones l) eid \<noteq> None"

definition get_neighbors :: "'p l0_buffer \<Rightarrow> vid \<Rightarrow> u32 \<Rightarrow> direction \<Rightarrow> (vid \<times> eid \<times> nat) list" where
  "get_neighbors l vid edge_type dir =
     map (\<lambda>e. (case dir of Outgoing \<Rightarrow> ee_dst e | Incoming \<Rightarrow> ee_src e, ee_eid e, hget_or 0 (edge_versions l) (ee_eid e)))
       (filter (\<lambda>e. ee_type e = edge_type \<and> \<not> is_tombstoned l (ee_eid e)) (neighbors (graph l) vid dir))"

definition vids_for_label :: "'p l0_buffer \<Rightarrow> string \<Rightarrow> vid list" where
  "vids_for_label l label_name = hget_or [] (label_to_vids l) label_name"

definition all_vertex_vids :: "'p l0_buffer \<Rightarrow> vid list" where
  "all_vertex_vids l = map fst (vertex_properties l)"

definition vids_for_labels :: "'p l0_buffer \<Rightarrow> string list \<Rightarrow> vid list" where
  "vids_for_labels l label_names =
     fold (\<lambda>label_name result. fold hset_insert (hget_or [] (label_to_vids l) label_name) result) label_names []"

text \<open>\<open>Iterator::min_by_key\<close>: the first of the least elements.\<close>

fun min_by_len :: "'a list \<Rightarrow> 'a list list \<Rightarrow> 'a list" where
  "min_by_len best [] = best"
| "min_by_len best (s # ss) = min_by_len (if length s < length best then s else best) ss"

definition vids_with_all_labels :: "'p l0_buffer \<Rightarrow> string list \<Rightarrow> vid list" where
  "vids_with_all_labels l label_names =
     (if label_names = [] then []
      else
        case those (map (hget (label_to_vids l)) label_names) of
          None \<Rightarrow> []
        | Some sets \<Rightarrow>
            filter (\<lambda>vid. list_all (\<lambda>s. vid \<in> set s) sets) (min_by_len (hd sets) (tl sets)))"

definition get_vertex_labels :: "'p l0_buffer \<Rightarrow> vid \<Rightarrow> string list option" where
  "get_vertex_labels l vid = hget (vertex_labels l) vid"

definition get_edge_type :: "'p l0_buffer \<Rightarrow> eid \<Rightarrow> string option" where
  "get_edge_type l eid = hget (edge_types l) eid"

definition eids_for_type :: "'p l0_buffer \<Rightarrow> string \<Rightarrow> eid list" where
  "eids_for_type l tname =
     map fst (filter (\<lambda>(eid, etype). etype = tname \<and> hget (tombstones l) eid = None) (edge_types l))"

definition all_edge_eids :: "'p l0_buffer \<Rightarrow> eid list" where
  "all_edge_eids l = filter (\<lambda>eid. hget (tombstones l) eid = None) (map fst (edge_endpoints l))"

definition get_edge_endpoints :: "'p l0_buffer \<Rightarrow> eid \<Rightarrow> (vid \<times> vid) option" where
  "get_edge_endpoints l eid = map_option (\<lambda>(src, dst, _). (src, dst)) (hget (edge_endpoints l) eid)"

definition get_edge_endpoint_full :: "'p l0_buffer \<Rightarrow> eid \<Rightarrow> (vid \<times> vid \<times> u32) option" where
  "get_edge_endpoint_full l eid = hget (edge_endpoints l) eid"

subsection \<open>Uniqueness indexes\<close>

definition insert_constraint_key :: "bytes \<Rightarrow> vid \<Rightarrow> 'p l0_buffer \<Rightarrow> 'p l0_buffer" where
  "insert_constraint_key key vid l =
     (let stale = (\<lambda>old. old \<noteq> key \<and> constraint_key_shape old = constraint_key_shape key);
          held = hget_or [] (constraint_keys_by_vid l) vid;
          retired = filter stale held;
          held' = filter (\<lambda>old. \<not> stale old) held
      in l\<lparr>constraint_keys_by_vid :=
             hput vid (if key \<in> set held' then held' else held' @ [key]) (constraint_keys_by_vid l),
           constraint_index := hput key vid (drop_owned vid retired (constraint_index l))\<rparr>)"

definition has_constraint_key :: "'p l0_buffer \<Rightarrow> bytes \<Rightarrow> vid \<Rightarrow> bool" where
  "has_constraint_key l key exclude_vid \<longleftrightarrow>
     (case hget (constraint_index l) key of None \<Rightarrow> False | Some v \<Rightarrow> v \<noteq> exclude_vid)"

definition insert_edge_constraint_key :: "bytes \<Rightarrow> eid \<Rightarrow> 'p l0_buffer \<Rightarrow> 'p l0_buffer" where
  "insert_edge_constraint_key key eid l =
     l\<lparr>edge_keys_by_eid := hput eid (hset_insert key (hget_or [] (edge_keys_by_eid l) eid)) (edge_keys_by_eid l),
       edge_constraint_index := hput key eid (edge_constraint_index l)\<rparr>"

definition has_edge_constraint_key :: "'p l0_buffer \<Rightarrow> bytes \<Rightarrow> eid \<Rightarrow> bool" where
  "has_edge_constraint_key l key exclude_eid \<longleftrightarrow>
     (case hget (edge_constraint_index l) key of None \<Rightarrow> False | Some e \<Rightarrow> e \<noteq> exclude_eid)"

definition insert_merge_guard_key :: "bytes \<Rightarrow> vid \<Rightarrow> 'p l0_buffer \<Rightarrow> 'p l0_buffer" where
  "insert_merge_guard_key key vid l =
     l\<lparr>merge_keys_by_vid := hput vid (hset_insert key (hget_or [] (merge_keys_by_vid l) vid)) (merge_keys_by_vid l),
       merge_guard_index := hput key vid (merge_guard_index l)\<rparr>"

definition has_merge_guard_key :: "'p l0_buffer \<Rightarrow> bytes \<Rightarrow> vid \<Rightarrow> bool" where
  "has_merge_guard_key l key exclude_vid \<longleftrightarrow>
     (case hget (merge_guard_index l) key of None \<Rightarrow> False | Some v \<Rightarrow> v \<noteq> exclude_vid)"

end
