(* ===== verification/L0_Invariant.thy ===== *)
theory L0_Invariant
  imports L0_Ops
begin

text \<open>
  The invariant of the write buffer and its abstract state.

  \<open>l0_ok\<close> ties the buffer's redundant maps together: the graph holds exactly the edges that have
  endpoints and no tombstone; no vertex is both live and tombstoned; and every entry of the five reverse indexes (labels, external ids, the three kinds of
  uniqueness keys) is backed by its owner. \<open>props_placed\<close> adds that properties belong to live vertices, which
  the state a commit seeds from older buffers suspends for a moment. \<open>l0_view\<close> reads a buffer as finite maps, and every
  operation is shown to act on the view as its specification \<open>a_...\<close> does.
\<close>

subsection \<open>Owned keys\<close>

text \<open>An index from keys to owners, and the keys each owner holds.\<close>

definition owned_ok :: "(bytes, 'o) hmap \<Rightarrow> ('o, bytes list) hmap \<Rightarrow> bool" where
  "owned_ok index held \<longleftrightarrow> (\<forall>k v. hget index k = Some v \<longrightarrow> k \<in> set (hget_or [] held v))"

lemma hget_drop_owned:
  "hget (drop_owned v ks m) k = (if k \<in> set ks \<and> hget m k = Some v then None else hget m k)"
  unfolding drop_owned_def by (induction ks arbitrary: m) auto

lemma hmap_ok_drop_owned [intro, inv_intros]: "hmap_ok m \<Longrightarrow> hmap_ok (drop_owned v ks m)"
  unfolding drop_owned_def by (induction ks arbitrary: m) auto

lemma owned_ok_drop:
  "owned_ok index held \<Longrightarrow> owned_ok (drop_owned v (hget_or [] held v) index) (hdel v held)"
  unfolding owned_ok_def by (auto simp: hget_drop_owned split: if_splits)

lemma drop_owned_none:
  "owned_ok index held \<Longrightarrow> hget (drop_owned v (hget_or [] held v) index) k \<noteq> Some v"
  unfolding owned_ok_def by (auto simp: hget_drop_owned)

lemma owned_ok_insert:
  "owned_ok index held \<Longrightarrow> owned_ok (hput k v index) (hput v (hset_insert k (hget_or [] held v)) held)"
  unfolding owned_ok_def by (auto split: if_splits)

subsection \<open>The invariant\<close>

definition entry_of :: "eid \<Rightarrow> vid \<times> vid \<times> u32 \<Rightarrow> edge_entry" where
  "entry_of i e = (case e of (s, d, t) \<Rightarrow> \<lparr>ee_eid = i, ee_src = s, ee_dst = d, ee_type = t\<rparr>)"

definition live_edge :: "'p l0_buffer \<Rightarrow> eid \<Rightarrow> (vid \<times> vid \<times> u32) option" where
  "live_edge l i = (if hget (tombstones l) i = None then hget (edge_endpoints l) i else None)"

definition topo_ok :: "'p l0_buffer \<Rightarrow> bool" where
  "topo_ok l \<longleftrightarrow>
     graph_ok (graph l) \<and> sg.no_dangling (graph l) \<and>
     (\<forall>i. graph_edge (graph l) i = map_option (entry_of i) (live_edge l i)) \<and>
     verts (graph l) \<inter> set (vertex_tombstones l) = {} \<and> distinct (vertex_tombstones l)"

definition maps_ok :: "'p l0_buffer \<Rightarrow> bool" where
  "maps_ok l \<longleftrightarrow>
     hmap_ok (tombstones l) \<and> hmap_ok (edge_properties l) \<and> hmap_ok (vertex_properties l) \<and>
     hmap_ok (edge_endpoints l) \<and> hmap_ok (vertex_labels l) \<and> hmap_ok (edge_types l) \<and>
     hmap_ok (constraint_index l) \<and> hmap_ok (merge_guard_index l) \<and> hmap_ok (edge_constraint_index l) \<and>
     distinct (vertex_label_overwrites l) \<and>
     (\<forall>v p. hget (vertex_properties l) v = Some p \<longrightarrow> hmap_ok p) \<and>
     (\<forall>i p. hget (edge_properties l) i = Some p \<longrightarrow> hmap_ok p)"

definition extid_sound :: "'p l0_buffer \<Rightarrow> bool" where
  "extid_sound l \<longleftrightarrow>
     (\<forall>x v. hget (extid_index l) x = Some v \<longrightarrow> Option.bind (hget (vertex_properties l) v) extid_of = Some x)"

definition keys_ok :: "'p l0_buffer \<Rightarrow> bool" where
  "keys_ok l \<longleftrightarrow>
     owned_ok (constraint_index l) (constraint_keys_by_vid l) \<and>
     owned_ok (merge_guard_index l) (merge_keys_by_vid l) \<and>
     owned_ok (edge_constraint_index l) (edge_keys_by_eid l)"

definition labels_sound :: "'p l0_buffer \<Rightarrow> bool" where
  "labels_sound l \<longleftrightarrow>
     (\<forall>label. \<forall>v\<in>set (vids_for_label l label). label \<in> set (hget_or [] (vertex_labels l) v))"

definition l0_ok :: "'p l0_buffer \<Rightarrow> bool" where
  "l0_ok l \<longleftrightarrow> topo_ok l \<and> maps_ok l \<and> extid_sound l \<and> keys_ok l \<and> labels_sound l"

lemma l0_okD:
  assumes "l0_ok l"
  shows "topo_ok l" "maps_ok l" "extid_sound l" "keys_ok l" "labels_sound l"
  using assms by (simp_all add: l0_ok_def)

lemmas l0_inv_defs = topo_ok_def maps_ok_def extid_sound_def keys_ok_def labels_sound_def live_edge_def vids_for_label_def

lemma l0_ok_new: "l0_ok (l0_new n w)"
  using graph_ok_new
  by (simp add: l0_ok_def l0_inv_defs l0_new_def graph_abs_def fun_eq_iff owned_ok_def)

lemma l0_ok_clone: "l0_ok l \<Longrightarrow> l0_ok (l0_clone l)"
  by (simp add: l0_ok_def l0_inv_defs l0_clone_def)

subsection \<open>The abstract state\<close>

record l0_abs =
  a_verts :: "vid set"
  a_vdel :: "vid set"
  a_endp :: "eid \<Rightarrow> (vid \<times> vid \<times> u32) option"
  a_edel :: "eid \<Rightarrow> tombstone_entry option"
  a_vprops :: "vid \<Rightarrow> (string \<Rightarrow> val option) option"
  a_eprops :: "eid \<Rightarrow> (string \<Rightarrow> val option) option"
  a_labels :: "vid \<Rightarrow> string list option"
  a_types :: "eid \<Rightarrow> string option"
  a_ext :: "string \<Rightarrow> vid option"

definition l0_view :: "'p l0_buffer \<Rightarrow> l0_abs" where
  "l0_view l =
     \<lparr>a_verts = verts (graph l), a_vdel = set (vertex_tombstones l), a_endp = map_of (edge_endpoints l),
      a_edel = map_of (tombstones l), a_vprops = (\<lambda>v. map_option map_of (hget (vertex_properties l) v)),
      a_eprops = (\<lambda>i. map_option map_of (hget (edge_properties l) i)), a_labels = map_of (vertex_labels l),
      a_types = map_of (edge_types l), a_ext = map_of (extid_index l)\<rparr>"

lemma l0_view_simps [simp]:
  "a_verts (l0_view l) = verts (graph l)" "a_vdel (l0_view l) = set (vertex_tombstones l)"
  "a_endp (l0_view l) = map_of (edge_endpoints l)" "a_edel (l0_view l) = map_of (tombstones l)"
  "a_vprops (l0_view l) v = map_option map_of (hget (vertex_properties l) v)"
  "a_eprops (l0_view l) i = map_option map_of (hget (edge_properties l) i)"
  "a_labels (l0_view l) = map_of (vertex_labels l)" "a_types (l0_view l) = map_of (edge_types l)"
  "a_ext (l0_view l) = map_of (extid_index l)"
  by (simp_all add: l0_view_def)

text \<open>Properties belong to vertices of the graph.\<close>

definition a_placed :: "l0_abs \<Rightarrow> bool" where
  "a_placed a \<longleftrightarrow> dom (a_vprops a) \<subseteq> a_verts a"

definition props_placed :: "'p l0_buffer \<Rightarrow> bool" where
  "props_placed l \<longleftrightarrow> (\<forall>v\<in>set (map fst (vertex_properties l)). v \<in> verts (graph l))"

lemma dom_a_vprops [simp]: "dom (a_vprops (l0_view l)) = fst ` set (vertex_properties l)"
  by (force simp: l0_view_def dom_map_of_conv_image_fst [symmetric])

lemma props_placed_view: "props_placed l \<longleftrightarrow> a_placed (l0_view l)"
  by (auto simp: props_placed_def a_placed_def)

lemma props_not_deleted:
  assumes "l0_ok l" "props_placed l" "hget (vertex_properties l) v = Some p"
  shows "v \<notin> set (vertex_tombstones l)"
proof -
  have "v \<in> verts (graph l)" using assms(2) map_of_SomeD [OF assms(3)] by (force simp: props_placed_def)
  then show ?thesis using assms(1) by (auto simp: l0_ok_def topo_ok_def)
qed

text \<open>A property map merged into another one, key by key.\<close>

definition a_join ::
  "('j, 'p) l0_env \<Rightarrow> 'p providers option \<Rightarrow> (string \<Rightarrow> val option) \<Rightarrow> (string \<Rightarrow> val option) \<Rightarrow> string \<Rightarrow> val option" where
  "a_join env reg old new k =
     (case new k of None \<Rightarrow> old k | Some w \<Rightarrow> Some (merged_value env reg (old k) w))"

definition a_live :: "l0_abs \<Rightarrow> eid \<Rightarrow> (vid \<times> vid \<times> u32) option" where
  "a_live a i = (if a_edel a i = None then a_endp a i else None)"

definition a_extid :: "(string \<Rightarrow> val option) option \<Rightarrow> string option" where
  "a_extid p = Option.bind (Option.bind p (\<lambda>f. f ''ext_id'')) as_str"

definition ext_after :: "vid \<Rightarrow> string option \<Rightarrow> string option \<Rightarrow> (string \<Rightarrow> vid option) \<Rightarrow> string \<Rightarrow> vid option" where
  "ext_after v x y ext k =
     (if x \<noteq> y \<and> y = Some k then Some v
      else if x \<noteq> y \<and> x = Some k \<and> ext k = Some v then None else ext k)"

definition a_insert_vertex ::
  "('j, 'p) l0_env \<Rightarrow> 'p providers option \<Rightarrow> vid \<Rightarrow> (string \<Rightarrow> val option) \<Rightarrow> string list \<Rightarrow> l0_abs \<Rightarrow> l0_abs" where
  "a_insert_vertex env reg v props labels a =
     (let old = a_vprops a v;
          new = a_join env reg (case old of None \<Rightarrow> Map.empty | Some p \<Rightarrow> p) props;
          x = a_extid old; y = a_extid (Some new)
      in a\<lparr>a_verts := insert v (a_verts a), a_vdel := a_vdel a - {v}, a_vprops := (a_vprops a)(v \<mapsto> new),
           a_labels := (a_labels a)(v \<mapsto> append_unique_labels (case a_labels a v of None \<Rightarrow> [] | Some ls \<Rightarrow> ls) labels),
           a_ext := ext_after v x y (a_ext a)\<rparr>)"

definition at_vertex :: "vid \<Rightarrow> (vid \<times> vid \<times> u32) option \<Rightarrow> bool" where
  "at_vertex v e \<longleftrightarrow> (case e of None \<Rightarrow> False | Some (s, d, _) \<Rightarrow> s = v \<or> d = v)"

definition te_of :: "eid \<Rightarrow> vid \<times> vid \<times> u32 \<Rightarrow> tombstone_entry" where
  "te_of i e = (case e of (s, d, t) \<Rightarrow> \<lparr>te_eid = i, te_src = s, te_dst = d, te_type = t\<rparr>)"

text \<open>What the cascade does to a set of edges.\<close>

definition a_drop :: "eid set \<Rightarrow> l0_abs \<Rightarrow> l0_abs" where
  "a_drop I a = a\<lparr>a_endp := (\<lambda>i. if i \<in> I then None else a_endp a i),
     a_edel := (\<lambda>i. if i \<in> I \<and> a_endp a i \<noteq> None then map_option (te_of i) (a_endp a i) else a_edel a i),
     a_eprops := (\<lambda>i. if i \<in> I \<and> a_endp a i \<noteq> None then None else a_eprops a i)\<rparr>"

definition a_delete_vertex :: "vid \<Rightarrow> l0_abs \<Rightarrow> l0_abs" where
  "a_delete_vertex v a =
     (a_drop {i. at_vertex v (a_live a i)} a)\<lparr>a_verts := a_verts a - {v}, a_vdel := insert v (a_vdel a),
        a_vprops := (a_vprops a)(v := None), a_ext := (\<lambda>k. if a_ext a k = Some v then None else a_ext a k)\<rparr>"

definition a_delete_edge :: "eid \<Rightarrow> vid \<Rightarrow> vid \<Rightarrow> u32 \<Rightarrow> l0_abs \<Rightarrow> l0_abs" where
  "a_delete_edge i s d t a = a\<lparr>a_edel := (a_edel a)(i \<mapsto> te_of i (s, d, t))\<rparr>"

definition a_insert_edge ::
  "('j, 'p) l0_env \<Rightarrow> 'p providers option \<Rightarrow> vid \<Rightarrow> vid \<Rightarrow> u32 \<Rightarrow> eid \<Rightarrow> (string \<Rightarrow> val option) \<Rightarrow>
   string option \<Rightarrow> l0_abs \<Rightarrow> l0_abs" where
  "a_insert_edge env reg s d t i props tname a =
     a\<lparr>a_verts := a_verts a \<union> {s, d}, a_endp := (a_endp a)(i \<mapsto> (s, d, t)), a_edel := (a_edel a)(i := None),
       a_eprops := (if props = Map.empty then a_eprops a
          else (a_eprops a)(i \<mapsto> a_join env reg (case a_eprops a i of None \<Rightarrow> Map.empty | Some p \<Rightarrow> p) props)),
       a_types := (case tname of None \<Rightarrow> a_types a | Some n \<Rightarrow> (a_types a)(i \<mapsto> n))\<rparr>"

definition a_set_labels :: "vid \<Rightarrow> string list \<Rightarrow> l0_abs \<Rightarrow> l0_abs" where
  "a_set_labels v labels a = a\<lparr>a_labels := (a_labels a)(v \<mapsto> labels)\<rparr>"

subsection \<open>Properties and labels\<close>

lemma merged_value_new [simp]: "merged_value env reg None v = v"
  by (simp add: merged_value_def split: option.split)

lemma map_of_merge_crdt_properties:
  assumes "hmap_ok props"
  shows "map_of (merge_crdt_properties env reg entry props) = a_join env reg (map_of entry) (map_of props)"
proof (cases "entry = []")
  case True
  then show ?thesis by (auto simp: merge_crdt_properties_def a_join_def fun_eq_iff split: option.split)
next
  case False
  then show ?thesis using assms
    by (auto simp: merge_crdt_properties_def a_join_def fun_eq_iff hget_hmap_fold split: option.split)
qed

lemma hmap_ok_merge_crdt_properties [intro, inv_intros]:
  "hmap_ok entry \<Longrightarrow> hmap_ok props \<Longrightarrow> hmap_ok (merge_crdt_properties env reg entry props)"
  by (auto simp: merge_crdt_properties_def)

lemma hget_or_split: "hget_or d m k = (case hget m k of None \<Rightarrow> d | Some v \<Rightarrow> v)"
  by (simp add: hget_or_def)

lemma extid_of_abs: "extid_of p = a_extid (Some (map_of p))"
  by (simp add: extid_of_def a_extid_def)

lemma set_append_unique_labels [simp]: "set (append_unique_labels ls labels) = set ls \<union> set labels"
  unfolding append_unique_labels_def by (induction labels arbitrary: ls) auto

lemma distinct_append_unique_labels: "distinct ls \<Longrightarrow> distinct (append_unique_labels ls labels)"
  unfolding append_unique_labels_def by (induction labels arbitrary: ls) auto

lemma set_index_labels:
  "set (hget_or [] (index_labels v labels m) label) =
     (if label \<in> set labels then insert v (set (hget_or [] m label)) else set (hget_or [] m label))"
  unfolding index_labels_def by (induction labels arbitrary: m) auto

lemma set_unindex_label:
  "set (hget_or [] (unindex_label v label' m) label) =
     (if label = label' then set (hget_or [] m label) - {v} else set (hget_or [] m label))"
  by (auto simp: unindex_label_def hget_or_def split: option.splits)

lemma set_unindex_labels:
  "set (hget_or [] (fold (unindex_label v) labels m) label) =
     (if label \<in> set labels then set (hget_or [] m label) - {v} else set (hget_or [] m label))"
  by (induction labels arbitrary: m) (auto simp: set_unindex_label)

lemma set_remove_vid:
  "set (vids_for_label (remove_vid_from_label_index v l) label) =
     (if label \<in> set (hget_or [] (vertex_labels l) v) then set (vids_for_label l label) - {v}
      else set (vids_for_label l label))"
  by (auto simp: vids_for_label_def remove_vid_from_label_index_def hget_or_split [of _ "vertex_labels l"]
      set_unindex_labels split: option.splits)

lemma remove_vid_gone:
  "labels_sound l \<Longrightarrow> v \<notin> set (vids_for_label (remove_vid_from_label_index v l) label)"
  by (auto simp: set_remove_vid labels_sound_def)

text \<open>A buffer is determined outside its label index.\<close>

lemma remove_vid_label_index:
  "\<exists>m. remove_vid_from_label_index v l = l\<lparr>label_to_vids := m\<rparr>"
  by (cases "hget (vertex_labels l) v") (auto simp: remove_vid_from_label_index_def intro: exI [of _ "label_to_vids l"])

lemma remove_vid_frame [simp]:
  "l0_view (remove_vid_from_label_index v l) = l0_view l"
  "vertex_labels (remove_vid_from_label_index v l) = vertex_labels l"
  "topo_ok (remove_vid_from_label_index v l) = topo_ok l"
  "maps_ok (remove_vid_from_label_index v l) = maps_ok l"
  "extid_sound (remove_vid_from_label_index v l) = extid_sound l"
  "keys_ok (remove_vid_from_label_index v l) = keys_ok l"
  by (rule exE [OF remove_vid_label_index [of v l]], simp add: l0_inv_defs l0_view_def)+

lemma labels_sound_remove_vid: "labels_sound l \<Longrightarrow> labels_sound (remove_vid_from_label_index v l)"
  unfolding labels_sound_def set_remove_vid by (auto split: if_splits)

lemma set_vertex_labels_ok:
  assumes "l0_ok l"
  shows "l0_ok (set_vertex_labels v labels l) \<and> l0_view (set_vertex_labels v labels l) = a_set_labels v labels (l0_view l)"
proof -
  define l1 where "l1 = remove_vid_from_label_index v l"
  have l1: "topo_ok l1" "maps_ok l1" "extid_sound l1" "keys_ok l1" "labels_sound l1" "l0_view l1 = l0_view l"
    "vertex_labels l1 = vertex_labels l"
    using assms by (simp_all add: l1_def l0_ok_def labels_sound_remove_vid)
  have gone: "v \<notin> set (vids_for_label l1 label)" for label
    using remove_vid_gone [OF l0_okD(5) [OF assms]] by (simp add: l1_def)
  let ?l = "set_vertex_labels v labels l"
  have eq: "?l = l1\<lparr>vertex_labels := hput v labels (vertex_labels l1), label_to_vids := index_labels v labels (label_to_vids l1),
      vertex_label_overwrites := hset_insert v (vertex_label_overwrites l1), current_version := current_version l1 + 1,
      vertex_label_versions := hput v (current_version l1 + 1) (vertex_label_versions l1),
      mutation_count := mutation_count l1 + 1\<rparr>"
    by (simp add: set_vertex_labels_def Let_def index_labels_for_vid_def l1_def)
  have "topo_ok ?l" "extid_sound ?l" "keys_ok ?l" using l1 unfolding eq by (simp_all add: l0_inv_defs)
  moreover have "maps_ok ?l" using l1(2) unfolding eq by (auto simp: maps_ok_def)
  moreover have "labels_sound ?l"
    using l1(5) gone unfolding eq labels_sound_def vids_for_label_def by (auto simp: set_index_labels split: if_splits)
  moreover have "l0_view ?l = a_set_labels v labels (l0_view l1)"
    unfolding eq by (simp add: l0_view_def a_set_labels_def update_conv')
  ultimately show ?thesis by (simp add: l0_ok_def l1(6))
qed

subsection \<open>Vertex writes\<close>

lemma ext_after_same [simp]: "ext_after v x x ext = ext"
  by (simp add: ext_after_def fun_eq_iff)

lemma sync_extid_index_eq:
  "\<exists>m. sync_extid_index v x y l = l\<lparr>extid_index := m\<rparr> \<and> map_of m = ext_after v x y (map_of (extid_index l))"
proof (cases "x = y")
  case True
  then show ?thesis by (auto simp: sync_extid_index_def intro: exI [of _ "extid_index l"])
next
  case False
  let ?m1 = "case x of Some k \<Rightarrow> if hget (extid_index l) k = Some v then hdel k (extid_index l) else extid_index l
    | None \<Rightarrow> extid_index l"
  let ?m2 = "case y of Some k \<Rightarrow> hput k v ?m1 | None \<Rightarrow> ?m1"
  have "sync_extid_index v x y l = l\<lparr>extid_index := ?m2\<rparr>"
    using False by (simp add: sync_extid_index_def Let_def)
  moreover have "map_of ?m2 = ext_after v x y (map_of (extid_index l))"
    using False by (cases x; cases y) (auto simp: ext_after_def fun_eq_iff)
  ultimately show ?thesis by blast
qed

text \<open>The fields a vertex write leaves, with the label and the id index abstracted.\<close>

lemma apply_vertex_write_eq:
  assumes props: "hmap_ok props"
  shows "\<exists>ix p size. map_of ix = ext_after v (a_extid (a_vprops (l0_view l) v)) (a_extid (Some (map_of p))) (map_of (extid_index l)) \<and>
     p = merge_crdt_properties env (plugin_registry l) (hget_or [] (vertex_properties l) v) props \<and>
     apply_vertex_write env v props labels version now l =
       l\<lparr>vertex_tombstones := removeAll v (vertex_tombstones l), vertex_properties := hput v p (vertex_properties l),
         extid_index := ix, vertex_versions := hput v version (vertex_versions l),
         vertex_created_at := or_insert v now (vertex_created_at l), vertex_updated_at := hput v now (vertex_updated_at l),
         vertex_labels := hput v (append_unique_labels (hget_or [] (vertex_labels l) v) labels) (vertex_labels l),
         label_to_vids := index_labels v labels (label_to_vids l),
         graph := snd (add_vertex (graph l) v), mutation_count := mutation_count l + 1, estimated_size := size\<rparr>"
proof -
  let ?e = "hget_or [] (vertex_properties l) v"
  define p where "p = merge_crdt_properties env (plugin_registry l) ?e props"
  have p: "map_of p = a_join env (plugin_registry l) (map_of ?e) (map_of props)"
    unfolding p_def by (rule map_of_merge_crdt_properties [OF props])
  have old: "extid_of ?e = a_extid (a_vprops (l0_view l) v)"
    by (simp add: extid_of_def a_extid_def hget_or_def split: option.split)
  have quiet: "extid_of ?e = extid_of p" if "hget props ''ext_id'' = None"
    using that fun_cong [OF p, of "''ext_id''"] by (simp add: extid_of_def a_join_def)
  define l1 where "l1 = l\<lparr>vertex_tombstones := removeAll v (vertex_tombstones l), vertex_properties := hput v p (vertex_properties l)\<rparr>"
  define x where "x = (if hget props ''ext_id'' \<noteq> None then extid_of ?e else None)"
  obtain m where m: "(if hget props ''ext_id'' \<noteq> None then sync_extid_index v x (extid_of p) l1 else l1) =
      l1\<lparr>extid_index := m\<rparr>" "map_of m = ext_after v (extid_of ?e) (extid_of p) (map_of (extid_index l1))"
  proof (cases "hget props ''ext_id'' = None")
    case True
    then show ?thesis using that [of "extid_index l1"] quiet by simp
  next
    case False
    then show ?thesis
      using that sync_extid_index_eq [of v "extid_of ?e" "extid_of p" l1] by (auto simp: x_def)
  qed
  have "map_of m = ext_after v (a_extid (a_vprops (l0_view l) v)) (a_extid (Some (map_of p))) (map_of (extid_index l))"
    using m(2) unfolding old extid_of_abs [of p] by (simp add: l1_def)
  moreover have "apply_vertex_write env v props labels version now l =
       l\<lparr>vertex_tombstones := removeAll v (vertex_tombstones l), vertex_properties := hput v p (vertex_properties l),
         extid_index := m, vertex_versions := hput v version (vertex_versions l),
         vertex_created_at := or_insert v now (vertex_created_at l), vertex_updated_at := hput v now (vertex_updated_at l),
         vertex_labels := hput v (append_unique_labels (hget_or [] (vertex_labels l) v) labels) (vertex_labels l),
         label_to_vids := index_labels v labels (label_to_vids l),
         graph := snd (add_vertex (graph l) v), mutation_count := mutation_count l + 1,
         estimated_size := estimated_size l + (8 + estimate_properties_size props + 16 + labels_size labels + 32)\<rparr>"
    unfolding apply_vertex_write_def Let_def p_def [symmetric] l1_def [symmetric] x_def [symmetric] m(1)
    by (simp add: l1_def index_labels_for_vid_def)
  ultimately show ?thesis using p_def by blast
qed

lemma dom_hput [simp]: "dom (map_of (hput k v m)) = insert k (dom (map_of m))"
  by (auto split: if_splits)

lemma dom_hdel [simp]: "dom (map_of (hdel k m)) = dom (map_of m) - {k}"
  by (auto split: if_splits)

lemma topo_insert_vertex:
  assumes ok: "topo_ok l"
  shows "topo_ok (l\<lparr>vertex_tombstones := removeAll v (vertex_tombstones l),
     vertex_properties := hput v p (vertex_properties l), graph := snd (add_vertex (graph l) v)\<rparr>)"
proof -
  have g: "graph_ok (graph l)" "sg.no_dangling (graph l)" using ok by (simp_all add: topo_ok_def)
  note a = add_vertex_ok [OF g(1), of v] sg.no_dangling_addv [OF g, of v]
  show ?thesis
    using ok a unfolding topo_ok_def live_edge_def by (simp add: distinct_removeAll) blast
qed

lemma ext_after_Some:
  "ext_after v x y ext k = Some w \<Longrightarrow> (w = v \<and> y = Some k \<and> x \<noteq> y) \<or> (ext k = Some w \<and> (x = y \<or> x \<noteq> Some k \<or> w \<noteq> v))"
  by (auto simp: ext_after_def split: if_splits)

lemma extid_view: "Option.bind (hget (vertex_properties l) v) extid_of = a_extid (a_vprops (l0_view l) v)"
  by (cases "hget (vertex_properties l) v") (simp_all add: extid_of_def a_extid_def)

lemma extid_soundD: "extid_sound l \<Longrightarrow> hget (extid_index l) x = Some v \<Longrightarrow> a_extid (a_vprops (l0_view l) v) = Some x"
  unfolding extid_sound_def extid_view by blast

lemma extid_sound_write:
  assumes ok: "extid_sound l" and ix: "map_of ix = ext_after v (a_extid (a_vprops (l0_view l) v)) (a_extid (Some (map_of p))) (map_of (extid_index l))"
  shows "extid_sound (l\<lparr>vertex_properties := hput v p (vertex_properties l), extid_index := ix\<rparr>)"
proof -
  have "Option.bind (if w = v then Some p else hget (vertex_properties l) w) extid_of = Some k"
    if "hget ix k = Some w" for k w
  proof (cases "w = v")
    case True
    have "a_extid (Some (map_of p)) = Some k"
      using ext_after_Some [OF that [unfolded ix]] True extid_soundD [OF ok, of k v] by metis
    then show ?thesis using True by (simp add: extid_of_abs)
  next
    case False
    then have "hget (extid_index l) k = Some w" using ext_after_Some [OF that [unfolded ix]] by blast
    then show ?thesis using ok False by (simp add: extid_sound_def)
  qed
  then show ?thesis by (simp add: extid_sound_def)
qed

lemma apply_vertex_write_ok:
  assumes ok: "l0_ok l" and props: "hmap_ok props"
  shows "l0_ok (apply_vertex_write env v props labels version now l) \<and>
    l0_view (apply_vertex_write env v props labels version now l) =
      a_insert_vertex env (plugin_registry l) v (map_of props) labels (l0_view l)"
proof -
  obtain ix p size where ix: "map_of ix = ext_after v (a_extid (a_vprops (l0_view l) v)) (a_extid (Some (map_of p))) (map_of (extid_index l))"
    and p: "p = merge_crdt_properties env (plugin_registry l) (hget_or [] (vertex_properties l) v) props"
    and eq: "apply_vertex_write env v props labels version now l =
       l\<lparr>vertex_tombstones := removeAll v (vertex_tombstones l), vertex_properties := hput v p (vertex_properties l),
         extid_index := ix, vertex_versions := hput v version (vertex_versions l),
         vertex_created_at := or_insert v now (vertex_created_at l), vertex_updated_at := hput v now (vertex_updated_at l),
         vertex_labels := hput v (append_unique_labels (hget_or [] (vertex_labels l) v) labels) (vertex_labels l),
         label_to_vids := index_labels v labels (label_to_vids l),
         graph := snd (add_vertex (graph l) v), mutation_count := mutation_count l + 1, estimated_size := size\<rparr>"
    using apply_vertex_write_eq [OF props, where l = l and v = v and env = env and labels = labels and version = version and now = now]
    by blast
  let ?l = "apply_vertex_write env v props labels version now l"
  note parts = l0_okD [OF ok]
  have "hmap_ok (hget_or [] (vertex_properties l) v)"
    using parts(2) by (auto simp: maps_ok_def hget_or_def split: option.split)
  then have hp: "hmap_ok p" unfolding p using props by blast
  have mp: "map_of p = a_join env (plugin_registry l) (case a_vprops (l0_view l) v of None \<Rightarrow> Map.empty | Some q \<Rightarrow> q) (map_of props)"
    unfolding p map_of_merge_crdt_properties [OF props] by (simp add: hget_or_def split: option.split)
  have "topo_ok ?l" using topo_insert_vertex [OF parts(1), of v p] unfolding eq by (simp add: topo_ok_def live_edge_def)
  moreover have "maps_ok ?l" using parts(2) hp unfolding eq by (auto simp: maps_ok_def)
  moreover have "extid_sound ?l" using extid_sound_write [OF parts(3) ix] unfolding eq by (simp add: extid_sound_def)
  moreover have "keys_ok ?l" using parts(4) unfolding eq by (simp add: keys_ok_def)
  moreover have "labels_sound ?l"
    using parts(5) unfolding eq labels_sound_def vids_for_label_def by (auto simp: set_index_labels split: if_splits)
  moreover have "l0_view ?l = a_insert_vertex env (plugin_registry l) v (map_of props) labels (l0_view l)"
    using add_vertex_ok [of "graph l" v] parts(1) unfolding eq a_insert_vertex_def Let_def mp [symmetric]
    by (simp add: topo_ok_def l0_view_def ix update_conv' hget_or_def fun_eq_iff)
  ultimately show ?thesis by (simp add: l0_ok_def)
qed

lemma l0_ok_frame:
  "l0_ok (l\<lparr>current_version := c\<rparr>) = l0_ok l" "l0_ok (wal_append mu l) = l0_ok l" "l0_ok (add_stats f l) = l0_ok l"
  "l0_ok (l\<lparr>statement := st\<rparr>) = l0_ok l" "l0_ok (l\<lparr>estimated_size := n\<rparr>) = l0_ok l"
  "l0_ok (l\<lparr>created_vertices := vs\<rparr>) = l0_ok l" "l0_ok (l\<lparr>created_edges := es\<rparr>) = l0_ok l"
  "l0_ok (l\<lparr>edge_updated_at := ts\<rparr>) = l0_ok l" "l0_ok (l\<lparr>edge_created_at := ts\<rparr>) = l0_ok l"
  "l0_ok (l\<lparr>vertex_labels_before := lb\<rparr>) = l0_ok l" "l0_ok (l\<lparr>plugin_registry := r\<rparr>) = l0_ok l"
  "l0_ok (l\<lparr>vertex_updated_at := vts\<rparr>) = l0_ok l" "l0_ok (l\<lparr>vertex_created_at := vts\<rparr>) = l0_ok l"
  "l0_ok (l\<lparr>pending_embeddings := pe\<rparr>) = l0_ok l"
  by (simp_all add: l0_ok_def l0_inv_defs wal_append_def add_stats_def)

lemma l0_view_frame:
  "l0_view (l\<lparr>current_version := c\<rparr>) = l0_view l" "l0_view (wal_append mu l) = l0_view l" "l0_view (add_stats f l) = l0_view l"
  "l0_view (l\<lparr>statement := st\<rparr>) = l0_view l" "l0_view (l\<lparr>estimated_size := n\<rparr>) = l0_view l"
  "l0_view (l\<lparr>created_vertices := vs\<rparr>) = l0_view l" "l0_view (l\<lparr>created_edges := es\<rparr>) = l0_view l"
  "l0_view (l\<lparr>edge_updated_at := ts\<rparr>) = l0_view l" "l0_view (l\<lparr>edge_created_at := ts\<rparr>) = l0_view l"
  "l0_view (l\<lparr>vertex_labels_before := lb\<rparr>) = l0_view l" "l0_view (l\<lparr>plugin_registry := r\<rparr>) = l0_view l"
  "l0_view (l\<lparr>vertex_updated_at := vts\<rparr>) = l0_view l" "l0_view (l\<lparr>vertex_created_at := vts\<rparr>) = l0_view l"
  "l0_view (l\<lparr>pending_embeddings := pe\<rparr>) = l0_view l"
  by (simp_all add: l0_view_def wal_append_def add_stats_def)

lemma registry_frame [simp]:
  "plugin_registry (wal_append mu l) = plugin_registry l" "plugin_registry (add_stats f l) = plugin_registry l"
  by (simp_all add: wal_append_def add_stats_def)

lemma insert_vertex_impl_ok:
  assumes "l0_ok l" "hmap_ok props"
  shows "l0_ok (insert_vertex_with_labels_impl env now v props labels skip l) \<and>
    l0_view (insert_vertex_with_labels_impl env now v props labels skip l) =
      a_insert_vertex env (plugin_registry l) v (map_of props) labels (l0_view l)"
  using assms by (simp add: insert_vertex_with_labels_impl_def Let_def apply_vertex_write_ok l0_ok_frame l0_view_frame)

text \<open>The topology part of the invariant is about four fields.\<close>

lemma topo_ok_cong:
  "graph l = graph l' \<Longrightarrow> tombstones l = tombstones l' \<Longrightarrow> edge_endpoints l = edge_endpoints l' \<Longrightarrow>
   vertex_tombstones l = vertex_tombstones l' \<Longrightarrow> topo_ok l = topo_ok l'"
  by (simp add: topo_ok_def live_edge_def)

end
