(* ===== verification/L0_Refinement.thy ===== *)
theory L0_Refinement
  imports L0_Invariant
begin

text \<open>
  Deletions and edge writes refine the abstract state, and any sequence of operations keeps the
  invariant: the buffer's part of the correctness of a transaction.
\<close>

subsection \<open>Deletions\<close>

lemma a_drop_empty [simp]: "a_drop {} a = a"
  by (simp add: a_drop_def)

lemma a_drop_insert: "a_drop I (a_drop {i} a) = a_drop (insert i I) a"
  by (auto simp: a_drop_def fun_eq_iff intro!: l0_abs.equality)

definition kept_by_delete :: "'p l0_buffer \<Rightarrow> 'p l0_buffer \<Rightarrow> bool" where
  "kept_by_delete l l' \<longleftrightarrow> plugin_registry l' = plugin_registry l \<and> current_version l' = current_version l \<and>
     wal l' = wal l \<and> vertex_labels l' = vertex_labels l \<and> vertex_label_overwrites l' = vertex_label_overwrites l \<and>
     vertex_created_at l' = vertex_created_at l \<and> vertex_updated_at l' = vertex_updated_at l"

lemma kept_by_delete_refl [simp]: "kept_by_delete l l"
  by (simp add: kept_by_delete_def)

lemma kept_by_delete_trans: "kept_by_delete l l1 \<Longrightarrow> kept_by_delete l1 l2 \<Longrightarrow> kept_by_delete l l2"
  by (simp add: kept_by_delete_def)

lemma graph_edge_live: "topo_ok l \<Longrightarrow> graph_edge (graph l) i = map_option (entry_of i) (live_edge l i)"
  by (simp add: topo_ok_def)

lemma topo_remove_edge:
  assumes ok: "topo_ok l" and g: "remove_edge (graph l) i = Some (r, g)"
    and dead: "hget ts i \<noteq> None \<or> hget ep i = None"
    and other: "\<And>j. j \<noteq> i \<Longrightarrow> hget ts j = hget (tombstones l) j \<and> hget ep j = hget (edge_endpoints l) j"
  shows "topo_ok (l\<lparr>graph := g, tombstones := ts, edge_endpoints := ep\<rparr>)"
proof -
  have l: "graph_ok (graph l)" "sg.no_dangling (graph l)" using ok by (simp_all add: topo_ok_def)
  have e: "graph_ok g" "verts g = verts (graph l)" "graph_edge g = (graph_edge (graph l))(i := None)"
    using remove_edge_law [OF l(1), of i] g by auto
  have "graph_edge g j = map_option (entry_of j) (if hget ts j = None then hget ep j else None)" for j
    using dead other [of j] graph_edge_live [OF ok, of j] by (cases "j = i") (auto simp: e(3) live_edge_def)
  then show ?thesis using ok e sg.no_dangling_reme [OF l g] by (simp add: topo_ok_def live_edge_def)
qed

lemma keys_ok_retire: "keys_ok l \<Longrightarrow> keys_ok (retire_edge_constraint_keys i l)"
  by (simp add: keys_ok_def retire_edge_constraint_keys_def owned_ok_drop)

lemma cascade_edge_ok:
  assumes ok: "l0_ok l"
  shows "\<exists>l'. cascade_edge ver i l = Some (case hget (edge_endpoints l) i of None \<Rightarrow> [] | Some e \<Rightarrow> [te_of i e], l') \<and>
    l0_ok l' \<and> l0_view l' = a_drop {i} (l0_view l) \<and> kept_by_delete l l'"
proof (cases "hget (edge_endpoints l) i")
  case None
  then have "a_drop {i} (l0_view l) = l0_view l" by (auto simp: a_drop_def fun_eq_iff intro!: l0_abs.equality)
  then show ?thesis using None ok by (simp add: cascade_edge_def)
next
  case (Some e)
  obtain s d t where e: "e = (s, d, t)" by (cases e)
  note parts = l0_okD [OF ok]
  have g: "graph_ok (graph l)" using parts(1) by (simp add: topo_ok_def)
  obtain g' where g': "remove_edge (graph l) i = Some (graph_edge (graph l) i, g')" "verts g' = verts (graph l)"
    using remove_edge_law [OF g, of i] by blast
  let ?entry = "\<lparr>te_eid = i, te_src = s, te_dst = d, te_type = t\<rparr>"
  define l2 where "l2 = retire_edge_constraint_keys i
    (l\<lparr>tombstones := hput i ?entry (tombstones l), edge_versions := hput i ver (edge_versions l),
       edge_endpoints := hdel i (edge_endpoints l), edge_properties := hdel i (edge_properties l)\<rparr>)"
  let ?l' = "add_stats (\<lambda>s. s\<lparr>relationships_deleted := relationships_deleted s + 1\<rparr>)
    (l2\<lparr>graph := g', mutation_count := mutation_count l2 + 1\<rparr>)"
  have run: "cascade_edge ver i l = Some ([?entry], ?l')"
    using Some e g'(1) by (simp add: cascade_edge_def Let_def l2_def retire_edge_constraint_keys_def)
  have "topo_ok ?l'"
    using topo_remove_edge [OF parts(1) g'(1), of "hput i ?entry (tombstones l)" "hdel i (edge_endpoints l)"]
    by (simp add: l2_def retire_edge_constraint_keys_def add_stats_def topo_ok_def live_edge_def)
  moreover have "maps_ok ?l'"
    using parts(2) by (auto simp: l2_def retire_edge_constraint_keys_def add_stats_def maps_ok_def)
  moreover have "extid_sound ?l'" "labels_sound ?l'" "keys_ok ?l'"
    using parts(3-5) keys_ok_retire [OF parts(4), of i]
    by (simp_all add: l2_def retire_edge_constraint_keys_def add_stats_def l0_inv_defs)
  moreover have "l0_view ?l' = a_drop {i} (l0_view l)"
    using g'(2) Some
    by (auto simp: l2_def retire_edge_constraint_keys_def add_stats_def l0_view_def a_drop_def fun_eq_iff te_of_def e)
  moreover have "kept_by_delete l ?l'"
    by (simp add: kept_by_delete_def l2_def retire_edge_constraint_keys_def add_stats_def)
  ultimately show ?thesis using run Some e by (simp add: l0_ok_def te_of_def)
qed

lemma cascade_edges_ok:
  assumes "l0_ok l" and "distinct eids"
  shows "\<exists>l'. cascade_edges ver eids l =
      Some (concat (map (\<lambda>i. case hget (edge_endpoints l) i of None \<Rightarrow> [] | Some e \<Rightarrow> [te_of i e]) eids), l') \<and>
    l0_ok l' \<and> l0_view l' = a_drop (set eids) (l0_view l) \<and> kept_by_delete l l'"
  using assms
proof (induction eids arbitrary: l)
  case Nil
  then show ?case by simp
next
  case (Cons i eids)
  obtain l1 where l1: "cascade_edge ver i l = Some (case hget (edge_endpoints l) i of None \<Rightarrow> [] | Some e \<Rightarrow> [te_of i e], l1)"
    "l0_ok l1" "l0_view l1 = a_drop {i} (l0_view l)" "kept_by_delete l l1"
    using cascade_edge_ok [OF Cons.prems(1)] by blast
  obtain l2 where l2: "cascade_edges ver eids l1 =
      Some (concat (map (\<lambda>i. case hget (edge_endpoints l1) i of None \<Rightarrow> [] | Some e \<Rightarrow> [te_of i e]) eids), l2)"
    "l0_ok l2" "l0_view l2 = a_drop (set eids) (l0_view l1)" "kept_by_delete l1 l2"
    using Cons.IH [OF l1(2)] Cons.prems(2) by auto
  have "hget (edge_endpoints l1) j = hget (edge_endpoints l) j" if "j \<in> set eids" for j
    using arg_cong [OF l1(3), of "\<lambda>a. a_endp a j"] that Cons.prems(2) by (auto simp: a_drop_def split: if_splits)
  then have same: "map (\<lambda>i. case hget (edge_endpoints l1) i of None \<Rightarrow> [] | Some e \<Rightarrow> [te_of i e]) eids =
      map (\<lambda>i. case hget (edge_endpoints l) i of None \<Rightarrow> [] | Some e \<Rightarrow> [te_of i e]) eids"
    by (simp cong: map_cong)
  show ?case
    using l1 l2(2-) l2(1) [unfolded same] kept_by_delete_trans [OF l1(4) l2(4)] by (simp add: a_drop_insert)
qed

lemma incident_edges_ok:
  assumes "topo_ok l"
  shows "distinct (incident_edges (graph l) v)" "set (incident_edges (graph l) v) = {i. at_vertex v (live_edge l i)}"
proof -
  have g: "graph_ok (graph l)" using assms by (simp add: topo_ok_def)
  show "distinct (incident_edges (graph l) v)" 
    unfolding incident_edges_def by (intro distinct_fold_hset_insert distinct.simps(1) [THEN iffD2] TrueI)
  have mem: "i \<in> set (incident_edges (graph l) v) \<longleftrightarrow>
      (\<exists>e. ee_eid e = i \<and> graph_edge (graph l) (ee_eid e) = Some e \<and> (ee_src e = v \<or> ee_dst e = v))" for i
    unfolding incident_edges_def set_fold_hset_insert set_map neighbors_set [OF g] by (auto simp only: image_iff list.set)
  have "set (incident_edges (graph l) v) = {i. \<exists>e. graph_edge (graph l) i = Some e \<and> (ee_src e = v \<or> ee_dst e = v)}"
  proof (intro set_eqI iffI)
    fix i
    assume "i \<in> set (incident_edges (graph l) v)"
    then show "i \<in> {i. \<exists>e. graph_edge (graph l) i = Some e \<and> (ee_src e = v \<or> ee_dst e = v)}"
      unfolding mem by (auto simp del: split_paired_Ex)
  next
    fix i
    assume "i \<in> {i. \<exists>e. graph_edge (graph l) i = Some e \<and> (ee_src e = v \<or> ee_dst e = v)}"
    then obtain e where e: "graph_edge (graph l) i = Some e" "ee_src e = v \<or> ee_dst e = v" by blast
    show "i \<in> set (incident_edges (graph l) v)" unfolding mem using e graph_edge_eid [OF g e(1)] by metis
  qed
  also have "\<dots> = {i. at_vertex v (live_edge l i)}"
    unfolding graph_edge_live [OF assms] by (auto simp: at_vertex_def entry_of_def split: option.splits prod.splits)
  finally show "set (incident_edges (graph l) v) = {i. at_vertex v (live_edge l i)}" .
qed

lemma a_live_view [simp]: "a_live (l0_view l) i = live_edge l i"
  by (simp add: a_live_def live_edge_def)

lemma drop_extid_eq:
  assumes "extid_sound l"
  shows "\<exists>m. drop_extid v l = l\<lparr>extid_index := m\<rparr> \<and>
    map_of m = (\<lambda>k. if hget (extid_index l) k = Some v then None else hget (extid_index l) k)"
proof (cases "Option.bind (hget (vertex_properties l) v) extid_of")
  case None
  then have "map_of (extid_index l) = (\<lambda>k. if hget (extid_index l) k = Some v then None else hget (extid_index l) k)"
    using assms by (auto simp: extid_sound_def fun_eq_iff)
  moreover have "drop_extid v l = l\<lparr>extid_index := extid_index l\<rparr>" using None by (simp add: drop_extid_def)
  ultimately show ?thesis by blast
next
  case (Some x)
  let ?m = "if hget (extid_index l) x = Some v then hdel x (extid_index l) else extid_index l"
  have uniq: "k = x" if "hget (extid_index l) k = Some v" for k
    using extid_soundD [OF assms that] Some unfolding extid_view by simp
  have "hget ?m k = (if hget (extid_index l) k = Some v then None else hget (extid_index l) k)" for k
    using uniq [of k] by (cases "k = x") auto
  then have "map_of ?m = (\<lambda>k. if hget (extid_index l) k = Some v then None else hget (extid_index l) k)"
    by (rule ext)
  moreover have "drop_extid v l = l\<lparr>extid_index := ?m\<rparr>" using Some by (simp add: drop_extid_def)
  ultimately show ?thesis by blast
qed

lemma topo_remove_vertex:
  assumes ok: "topo_ok l" and none: "\<And>i. \<not> at_vertex v (live_edge l i)" and g: "remove_vertex (graph l) v = Some g"
  shows "topo_ok (l\<lparr>graph := g, vertex_tombstones := hset_insert v (vertex_tombstones l),
    vertex_properties := hdel v (vertex_properties l)\<rparr>) \<and> verts g = verts (graph l) - {v}"
proof -
  have l: "graph_ok (graph l)" "sg.no_dangling (graph l)" using ok by (simp_all add: topo_ok_def)
  have e: "graph_ok g" "verts g = verts (graph l) - {v}"
    "graph_edge g = drop_edges (\<lambda>e. ee_src e = v \<or> ee_dst e = v) (graph_edge (graph l))"
    using remove_vertex_ok [OF l(1), of v] g by auto
  have "graph_edge g = graph_edge (graph l)"
    unfolding e(3)
  proof (rule drop_edges_none)
    fix i e
    assume "graph_edge (graph l) i = Some e"
    then show "\<not> (ee_src e = v \<or> ee_dst e = v)"
      using none [of i] unfolding graph_edge_live [OF ok]
      by (auto simp: at_vertex_def entry_of_def split: option.splits prod.splits)
  qed
  then have "graph_edge g i = map_option (entry_of i) (live_edge l i)" for i
    using graph_edge_live [OF ok] by simp
  moreover have "verts (graph l) \<inter> set (vertex_tombstones l) = {}" "distinct (vertex_tombstones l)"
    using ok by (auto simp: topo_ok_def)
  ultimately show ?thesis
    using e(1,2) sg.no_dangling_remv [OF l g] by (auto simp: topo_ok_def live_edge_def)
qed

text \<open>The edges a deletion takes along, in the order in which it reports them.\<close>

definition cascaded_entries :: "'p l0_buffer \<Rightarrow> vid \<Rightarrow> tombstone_entry list" where
  "cascaded_entries l v =
     concat (map (\<lambda>i. case hget (edge_endpoints l) i of None \<Rightarrow> [] | Some e \<Rightarrow> [te_of i e]) (incident_edges (graph l) v))"

lemma apply_vertex_deletion_ok:
  assumes ok: "l0_ok l"
  shows "\<exists>l'. apply_vertex_deletion v l = Some (cascaded_entries l v, l') \<and> l0_ok l' \<and>
    l0_view l' = a_delete_vertex v (l0_view l) \<and> kept_by_delete l l' \<and>
    (\<forall>label. v \<notin> set (vids_for_label l' label)) \<and>
    (\<forall>k. hget (constraint_index l') k \<noteq> Some v) \<and> (\<forall>k. hget (merge_guard_index l') k \<noteq> Some v)"
proof -
  note inc = incident_edges_ok [OF l0_okD(1) [OF ok], of v]
  obtain l1 where l1: "cascade_edges (current_version l) (incident_edges (graph l) v) l = Some (cascaded_entries l v, l1)"
    "l0_ok l1" "l0_view l1 = a_drop {i. at_vertex v (live_edge l i)} (l0_view l)" "kept_by_delete l l1"
    using cascade_edges_ok [OF ok inc(1)] inc(2) by (auto simp: cascaded_entries_def)
  have none: "\<not> at_vertex v (live_edge l1 i)" for i
    using arg_cong [OF l1(3), of "\<lambda>a. a_live a i"]
    by (auto simp: a_live_def a_drop_def at_vertex_def live_edge_def split: if_splits option.splits)
  define l2 where "l2 = (remove_vid_from_label_index v l1)\<lparr>vertex_tombstones := hset_insert v (vertex_tombstones l1)\<rparr>"
  obtain lm where lm: "remove_vid_from_label_index v l1 = l1\<lparr>label_to_vids := lm\<rparr>"
    using remove_vid_label_index by blast
  have l2: "l2 = l1\<lparr>label_to_vids := lm, vertex_tombstones := hset_insert v (vertex_tombstones l1)\<rparr>"
    by (simp add: l2_def lm)
  note parts = l0_okD [OF l1(2)]
  have "extid_sound l2" using parts(3) by (simp add: l2 extid_sound_def)
  then obtain m where m: "drop_extid v l2 = l2\<lparr>extid_index := m\<rparr>"
    "map_of m = (\<lambda>k. if hget (extid_index l1) k = Some v then None else hget (extid_index l1) k)"
    using drop_extid_eq by (fastforce simp: l2)
  obtain g where g: "remove_vertex (graph l1) v = Some g"
    using remove_vertex_ok [of "graph l1" v] parts(1) by (auto simp: topo_ok_def)
  let ?l3 = "l1\<lparr>label_to_vids := lm, vertex_tombstones := hset_insert v (vertex_tombstones l1), extid_index := m,
    vertex_properties := hdel v (vertex_properties l1), vertex_versions := hput v (current_version l) (vertex_versions l1),
    graph := g, mutation_count := mutation_count l1 + 1\<rparr>"
  define st where "st = (if v \<notin> set (vertex_tombstones l1)
    then (stats l1)\<lparr>nodes_deleted := nodes_deleted (stats l1) + 1\<rparr> else stats l1)"
  define l' where "l' = ?l3\<lparr>stats := st,
    constraint_index := drop_owned v (hget_or [] (constraint_keys_by_vid l1) v) (constraint_index l1),
    constraint_keys_by_vid := hdel v (constraint_keys_by_vid l1),
    merge_guard_index := drop_owned v (hget_or [] (merge_keys_by_vid l1) v) (merge_guard_index l1),
    merge_keys_by_vid := hdel v (merge_keys_by_vid l1),
    estimated_size := estimated_size l1 + (length (incident_edges (graph l) v) * 72 + 8)\<rparr>"
  have run: "apply_vertex_deletion v l = Some (cascaded_entries l v, l')"
    unfolding apply_vertex_deletion_def Let_def l1(1) option.case prod.case l2_def [unfolded lm, symmetric]
    using g m(1) by (auto simp: lm l2 l'_def st_def add_stats_def)
  note after = topo_remove_vertex [OF parts(1) none g]
  have topo: "topo_ok l'" by (rule iffD1 [OF topo_ok_cong conjunct1 [OF after]]) (simp_all add: l'_def)
  have "maps_ok l'" using parts(2) by (auto simp: l'_def maps_ok_def)
  moreover have "extid_sound l'"
    using parts(3) by (auto simp: l'_def extid_sound_def m(2) split: if_splits)
  moreover have "keys_ok l'" using parts(4) by (simp add: l'_def keys_ok_def owned_ok_drop)
  moreover have lab: "vids_for_label l' label = vids_for_label (remove_vid_from_label_index v l1) label" for label
    by (simp add: l'_def lm vids_for_label_def)
  moreover have "labels_sound l'"
    using labels_sound_remove_vid [OF parts(5), of v] unfolding labels_sound_def lab by (simp add: l'_def lm)
  moreover have "l0_view l' = a_delete_vertex v (l0_view l)"
  proof (rule l0_abs.equality)
    have v1: "a_verts (l0_view l1) = a_verts (l0_view l)" "a_vdel (l0_view l1) = a_vdel (l0_view l)"
      "a_vprops (l0_view l1) = a_vprops (l0_view l)" "a_labels (l0_view l1) = a_labels (l0_view l)"
      "a_types (l0_view l1) = a_types (l0_view l)" "a_ext (l0_view l1) = a_ext (l0_view l)"
      unfolding l1(3) by (simp_all add: a_drop_def)
    show "a_verts (l0_view l') = a_verts (a_delete_vertex v (l0_view l))" "a_vdel (l0_view l') = a_vdel (a_delete_vertex v (l0_view l))"
      using v1 conjunct2 [OF after] by (simp_all add: l'_def a_delete_vertex_def)
    show "a_endp (l0_view l') = a_endp (a_delete_vertex v (l0_view l))" "a_edel (l0_view l') = a_edel (a_delete_vertex v (l0_view l))"
      "a_eprops (l0_view l') = a_eprops (a_delete_vertex v (l0_view l))"
      using arg_cong [OF l1(3), of a_endp] arg_cong [OF l1(3), of a_edel] arg_cong [OF l1(3), of a_eprops]
      by (simp_all add: l'_def a_delete_vertex_def l0_view_def a_live_def live_edge_def)
    show "a_vprops (l0_view l') = a_vprops (a_delete_vertex v (l0_view l))"
      using v1(3) by (auto simp: l'_def a_delete_vertex_def fun_eq_iff)
    show "a_labels (l0_view l') = a_labels (a_delete_vertex v (l0_view l))" "a_types (l0_view l') = a_types (a_delete_vertex v (l0_view l))"
      "a_ext (l0_view l') = a_ext (a_delete_vertex v (l0_view l))"
      using v1(4-6) m(2) by (simp_all add: l'_def a_delete_vertex_def a_drop_def fun_eq_iff)
  qed simp
  moreover have "kept_by_delete l l'" using l1(4) by (simp add: kept_by_delete_def l'_def)
  moreover have "hget (constraint_index l') k \<noteq> Some v" "hget (merge_guard_index l') k \<noteq> Some v" for k
    using parts(4) by (simp_all add: l'_def keys_ok_def drop_owned_none)
  ultimately show ?thesis
    using run topo remove_vid_gone [OF parts(5), of v] by (simp add: l0_ok_def)
qed

lemma cascaded_entries_set:
  assumes "topo_ok l"
  shows "set (cascaded_entries l v) = {te_of i e | i e. live_edge l i = Some e \<and> at_vertex v (Some e)}"
proof -
  have mem: "t \<in> set (cascaded_entries l v) \<longleftrightarrow>
      (\<exists>i e. at_vertex v (live_edge l i) \<and> hget (edge_endpoints l) i = Some e \<and> t = te_of i e)" for t
    unfolding cascaded_entries_def set_concat set_map incident_edges_ok(2) [OF assms]
    by (auto split: option.splits) (metis)+
  have same: "at_vertex v (live_edge l i) \<and> hget (edge_endpoints l) i = Some e \<longleftrightarrow>
      live_edge l i = Some e \<and> at_vertex v (Some e)" for i e
    by (auto simp: live_edge_def at_vertex_def)
  show ?thesis
    by (rule set_eqI, simp only: mem mem_Collect_eq) (metis same)
qed

lemma delete_vertex_impl_ok:
  assumes "l0_ok l"
  shows "\<exists>l'. delete_vertex_impl v skip l = Some (cascaded_entries l v, l') \<and> l0_ok l' \<and>
    l0_view l' = a_delete_vertex v (l0_view l) \<and>
    plugin_registry l' = plugin_registry l \<and> current_version l' = current_version l + 1 \<and>
    vertex_labels l' = vertex_labels l \<and> vertex_label_overwrites l' = vertex_label_overwrites l \<and>
    (\<forall>label. v \<notin> set (vids_for_label l' label)) \<and>
    (\<forall>k. hget (constraint_index l') k \<noteq> Some v) \<and> (\<forall>k. hget (merge_guard_index l') k \<noteq> Some v)"
proof -
  let ?l1 = "l\<lparr>current_version := current_version l + 1\<rparr>"
  define l2 where "l2 = (if skip then ?l1 else wal_append (DeleteVertex v (hget_or [] (vertex_labels ?l1) v)) ?l1)"
  have l2: "l0_ok l2" "l0_view l2 = l0_view l" using assms by (simp_all add: l2_def l0_ok_frame l0_view_frame)
  have "cascaded_entries l2 v = cascaded_entries l v" by (simp add: cascaded_entries_def l2_def wal_append_def)
  then show ?thesis
    using apply_vertex_deletion_ok [OF l2(1), of v]
    by (auto simp: delete_vertex_impl_def Let_def l2_def [symmetric] l2(2) kept_by_delete_def)
      (auto simp: l2_def wal_append_def)
qed

subsection \<open>Edges\<close>

lemma apply_edge_deletion_ok:
  assumes ok: "l0_ok l"
  shows "\<exists>l'. apply_edge_deletion i s d t l = Some l' \<and> l0_ok l' \<and> l0_view l' = a_delete_edge i s d t (l0_view l) \<and>
    kept_by_delete l l' \<and> (\<forall>k. hget (edge_constraint_index l') k \<noteq> Some i)"
proof -
  note parts = l0_okD [OF ok]
  have g: "graph_ok (graph l)" using parts(1) by (simp add: topo_ok_def)
  obtain g' where g': "remove_edge (graph l) i = Some (graph_edge (graph l) i, g')" "verts g' = verts (graph l)"
    using remove_edge_law [OF g, of i] by blast
  define ts where "ts = hput i (te_of i (s, d, t)) (tombstones l)"
  define st where "st = (if hget (tombstones l) i = None
    then (stats l)\<lparr>relationships_deleted := relationships_deleted (stats l) + 1\<rparr> else stats l)"
  define l' where "l' = l\<lparr>tombstones := ts, edge_versions := hput i (current_version l) (edge_versions l),
    edge_constraint_index := drop_owned i (hget_or [] (edge_keys_by_eid l) i) (edge_constraint_index l),
    edge_keys_by_eid := hdel i (edge_keys_by_eid l),
    graph := g', mutation_count := mutation_count l + 1, estimated_size := estimated_size l + 80, stats := st\<rparr>"
  have run: "apply_edge_deletion i s d t l = Some l'"
    using g'(1) by (auto simp: apply_edge_deletion_def Let_def retire_edge_constraint_keys_def l'_def ts_def st_def te_of_def add_stats_def)
  have after: "topo_ok (l\<lparr>graph := g', tombstones := ts, edge_endpoints := edge_endpoints l\<rparr>)"
    by (rule topo_remove_edge [OF parts(1) g'(1)]) (simp_all add: ts_def)
  have "topo_ok l'" by (rule iffD1 [OF topo_ok_cong after]) (simp_all add: l'_def)
  moreover have "maps_ok l'" using parts(2) by (auto simp: l'_def maps_ok_def ts_def)
  moreover have "extid_sound l'" "labels_sound l'" "keys_ok l'"
    using parts(3-5) by (simp_all add: l'_def l0_inv_defs owned_ok_drop)
  moreover have "l0_view l' = a_delete_edge i s d t (l0_view l)"
    using g'(2) by (simp add: l'_def l0_view_def a_delete_edge_def ts_def update_conv')
  moreover have "hget (edge_constraint_index l') k \<noteq> Some i" for k
    using parts(4) by (simp add: l'_def keys_ok_def drop_owned_none)
  ultimately show ?thesis using run by (simp add: l0_ok_def kept_by_delete_def l'_def)
qed

lemma ensure_vertex_ok:
  assumes "graph_ok g" "sg.no_dangling g"
  shows "graph_ok (ensure_vertex g v) \<and> sg.no_dangling (ensure_vertex g v) \<and>
    verts (ensure_vertex g v) = insert v (verts g) \<and> graph_edge (ensure_vertex g v) = graph_edge g"
  using assms add_vertex_ok [of g v] sg.no_dangling_addv [of g v]
  by (auto simp: ensure_vertex_def contains_vertex_def verts_def)

lemma topo_insert_edge:
  assumes ok: "topo_ok l" and live: "s \<notin> set (vertex_tombstones l)" "d \<notin> set (vertex_tombstones l)"
  shows "\<exists>g. add_edge (ensure_vertex (ensure_vertex (graph l) s) d) s d i t = Some g \<and> verts g = verts (graph l) \<union> {s, d} \<and>
    topo_ok (l\<lparr>graph := g, tombstones := hdel i (tombstones l), edge_endpoints := hput i (s, d, t) (edge_endpoints l)\<rparr>)"
proof -
  have l: "graph_ok (graph l)" "sg.no_dangling (graph l)" using ok by (simp_all add: topo_ok_def)
  define h where "h = ensure_vertex (ensure_vertex (graph l) s) d"
  have h: "graph_ok h" "sg.no_dangling h" "verts h = verts (graph l) \<union> {s, d}" "graph_edge h = graph_edge (graph l)"
    using ensure_vertex_ok [OF l, of s] ensure_vertex_ok [of "ensure_vertex (graph l) s" d] by (auto simp: h_def)
  obtain g where g: "add_edge h s d i t = Some g" "graph_ok g" "verts g = verts h \<union> {s, d}"
    "graph_edge g = (graph_edge h)(i \<mapsto> \<lparr>ee_eid = i, ee_src = s, ee_dst = d, ee_type = t\<rparr>)"
    using add_edge_ok [OF h(1)] by blast
  have vs: "verts g = verts (graph l) \<union> {s, d}" using g(3) h(3) by auto
  have "graph_edge g j = map_option (entry_of j)
      (if hget (hdel i (tombstones l)) j = None then hget (hput i (s, d, t) (edge_endpoints l)) j else None)" for j
    using graph_edge_live [OF ok, of j] by (simp add: g(4) h(4) entry_of_def live_edge_def)
  moreover have "verts g \<inter> set (vertex_tombstones l) = {}" "distinct (vertex_tombstones l)"
    using ok live unfolding vs topo_ok_def by blast+
  ultimately have "topo_ok (l\<lparr>graph := g, tombstones := hdel i (tombstones l), edge_endpoints := hput i (s, d, t) (edge_endpoints l)\<rparr>)"
    using g(2) sg.no_dangling_adde [OF h(1,2) g(1)] by (simp add: topo_ok_def live_edge_def)
  then show ?thesis using g(1) vs h_def by blast
qed

end
