(* ===== verification/L0_Run.thy ===== *)
theory L0_Run
  imports L0_Refinement
begin

text \<open>
  Edge insertions, the uniqueness indexes, and sequences of operations: from an empty buffer, any
  sequence runs without a panic, keeps the invariant, and acts on the abstract state as the
  specification does. The properties of the buffer that the rest of the store relies on follow.
\<close>

subsection \<open>Edge insertions\<close>

definition deleted_endpoint :: "'p l0_buffer \<Rightarrow> vid \<Rightarrow> vid \<Rightarrow> l0_error option" where
  "deleted_endpoint l s d =
     (if s \<in> set (vertex_tombstones l) then Some (SourceDeleted s)
      else if d \<in> set (vertex_tombstones l) then Some (DestinationDeleted d) else None)"

lemma deleted_endpoint_cong: "vertex_tombstones l = vertex_tombstones l' \<Longrightarrow> deleted_endpoint l s d = deleted_endpoint l' s d"
  by (simp add: deleted_endpoint_def)

lemma apply_edge_insertion_error:
  "deleted_endpoint l s d = Some e \<Longrightarrow> apply_edge_insertion env s d t i props l = Some (Inl e, l)"
  by (auto simp: deleted_endpoint_def apply_edge_insertion_def split: if_splits)

lemma apply_edge_insertion_ok:
  assumes ok: "l0_ok l" and props: "hmap_ok props" and live: "deleted_endpoint l s d = None"
  shows "\<exists>l'. apply_edge_insertion env s d t i props l = Some (Inr (), l') \<and> l0_ok l' \<and>
    l0_view l' = a_insert_edge env (plugin_registry l) s d t i (map_of props) None (l0_view l) \<and> kept_by_delete l l'"
proof -
  note parts = l0_okD [OF ok]
  have live': "s \<notin> set (vertex_tombstones l)" "d \<notin> set (vertex_tombstones l)"
    using live by (auto simp: deleted_endpoint_def split: if_splits)
  obtain g where g: "add_edge (ensure_vertex (ensure_vertex (graph l) s) d) s d i t = Some g"
    "verts g = verts (graph l) \<union> {s, d}"
    "topo_ok (l\<lparr>graph := g, tombstones := hdel i (tombstones l), edge_endpoints := hput i (s, d, t) (edge_endpoints l)\<rparr>)"
    using topo_insert_edge [OF parts(1) live'] by blast
  define p where "p = merge_crdt_properties env (plugin_registry l) (hget_or [] (edge_properties l) i) props"
  define ep where "ep = (if props = [] then edge_properties l else hput i p (edge_properties l))"
  define l' where "l' = l\<lparr>graph := g, edge_properties := ep, edge_versions := hput i (current_version l) (edge_versions l),
    edge_endpoints := hput i (s, d, t) (edge_endpoints l), tombstones := hdel i (tombstones l),
    mutation_count := mutation_count l + 1,
    estimated_size := estimated_size l + (24 + estimate_properties_size props + 16 + 28 + 32)\<rparr>"
  have run: "apply_edge_insertion env s d t i props l = Some (Inr (), l')"
    using live' g(1) by (simp add: apply_edge_insertion_def Let_def l'_def ep_def p_def)
  have "hmap_ok (hget_or [] (edge_properties l) i)"
    using parts(2) by (auto simp: maps_ok_def hget_or_def split: option.split)
  then have hp: "hmap_ok p" unfolding p_def using props by blast
  have mp: "map_of p = a_join env (plugin_registry l) (case a_eprops (l0_view l) i of None \<Rightarrow> Map.empty | Some q \<Rightarrow> q) (map_of props)"
    unfolding p_def map_of_merge_crdt_properties [OF props] by (simp add: hget_or_def split: option.split)
  have "topo_ok l'" by (rule iffD1 [OF topo_ok_cong g(3)]) (simp_all add: l'_def)
  moreover have "maps_ok l'" using parts(2) hp by (auto simp: l'_def maps_ok_def ep_def)
  moreover have "extid_sound l'" "labels_sound l'" "keys_ok l'" using parts(3-5) by (simp_all add: l'_def l0_inv_defs)
  moreover have "l0_view l' = a_insert_edge env (plugin_registry l) s d t i (map_of props) None (l0_view l)"
    using g(2) mp by (cases props) (auto simp: l'_def l0_view_def a_insert_edge_def ep_def fun_eq_iff)
  ultimately show ?thesis using run by (simp add: l0_ok_def kept_by_delete_def l'_def)
qed

lemma insert_edge_impl_error:
  assumes "deleted_endpoint l s d = Some e"
  shows "\<exists>w. insert_edge_impl env now s d t i props tname skip l =
     Some (Inl e, l\<lparr>current_version := current_version l + 1, wal := w\<rparr>)"
proof -
  let ?l1 = "l\<lparr>current_version := current_version l + 1\<rparr>"
  define l2 where "l2 = (if skip then ?l1
    else wal_append (InsertEdge s d t i (current_version ?l1) props tname (Some now) (Some now)) ?l1)"
  have "deleted_endpoint l2 s d = deleted_endpoint l s d" by (rule deleted_endpoint_cong) (simp add: l2_def wal_append_def)
  then have "deleted_endpoint l2 s d = Some e" using assms by simp
  then have "insert_edge_impl env now s d t i props tname skip l = Some (Inl e, l2)"
    unfolding insert_edge_impl_def Let_def l2_def [symmetric] by (simp add: apply_edge_insertion_error)
  moreover have "l2 = l\<lparr>current_version := current_version l + 1, wal := wal l2\<rparr>"
    by (simp add: l2_def wal_append_def)
  ultimately show ?thesis by metis
qed

lemma insert_edge_impl_ok:
  assumes ok: "l0_ok l" and props: "hmap_ok props" and live: "deleted_endpoint l s d = None"
  shows "\<exists>l'. insert_edge_impl env now s d t i props tname skip l = Some (Inr (), l') \<and> l0_ok l' \<and>
    l0_view l' = a_insert_edge env (plugin_registry l) s d t i (map_of props) tname (l0_view l) \<and>
    plugin_registry l' = plugin_registry l \<and> current_version l' = current_version l + 1 \<and>
    vertex_labels l' = vertex_labels l \<and> vertex_label_overwrites l' = vertex_label_overwrites l"
proof -
  let ?l1 = "l\<lparr>current_version := current_version l + 1\<rparr>"
  define l2 where "l2 = (if skip then ?l1
    else wal_append (InsertEdge s d t i (current_version ?l1) props tname (Some now) (Some now)) ?l1)"
  have "deleted_endpoint l2 s d = deleted_endpoint l s d" by (rule deleted_endpoint_cong) (simp add: l2_def wal_append_def)
  then have l2: "l0_ok l2" "l0_view l2 = l0_view l" "deleted_endpoint l2 s d = None" "plugin_registry l2 = plugin_registry l"
    "current_version l2 = current_version l + 1" "vertex_labels l2 = vertex_labels l"
    "vertex_label_overwrites l2 = vertex_label_overwrites l"
    using ok live by (simp_all add: l2_def l0_ok_frame l0_view_frame) (simp_all add: wal_append_def)
  obtain l3 where l3: "apply_edge_insertion env s d t i props l2 = Some (Inr (), l3)" "l0_ok l3"
    "l0_view l3 = a_insert_edge env (plugin_registry l2) s d t i (map_of props) None (l0_view l2)" "kept_by_delete l2 l3"
    using apply_edge_insertion_ok [OF l2(1) props l2(3)] by blast
  define l' where "l' = l3\<lparr>edge_types := (case tname of Some name \<Rightarrow> hput i name (edge_types l3) | None \<Rightarrow> edge_types l3),
    edge_created_at := or_insert i now (edge_created_at l3), edge_updated_at := hput i now (edge_updated_at l3),
    estimated_size := estimated_size l3 + (case tname of Some name \<Rightarrow> length name + 24 | None \<Rightarrow> 0)\<rparr>"
  have run: "insert_edge_impl env now s d t i props tname skip l = Some (Inr (), l')"
    unfolding insert_edge_impl_def Let_def l2_def [symmetric] l3(1) by (simp add: l'_def)
  have "l0_ok l'" using l3(2) by (cases tname) (auto simp: l0_ok_def l'_def l0_inv_defs)
  moreover have "l0_view l' = a_insert_edge env (plugin_registry l) s d t i (map_of props) tname (l0_view l)"
    using l3(3) l2(2,4) by (cases tname) (simp_all add: l'_def l0_view_def a_insert_edge_def update_conv')
  ultimately show ?thesis using run l3(4) l2 by (simp add: kept_by_delete_def l'_def)
qed

lemma delete_edge_impl_ok:
  assumes ok: "l0_ok l"
  shows "\<exists>l'. delete_edge_impl now i s d t skip l = Some l' \<and> l0_ok l' \<and> l0_view l' = a_delete_edge i s d t (l0_view l) \<and>
    plugin_registry l' = plugin_registry l \<and> current_version l' = current_version l + 1 \<and>
    vertex_labels l' = vertex_labels l \<and> vertex_label_overwrites l' = vertex_label_overwrites l"
proof -
  let ?l1 = "l\<lparr>current_version := current_version l + 1\<rparr>"
  define l2 where "l2 = (if skip then ?l1
    else wal_append (DeleteEdge i s d t (current_version ?l1) (hget (edge_types ?l1) i)) ?l1)"
  have l2: "l0_ok l2" "l0_view l2 = l0_view l" "plugin_registry l2 = plugin_registry l"
    "current_version l2 = current_version l + 1" "vertex_labels l2 = vertex_labels l"
    "vertex_label_overwrites l2 = vertex_label_overwrites l"
    using ok by (simp_all add: l2_def l0_ok_frame l0_view_frame) (simp_all add: wal_append_def)
  obtain l3 where l3: "apply_edge_deletion i s d t l2 = Some l3" "l0_ok l3"
    "l0_view l3 = a_delete_edge i s d t (l0_view l2)" "kept_by_delete l2 l3"
    using apply_edge_deletion_ok [OF l2(1)] by blast
  then show ?thesis
    using l2 unfolding delete_edge_impl_def Let_def l2_def [symmetric]
    by (simp add: l0_ok_frame l0_view_frame kept_by_delete_def)
qed

subsection \<open>Uniqueness indexes\<close>

lemma owned_ok_replace:
  assumes "owned_ok index held"
  shows "owned_ok (hput k v (drop_owned v (filter stale (hget_or [] held v)) index))
    (hput v (hset_insert k (filter (\<lambda>j. \<not> stale j) (hget_or [] held v))) held)"
  using assms unfolding owned_ok_def by (auto simp: hget_drop_owned split: if_splits)

lemma insert_constraint_key_eq:
  "insert_constraint_key k v l =
     l\<lparr>constraint_keys_by_vid := hput v (hset_insert k (filter
          (\<lambda>old. \<not> (old \<noteq> k \<and> constraint_key_shape old = constraint_key_shape k)) (hget_or [] (constraint_keys_by_vid l) v)))
          (constraint_keys_by_vid l),
       constraint_index := hput k v (drop_owned v (filter
          (\<lambda>old. old \<noteq> k \<and> constraint_key_shape old = constraint_key_shape k) (hget_or [] (constraint_keys_by_vid l) v))
          (constraint_index l))\<rparr>"
  by (simp add: insert_constraint_key_def Let_def hset_insert_def)

lemma insert_constraint_key_ok: "l0_ok l \<Longrightarrow> l0_ok (insert_constraint_key k v l) \<and> l0_view (insert_constraint_key k v l) = l0_view l"
  using owned_ok_replace [of "constraint_index l" "constraint_keys_by_vid l" k v
      "\<lambda>old. old \<noteq> k \<and> constraint_key_shape old = constraint_key_shape k"]
  unfolding insert_constraint_key_eq
  by (simp add: l0_ok_def l0_inv_defs l0_view_def hmap_ok_hput hmap_ok_drop_owned)

lemma insert_edge_constraint_key_ok:
  "l0_ok l \<Longrightarrow> l0_ok (insert_edge_constraint_key k i l) \<and> l0_view (insert_edge_constraint_key k i l) = l0_view l"
  unfolding insert_edge_constraint_key_def
  by (simp add: l0_ok_def l0_inv_defs l0_view_def hmap_ok_hput owned_ok_insert)

lemma insert_merge_guard_key_ok:
  "l0_ok l \<Longrightarrow> l0_ok (insert_merge_guard_key k v l) \<and> l0_view (insert_merge_guard_key k v l) = l0_view l"
  unfolding insert_merge_guard_key_def
  by (simp add: l0_ok_def l0_inv_defs l0_view_def hmap_ok_hput owned_ok_insert)

subsection \<open>Sequences of operations\<close>

datatype l0_op =
    OpInsertVertex int vid properties "string list"
  | OpUpdateVertex int vid properties "string list"
  | OpDeleteVertex vid
  | OpInsertEdge int vid vid u32 eid properties "string option"
  | OpUpdateEdge int vid vid u32 eid properties "string option"
  | OpDeleteEdge int eid vid vid u32
  | OpRelabel vid "string list" "string list"
  | OpSetEdgeType eid string
  | OpConstraintKey bytes vid
  | OpEdgeConstraintKey bytes eid
  | OpMergeGuardKey bytes vid
  | OpBegin bool
  | OpEnd

text \<open>The buffer an operation leaves behind; the \<open>Result\<close> of an edge write is dropped.\<close>

fun l0_step :: "('j, 'p) l0_env \<Rightarrow> l0_op \<Rightarrow> 'p l0_buffer \<Rightarrow> 'p l0_buffer option" where
  "l0_step env (OpInsertVertex now v props labels) l = Some (insert_vertex_with_labels env now v props labels l)"
| "l0_step env (OpUpdateVertex now v props labels) l = Some (update_vertex_with_labels env now v props labels l)"
| "l0_step env (OpDeleteVertex v) l = map_option snd (delete_vertex v l)"
| "l0_step env (OpInsertEdge now s d t i props tname) l = map_option snd (insert_edge env now s d t i props tname l)"
| "l0_step env (OpUpdateEdge now s d t i props tname) l = map_option snd (update_edge env now s d t i props tname l)"
| "l0_step env (OpDeleteEdge now i s d t) l = delete_edge now i s d t l"
| "l0_step env (OpRelabel v previous labels) l = Some (relabel_vertex v previous labels l)"
| "l0_step env (OpSetEdgeType i tname) l = Some (set_edge_type i tname l)"
| "l0_step env (OpConstraintKey k v) l = Some (insert_constraint_key k v l)"
| "l0_step env (OpEdgeConstraintKey k i) l = Some (insert_edge_constraint_key k i l)"
| "l0_step env (OpMergeGuardKey k v) l = Some (insert_merge_guard_key k v l)"
| "l0_step env (OpBegin track) l = Some (begin_statement track l)"
| "l0_step env OpEnd l = Some (end_statement l)"

fun l0_run :: "('j, 'p) l0_env \<Rightarrow> l0_op list \<Rightarrow> 'p l0_buffer \<Rightarrow> 'p l0_buffer option" where
  "l0_run env [] l = Some l"
| "l0_run env (p # ps) l = Option.bind (l0_step env p l) (l0_run env ps)"

definition a_write_edge ::
  "('j, 'p) l0_env \<Rightarrow> 'p providers option \<Rightarrow> vid \<Rightarrow> vid \<Rightarrow> u32 \<Rightarrow> eid \<Rightarrow> (string \<Rightarrow> val option) \<Rightarrow> string option \<Rightarrow> l0_abs \<Rightarrow> l0_abs" where
  "a_write_edge env reg s d t i props tname a =
     (if s \<in> a_vdel a \<or> d \<in> a_vdel a then a else a_insert_edge env reg s d t i props tname a)"

fun a_step :: "('j, 'p) l0_env \<Rightarrow> 'p providers option \<Rightarrow> l0_op \<Rightarrow> l0_abs \<Rightarrow> l0_abs" where
  "a_step env reg (OpInsertVertex now v props labels) a = a_insert_vertex env reg v (map_of props) labels a"
| "a_step env reg (OpUpdateVertex now v props labels) a = a_insert_vertex env reg v (map_of props) labels a"
| "a_step env reg (OpDeleteVertex v) a = a_delete_vertex v a"
| "a_step env reg (OpInsertEdge now s d t i props tname) a = a_write_edge env reg s d t i (map_of props) tname a"
| "a_step env reg (OpUpdateEdge now s d t i props tname) a = a_write_edge env reg s d t i (map_of props) tname a"
| "a_step env reg (OpDeleteEdge now i s d t) a = a_delete_edge i s d t a"
| "a_step env reg (OpRelabel v previous labels) a = a_set_labels v labels a"
| "a_step env reg (OpSetEdgeType i tname) a = a\<lparr>a_types := (a_types a)(i \<mapsto> tname)\<rparr>"
| "a_step env reg _ a = a"

text \<open>Property maps passed to an operation are hash maps.\<close>

fun op_ok :: "l0_op \<Rightarrow> bool" where
  "op_ok (OpInsertVertex _ _ props _) = hmap_ok props"
| "op_ok (OpUpdateVertex _ _ props _) = hmap_ok props"
| "op_ok (OpInsertEdge _ _ _ _ _ props _) = hmap_ok props"
| "op_ok (OpUpdateEdge _ _ _ _ _ props _) = hmap_ok props"
| "op_ok _ = True"

definition a_empty :: l0_abs where
  "a_empty = \<lparr>a_verts = {}, a_vdel = {}, a_endp = Map.empty, a_edel = Map.empty, a_vprops = Map.empty,
     a_eprops = Map.empty, a_labels = Map.empty, a_types = Map.empty, a_ext = Map.empty\<rparr>"

lemma l0_view_new: "l0_view (l0_new n w) = a_empty"
  by (simp add: l0_view_def l0_new_def a_empty_def graph_new_def verts_def)

lemma insert_vertex_with_labels_ok:
  assumes "l0_ok l" "hmap_ok props"
  shows "l0_ok (insert_vertex_with_labels env now v props labels l) \<and>
    l0_view (insert_vertex_with_labels env now v props labels l) =
      a_insert_vertex env (plugin_registry l) v (map_of props) labels (l0_view l)"
  using insert_vertex_impl_ok [OF assms, where env = env and now = now and v = v and labels = labels and skip = False]
  by (simp add: insert_vertex_with_labels_def Let_def l0_ok_frame l0_view_frame)

lemma insert_edge_of_impl:
  assumes "insert_edge_impl env now s d t i props tname False l = Some (Inr (), l1)"
  shows "\<exists>l'. insert_edge env now s d t i props tname l = Some (Inr (), l') \<and> l0_ok l' = l0_ok l1 \<and>
    l0_view l' = l0_view l1 \<and> plugin_registry l' = plugin_registry l1"
  using assms by (simp add: insert_edge_def Let_def l0_ok_frame l0_view_frame)

lemma remove_vid_registry [simp]: "plugin_registry (remove_vid_from_label_index v l) = plugin_registry l"
  by (rule exE [OF remove_vid_label_index [of v l]]) simp

lemma set_vertex_labels_registry [simp]: "plugin_registry (set_vertex_labels v labels l) = plugin_registry l"
  by (simp add: set_vertex_labels_def Let_def index_labels_for_vid_def)

lemma sync_extid_registry [simp]: "plugin_registry (sync_extid_index v x y l) = plugin_registry l"
  by (simp add: sync_extid_index_def Let_def)

lemma insert_vertex_registry [simp]:
  "plugin_registry (insert_vertex_with_labels_impl env now v props labels skip l) = plugin_registry l"
  "plugin_registry (insert_vertex_with_labels env now v props labels l) = plugin_registry l"
proof -
  show 1: "plugin_registry (insert_vertex_with_labels_impl env now v props labels skip l) = plugin_registry l" for skip
    by (simp add: insert_vertex_with_labels_impl_def apply_vertex_write_def Let_def index_labels_for_vid_def)
  show "plugin_registry (insert_vertex_with_labels env now v props labels l) = plugin_registry l"
    by (simp add: insert_vertex_with_labels_def Let_def 1)
qed

lemma deleted_endpoint_iff: "deleted_endpoint l s d = None \<longleftrightarrow> \<not> (s \<in> a_vdel (l0_view l) \<or> d \<in> a_vdel (l0_view l))"
  by (simp add: deleted_endpoint_def)

lemma l0_step_edge:
  assumes "l0_ok l" "hmap_ok props"
  shows "\<exists>r l'. insert_edge_impl env now s d t i props tname skip l = Some (r, l') \<and> l0_ok l' \<and>
    l0_view l' = a_write_edge env (plugin_registry l) s d t i (map_of props) tname (l0_view l) \<and>
    plugin_registry l' = plugin_registry l \<and> (r = Inr () \<longleftrightarrow> deleted_endpoint l s d = None)"
proof (cases "deleted_endpoint l s d")
  case None
  then show ?thesis
    using insert_edge_impl_ok [OF assms None] None [unfolded deleted_endpoint_iff] by (fastforce simp: a_write_edge_def)
next
  case (Some e)
  then have dead: "s \<in> a_vdel (l0_view l) \<or> d \<in> a_vdel (l0_view l)" by (auto simp: deleted_endpoint_def split: if_splits)
  obtain w where w: "insert_edge_impl env now s d t i props tname skip l = Some (Inl e, l\<lparr>current_version := current_version l + 1, wal := w\<rparr>)"
    using insert_edge_impl_error [OF Some] by blast
  have "l0_ok (l\<lparr>current_version := current_version l + 1, wal := w\<rparr>)" using assms(1) by (simp add: l0_ok_def l0_inv_defs)
  moreover have "l0_view (l\<lparr>current_version := current_version l + 1, wal := w\<rparr>) = l0_view l" by (simp add: l0_view_def)
  ultimately show ?thesis using w dead Some by (simp add: a_write_edge_def)
qed

lemma l0_step_refines:
  assumes ok: "l0_ok l" and op: "op_ok p"
  shows "\<exists>l'. l0_step env p l = Some l' \<and> l0_ok l' \<and> l0_view l' = a_step env (plugin_registry l) p (l0_view l) \<and>
    plugin_registry l' = plugin_registry l"
proof (cases p)
  case (OpInsertVertex now v props labels)
  then show ?thesis using insert_vertex_with_labels_ok [OF ok] op by simp
next
  case (OpUpdateVertex now v props labels)
  then show ?thesis using insert_vertex_impl_ok [OF ok] op by (simp add: update_vertex_with_labels_def)
next
  case (OpDeleteVertex v)
  then show ?thesis using delete_vertex_impl_ok [OF ok, of v False] by (auto simp: delete_vertex_def)
next
  case (OpInsertEdge now s d t i props tname)
  then obtain r l1 where l1: "insert_edge_impl env now s d t i props tname False l = Some (r, l1)" "l0_ok l1"
    "l0_view l1 = a_write_edge env (plugin_registry l) s d t i (map_of props) tname (l0_view l)" "plugin_registry l1 = plugin_registry l"
    using l0_step_edge [OF ok, of props] op by (metis op_ok.simps(3))
  show ?thesis
  proof (cases r)
    case (Inl e)
    then show ?thesis using l1 OpInsertEdge by (simp add: insert_edge_def)
  next
    case (Inr u)
    then show ?thesis using l1 OpInsertEdge insert_edge_of_impl [of env now s d t i props tname l l1] by auto
  qed
next
  case (OpUpdateEdge now s d t i props tname)
  then obtain r l1 where "insert_edge_impl env now s d t i props tname False l = Some (r, l1)" "l0_ok l1"
    "l0_view l1 = a_write_edge env (plugin_registry l) s d t i (map_of props) tname (l0_view l)" "plugin_registry l1 = plugin_registry l"
    using l0_step_edge [OF ok, of props] op by (metis op_ok.simps(4))
  then show ?thesis using OpUpdateEdge by (simp add: update_edge_def)
next
  case (OpDeleteEdge now i s d t)
  then show ?thesis using delete_edge_impl_ok [OF ok, of now i s d t False] by (auto simp: delete_edge_def)
next
  case (OpRelabel v previous labels)
  have "l0_ok (l\<lparr>vertex_labels_before := or_insert v previous (vertex_labels_before l)\<rparr>)" using ok by (simp add: l0_ok_frame)
  then show ?thesis
    using set_vertex_labels_ok OpRelabel by (fastforce simp: relabel_vertex_def l0_view_frame)
next
  case (OpSetEdgeType i tname)
  then show ?thesis
    using ok by (auto simp: set_edge_type_def l0_ok_def l0_inv_defs l0_view_def update_conv')
next
  case (OpConstraintKey k v)
  then show ?thesis using insert_constraint_key_ok [OF ok] by (simp add: insert_constraint_key_eq)
next
  case (OpEdgeConstraintKey k i)
  then show ?thesis using insert_edge_constraint_key_ok [OF ok] by (simp add: insert_edge_constraint_key_def)
next
  case (OpMergeGuardKey k v)
  then show ?thesis using insert_merge_guard_key_ok [OF ok] by (simp add: insert_merge_guard_key_def)
next
  case (OpBegin track)
  then show ?thesis using ok by (simp add: begin_statement_def Let_def l0_ok_frame l0_view_frame)
next
  case OpEnd
  then show ?thesis using ok by (simp add: end_statement_def Let_def l0_ok_frame l0_view_frame)
qed

lemma l0_run_refines_from:
  assumes "l0_ok l" "list_all op_ok ps"
  shows "\<exists>l'. l0_run env ps l = Some l' \<and> l0_ok l' \<and> l0_view l' = fold (a_step env (plugin_registry l)) ps (l0_view l) \<and>
    plugin_registry l' = plugin_registry l"
  using assms
proof (induction ps arbitrary: l)
  case (Cons p ps)
  obtain l1 where "l0_step env p l = Some l1" "l0_ok l1" "l0_view l1 = a_step env (plugin_registry l) p (l0_view l)"
    "plugin_registry l1 = plugin_registry l"
    using l0_step_refines [OF Cons.prems(1)] Cons.prems(2) by fastforce
  then show ?case using Cons.IH [of l1] Cons.prems(2) by simp
qed simp

text \<open>The specification keeps properties on vertices of the graph.\<close>

lemma a_placed_step: "a_placed a \<Longrightarrow> a_placed (a_step env reg p a)"
  by (cases p) (auto simp: a_placed_def a_insert_vertex_def a_delete_vertex_def a_drop_def a_write_edge_def a_insert_edge_def
      a_delete_edge_def a_set_labels_def Let_def split: if_splits)

lemma a_placed_fold: "a_placed a \<Longrightarrow> a_placed (fold (a_step env reg) ps a)"
  by (induction ps arbitrary: a) (simp_all add: a_placed_step)

lemma a_placed_empty [simp]: "a_placed a_empty"
  by (simp add: a_placed_def a_empty_def)

lemma l0_new_registry [simp]: "plugin_registry (l0_new n w) = None"
  by (simp add: l0_new_def)

lemma l0_run_new:
  assumes "list_all op_ok ps"
  shows "\<exists>l. l0_run env ps (l0_new n w) = Some l \<and> l0_ok l \<and> l0_view l = fold (a_step env None) ps a_empty"
  using l0_run_refines_from [OF l0_ok_new assms, of env n w] unfolding l0_view_new l0_new_registry by blast

lemma l0_run_placed:
  assumes "list_all op_ok ps" "l0_run env ps ((l0_new n w)\<lparr>plugin_registry := reg\<rparr>) = Some l"
  shows "props_placed l"
proof -
  have "l0_view l = fold (a_step env reg) ps a_empty"
    using l0_run_refines_from [of "(l0_new n w)\<lparr>plugin_registry := reg\<rparr>" ps env] assms
    by (auto simp: l0_ok_frame l0_ok_new l0_view_frame l0_view_new)
  then show ?thesis by (simp add: props_placed_view a_placed_fold)
qed

subsection \<open>What the readers see\<close>

lemma get_neighbors_set:
  assumes "topo_ok l"
  shows "set (map (\<lambda>(u, i, _). (u, i)) (get_neighbors l v t Outgoing)) =
      {(u, i). get_edge_endpoint_full l i = Some (v, u, t) \<and> \<not> is_tombstoned l i}"
    "set (map (\<lambda>(u, i, _). (u, i)) (get_neighbors l v t Incoming)) =
      {(u, i). get_edge_endpoint_full l i = Some (u, v, t) \<and> \<not> is_tombstoned l i}"
proof -
  have g: "graph_ok (graph l)" using assms by (simp add: topo_ok_def)
  have edge: "graph_edge (graph l) (ee_eid e) = Some e \<longleftrightarrow>
      hget (edge_endpoints l) (ee_eid e) = Some (ee_src e, ee_dst e, ee_type e) \<and> hget (tombstones l) (ee_eid e) = None" for e
    unfolding graph_edge_live [OF assms]
    by (cases e) (auto simp: live_edge_def entry_of_def split: prod.splits)
  show "set (map (\<lambda>(u, i, _). (u, i)) (get_neighbors l v t Outgoing)) =
      {(u, i). get_edge_endpoint_full l i = Some (v, u, t) \<and> \<not> is_tombstoned l i}" (is "?lhs = ?rhs")
  proof (intro set_eqI iffI)
    fix x
    assume "x \<in> ?lhs"
    then show "x \<in> ?rhs"
      by (auto simp: get_neighbors_def neighbors_set [OF g] edge get_edge_endpoint_full_def is_tombstoned_def)
  next
    fix x
    assume "x \<in> ?rhs"
    then obtain u i where x: "x = (u, i)" "hget (edge_endpoints l) i = Some (v, u, t)" "hget (tombstones l) i = None"
      by (auto simp: get_edge_endpoint_full_def is_tombstoned_def)
    let ?e = "\<lparr>ee_eid = i, ee_src = v, ee_dst = u, ee_type = t\<rparr>"
    have "graph_edge (graph l) (ee_eid ?e) = Some ?e" unfolding edge using x by simp
    then have "?e \<in> set (neighbors (graph l) v Outgoing)" by (simp add: neighbors_set [OF g])
    then show "x \<in> ?lhs" using x by (force simp: get_neighbors_def is_tombstoned_def)
  qed
  show "set (map (\<lambda>(u, i, _). (u, i)) (get_neighbors l v t Incoming)) =
      {(u, i). get_edge_endpoint_full l i = Some (u, v, t) \<and> \<not> is_tombstoned l i}" (is "?lhs = ?rhs")
  proof (intro set_eqI iffI)
    fix x
    assume "x \<in> ?lhs"
    then show "x \<in> ?rhs"
      by (auto simp: get_neighbors_def neighbors_set [OF g] edge get_edge_endpoint_full_def is_tombstoned_def)
  next
    fix x
    assume "x \<in> ?rhs"
    then obtain u i where x: "x = (u, i)" "hget (edge_endpoints l) i = Some (u, v, t)" "hget (tombstones l) i = None"
      by (auto simp: get_edge_endpoint_full_def is_tombstoned_def)
    let ?e = "\<lparr>ee_eid = i, ee_src = u, ee_dst = v, ee_type = t\<rparr>"
    have "graph_edge (graph l) (ee_eid ?e) = Some ?e" unfolding edge using x by simp
    then have "?e \<in> set (neighbors (graph l) v Incoming)" by (simp add: neighbors_set [OF g])
    then show "x \<in> ?lhs" using x by (force simp: get_neighbors_def is_tombstoned_def)
  qed
qed

lemma mem_keys: "k \<in> set (map fst m) \<longleftrightarrow> hget m k \<noteq> None"
  by (simp add: map_of_eq_None_iff)

lemma all_edge_eids_live: "i \<in> set (all_edge_eids l) \<longleftrightarrow> live_edge l i \<noteq> None"
  unfolding all_edge_eids_def set_filter mem_Collect_eq mem_keys live_edge_def by simp

lemma live_edge_ends:
  assumes ok: "topo_ok l" and e: "live_edge l i = Some (s, d, t)"
  shows "s \<notin> set (vertex_tombstones l) \<and> d \<notin> set (vertex_tombstones l)"
proof -
  have "graph_edge (graph l) i = Some \<lparr>ee_eid = i, ee_src = s, ee_dst = d, ee_type = t\<rparr>"
    using graph_edge_live [OF ok, of i] e by (simp add: entry_of_def)
  moreover have "sg.no_dangling (graph l)" using ok by (simp add: topo_ok_def)
  ultimately have "s \<in> verts (graph l)" "d \<in> verts (graph l)"
    unfolding sg.no_dangling_def by fastforce+
  then show ?thesis using ok by (auto simp: topo_ok_def)
qed


text \<open>A trivial environment for the examples: nothing is a CRDT.\<close>

definition plain_env :: "(u8, unit) l0_env" where
  "plain_env = \<lparr>crdt_of_value = (\<lambda>_. None), value_of_crdt = (\<lambda>_. None), json_bytes = (\<lambda>_. [49]),
     crdt_codec = \<lparr>to_msgpack = (\<lambda>_. Inr []), from_msgpack = (\<lambda>_. Inl (Serialization [])), registry = (\<lambda>_. None),
       json_ser = (\<lambda>_. Some [])\<rparr>\<rparr>"


lemma no_neighbors:
  assumes g: "graph_ok g" "sg.no_dangling g" and v: "v \<notin> verts g"
  shows "neighbors g v dir = []"
proof (rule ccontr)
  assume "neighbors g v dir \<noteq> []"
  then obtain e where "e \<in> set (neighbors g v dir)" using hd_in_set by blast
  then have e: "graph_edge g (ee_eid e) = Some e" "(case dir of Outgoing \<Rightarrow> ee_src e | Incoming \<Rightarrow> ee_dst e) = v"
    using sg.nbrs_law [OF g(1), of v dir] by auto
  then have "v \<in> verts g" using g(2) unfolding sg.no_dangling_def by (cases dir) auto
  with v show False by contradiction
qed

text \<open>
  C19 (\<open>delete_vertex_complete\<close>). Deleting a vertex never panics and leaves no trace of it: it is
  tombstoned, its properties are gone, no label, external id, uniqueness key or merge guard leads
  to it, it has no neighbours, and the edges it had are tombstoned and reported to the caller,
  each exactly as it was.
\<close>

theorem delete_vertex_complete:
  assumes ok: "l0_ok l"
  shows "\<exists>cascaded l'. delete_vertex v l = Some (cascaded, l') \<and>
    v \<in> set (vertex_tombstones l') \<and> hget (vertex_properties l') v = None \<and>
    (\<forall>label. v \<notin> set (vids_for_label l' label)) \<and> (\<forall>x. hget (extid_index l') x \<noteq> Some v) \<and>
    (\<forall>k. hget (constraint_index l') k \<noteq> Some v \<and> hget (merge_guard_index l') k \<noteq> Some v) \<and>
    (\<forall>t dir. get_neighbors l' v t dir = []) \<and>
    set cascaded = {\<lparr>te_eid = i, te_src = s, te_dst = d, te_type = t\<rparr> | i s d t.
      get_edge_endpoint_full l i = Some (s, d, t) \<and> \<not> is_tombstoned l i \<and> (s = v \<or> d = v)} \<and>
    (\<forall>e\<in>set cascaded. is_tombstoned l' (te_eid e) \<and> get_edge_endpoint_full l' (te_eid e) = None)"
proof -
  obtain l' where l': "delete_vertex v l = Some (cascaded_entries l v, l')" "l0_ok l'"
    "l0_view l' = a_delete_vertex v (l0_view l)" "\<forall>label. v \<notin> set (vids_for_label l' label)"
    "\<forall>k. hget (constraint_index l') k \<noteq> Some v" "\<forall>k. hget (merge_guard_index l') k \<noteq> Some v"
    using delete_vertex_impl_ok [OF ok, of v False] unfolding delete_vertex_def by blast
  note topo = l0_okD(1) [OF ok] and topo' = l0_okD(1) [OF l'(2)]
  have dead: "v \<in> set (vertex_tombstones l')" "hget (vertex_properties l') v = None" "hget (extid_index l') x \<noteq> Some v" for x
    using arg_cong [OF l'(3), of a_vdel] arg_cong [OF l'(3), of "\<lambda>a. a_vprops a v"] arg_cong [OF l'(3), of "\<lambda>a. a_ext a x"]
    by (auto simp: a_delete_vertex_def split: if_splits)
  have "v \<notin> verts (graph l')" using topo' dead(1) by (auto simp: topo_ok_def)
  then have nbrs: "get_neighbors l' v t dir = []" for t dir
    using no_neighbors topo' by (simp add: get_neighbors_def topo_ok_def)
  have casc: "set (cascaded_entries l v) = {\<lparr>te_eid = i, te_src = s, te_dst = d, te_type = t\<rparr> | i s d t.
      get_edge_endpoint_full l i = Some (s, d, t) \<and> \<not> is_tombstoned l i \<and> (s = v \<or> d = v)}"
    unfolding cascaded_entries_set [OF topo]
    by (auto simp: te_of_def live_edge_def at_vertex_def get_edge_endpoint_full_def is_tombstoned_def split: if_splits)
  have "is_tombstoned l' (te_eid e) \<and> get_edge_endpoint_full l' (te_eid e) = None" if mem: "e \<in> set (cascaded_entries l v)" for e
  proof -
    obtain i x where e: "e = te_of i x" "live_edge l i = Some x" "at_vertex v (Some x)"
      using mem unfolding cascaded_entries_set [OF topo] by blast
    have "te_eid e = i" by (simp add: e(1) te_of_def split: prod.split)
    moreover have "hget (edge_endpoints l) i = Some x" using e(2) by (simp add: live_edge_def split: if_splits)
    ultimately show ?thesis
      using arg_cong [OF l'(3), of "\<lambda>a. a_edel a i"] arg_cong [OF l'(3), of "\<lambda>a. a_endp a i"] e(2,3)
      by (cases x) (auto simp: is_tombstoned_def get_edge_endpoint_full_def a_delete_vertex_def a_drop_def)
  qed
  then show ?thesis using l'(1,4-6) dead nbrs casc by blast
qed

theorem delete_vertex_complete_witness:
  "\<exists>l cascaded l'. l0_run plain_env [OpInsertEdge 1 (Vid 1) (Vid 2) 0 (Eid 7) [] None] (l0_new 0 None) = Some l \<and>
     delete_vertex (Vid 1) l = Some (cascaded, l') \<and>
     set cascaded = {\<lparr>te_eid = Eid 7, te_src = Vid 1, te_dst = Vid 2, te_type = 0\<rparr>} \<and> is_tombstoned l' (Eid 7)"
proof -
  let ?ps = "[OpInsertEdge 1 (Vid 1) (Vid 2) 0 (Eid 7) [] None]"
  have "list_all op_ok ?ps" by simp
  then obtain l where l: "l0_run plain_env ?ps (l0_new 0 None) = Some l" "l0_ok l"
    "l0_view l = fold (a_step plain_env None) ?ps a_empty"
    using l0_run_new by blast
  have ends: "get_edge_endpoint_full l i = Some (s, d, t) \<and> \<not> is_tombstoned l i \<longleftrightarrow>
      i = Eid 7 \<and> s = Vid 1 \<and> d = Vid 2 \<and> t = 0" for i s d t
    using arg_cong [OF l(3), of "\<lambda>a. a_endp a i"] arg_cong [OF l(3), of "\<lambda>a. a_edel a i"]
    by (auto simp: get_edge_endpoint_full_def is_tombstoned_def a_write_edge_def a_empty_def a_insert_edge_def)
  have "{\<lparr>te_eid = i, te_src = s, te_dst = d, te_type = t\<rparr> | i s d t.
      get_edge_endpoint_full l i = Some (s, d, t) \<and> \<not> is_tombstoned l i \<and> (s = Vid 1 \<or> d = Vid 1)} =
      {\<lparr>te_eid = Eid 7, te_src = Vid 1, te_dst = Vid 2, te_type = 0\<rparr>}"
    using ends by (intro set_eqI iffI) (fastforce, simp)
  then show ?thesis
    using delete_vertex_complete [OF l(2), of "Vid 1"] l(1) by auto
qed

end
