(* ===== verification/L0_Keys.thy ===== *)
theory L0_Keys
  imports L0_Run
begin

text \<open>
  Uniqueness keys of the write buffer: the byte format of a key, the shape that tells two keys of
  the same constraint apart from unrelated ones, and what happens when an owner moves from one key
  to another. A name and the JSON text of a value contain no NUL byte (JSON escapes control
  characters), which is the hypothesis \<open>nul_free\<close>.
\<close>

subsection \<open>Parts separated by NUL\<close>

definition nul_free :: "bytes \<Rightarrow> bool" where
  "nul_free bs \<longleftrightarrow> 0 \<notin> set bs"

definition join_nul :: "bytes list \<Rightarrow> bytes" where
  "join_nul ps = concat (map (\<lambda>p. p @ [0]) ps)"

lemma split_nul_append: "nul_free p \<Longrightarrow> split_nul (p @ 0 # bs) = p # split_nul bs"
  by (induction p) (auto simp: nul_free_def)

lemma split_join_nul: "\<forall>p\<in>set ps. nul_free p \<Longrightarrow> split_nul (join_nul ps) = ps @ [[]]"
  by (induction ps) (simp_all add: join_nul_def split_nul_append)

lemma join_nul_inj:
  "\<forall>p\<in>set ps. nul_free p \<Longrightarrow> \<forall>q\<in>set qs. nul_free q \<Longrightarrow> join_nul ps = join_nul qs \<longleftrightarrow> ps = qs"
  using split_join_nul [of ps] split_join_nul [of qs] by (metis append_same_eq)

lemma str_bytes_inj [simp]: "str_bytes s = str_bytes t \<longleftrightarrow> s = t"
proof -
  have "inj (of_char :: char \<Rightarrow> u8)"
  proof (rule injI)
    fix c d :: char
    assume "(of_char c :: u8) = of_char d"
    then have "unat (of_nat (of_char c) :: u8) = unat (of_nat (of_char d) :: u8)" by (simp only: of_nat_of_char)
    then have "(of_char c :: nat) = of_char d"
      using nat_of_char_less_256 [of c] nat_of_char_less_256 [of d] by (simp only: unat_of_nat) simp
    then show "c = d" by simp
  qed
  then show ?thesis by (simp add: str_bytes_def)
qed

subsection \<open>Keys\<close>

text \<open>The parts of a key: the label, then the name and the value of each property.\<close>

definition key_parts :: "('j, 'p) l0_env \<Rightarrow> string \<Rightarrow> (string \<times> val) list \<Rightarrow> bytes list" where
  "key_parts env label kvs =
     str_bytes label # concat (map (\<lambda>(k, v). [str_bytes k, json_bytes env v]) (sort_key fst kvs))"

definition key_nul_free :: "('j, 'p) l0_env \<Rightarrow> string \<Rightarrow> (string \<times> val) list \<Rightarrow> bool" where
  "key_nul_free env label kvs \<longleftrightarrow>
     nul_free (str_bytes label) \<and> (\<forall>(k, v)\<in>set kvs. nul_free (str_bytes k) \<and> nul_free (json_bytes env v))"

lemma serialize_parts: "serialize_constraint_key env label kvs = join_nul (key_parts env label kvs)"
proof -
  have "concat (map (\<lambda>(k, v). str_bytes k @ [0] @ json_bytes env v @ [0]) xs) =
      join_nul (concat (map (\<lambda>(k, v). [str_bytes k, json_bytes env v]) xs))" for xs
    by (induction xs) (auto simp: join_nul_def)
  then show ?thesis by (simp add: serialize_constraint_key_def key_parts_def) (simp add: join_nul_def)
qed

lemma key_parts_nul_free: "key_nul_free env label kvs \<Longrightarrow> \<forall>p\<in>set (key_parts env label kvs). nul_free p"
  by (auto simp: key_nul_free_def key_parts_def)

lemma parts_inj:
  "concat (map (\<lambda>(k, v). [f k, g v]) xs) = concat (map (\<lambda>(k, v). [f k, g v]) ys) \<longleftrightarrow>
   map (\<lambda>(k, v). (f k, g v)) xs = map (\<lambda>(k, v). (f k, g v)) ys"
proof (induction xs arbitrary: ys)
  case Nil
  then show ?case by (cases ys) (simp_all add: case_prod_beta)
next
  case (Cons x xs)
  then show ?case by (cases ys) (simp_all add: case_prod_beta)
qed

text \<open>The places of a key's shape: the label, the names, and the empty part after the last NUL.\<close>

definition key_names :: "string \<Rightarrow> (string \<times> val) list \<Rightarrow> bytes list" where
  "key_names label kvs = str_bytes label # map (str_bytes \<circ> fst) (sort_key fst kvs)"

lemma filter_names:
  "filter (\<lambda>(i, part). i = 0 \<or> i mod 2 = 1) (enumerate (Suc (2 * m)) (concat (map (\<lambda>(k, v). [f k, g v]) xs) @ [z])) =
     zip (map (\<lambda>j. Suc (2 * j)) [m..<m + length xs + 1]) (map (f \<circ> fst) xs @ [z])"
proof (induction xs arbitrary: m)
  case Nil
  then show ?case by simp
next
  case (Cons x xs)
  obtain k v where x: "x = (k, v)" by (cases x)
  have "[m..<m + length (x # xs) + 1] = m # [Suc m..<Suc m + length xs + 1]" by (subst upt_conv_Cons) simp_all
  then show ?case using Cons [of "Suc m"] by (simp add: x del: upt_Suc)
qed

lemma shape_names:
  assumes "key_nul_free env label kvs"
  shows "constraint_key_shape (serialize_constraint_key env label kvs) = join_nul (key_names label kvs @ [[]])"
proof -
  let ?xs = "sort_key fst kvs"
  have "split_nul (serialize_constraint_key env label kvs) =
      str_bytes label # concat (map (\<lambda>(k, v). [str_bytes k, json_bytes env v]) ?xs) @ [[]]"
    unfolding serialize_parts split_join_nul [OF key_parts_nul_free [OF assms]] by (simp add: key_parts_def)
  then have "constraint_key_shape (serialize_constraint_key env label kvs) =
      concat (map (\<lambda>(i, part). part @ [0]) ((0, str_bytes label) #
        zip (map (\<lambda>j. Suc (2 * j)) [0..<length ?xs + 1]) (map (str_bytes \<circ> fst) ?xs @ [[]])))"
    using filter_names [of 0 str_bytes "json_bytes env" ?xs "[]"] by (simp add: constraint_key_shape_def)
  moreover have "map (\<lambda>(i, part). part @ [0]) (zip is ps) = map (\<lambda>p. p @ [0]) ps" if "length is = length ps"
    for "is" :: "nat list" and ps :: "bytes list"
    using that by (induction "is" ps rule: list_induct2) auto
  ultimately show ?thesis by (simp add: key_names_def join_nul_def del: upt_Suc)
qed

lemma key_names_nul_free: "key_nul_free env label kvs \<Longrightarrow> \<forall>p\<in>set (key_names label kvs @ [[]]). nul_free p"
  by (auto simp: key_nul_free_def key_names_def nul_free_def)

lemma map_fst_sort_key: "map fst (sort_key fst kvs) = sort (map fst kvs)"
  by (rule properties_for_sort [symmetric]) simp_all

lemma map_comp_str_bytes:
  fixes xs ys :: "(string \<times> 'a) list"
  shows "map (str_bytes \<circ> fst) xs = map (str_bytes \<circ> fst) ys \<longleftrightarrow> map fst xs = map fst ys"
proof -
  have "map (str_bytes \<circ> fst) zs = map str_bytes (map fst zs)" for zs :: "(string \<times> 'a) list" by simp
  moreover have "inj str_bytes" by (simp add: inj_def)
  ultimately show ?thesis by (simp only: inj_map_eq_map)
qed

lemma sort_eq_iff: "sort xs = sort ys \<longleftrightarrow> mset xs = mset ys"
proof
  assume "sort xs = sort ys"
  from arg_cong [OF this, of mset] show "mset xs = mset ys" by simp
next
  assume "mset xs = mset ys"
  then show "sort xs = sort ys" by (intro properties_for_sort) simp_all
qed

lemma shape_eq_iff:
  assumes "key_nul_free env label kvs" "key_nul_free env' label' kvs'"
  shows "constraint_key_shape (serialize_constraint_key env label kvs) = constraint_key_shape (serialize_constraint_key env' label' kvs') \<longleftrightarrow>
    label = label' \<and> mset (map fst kvs) = mset (map fst kvs')"
proof -
  have "constraint_key_shape (serialize_constraint_key env label kvs) = constraint_key_shape (serialize_constraint_key env' label' kvs') \<longleftrightarrow>
      key_names label kvs = key_names label' kvs'"
    unfolding shape_names [OF assms(1)] shape_names [OF assms(2)]
      join_nul_inj [OF key_names_nul_free [OF assms(1)] key_names_nul_free [OF assms(2)]] by simp
  also have "\<dots> \<longleftrightarrow> label = label' \<and> sort (map fst kvs) = sort (map fst kvs')"
    by (simp add: key_names_def map_comp_str_bytes map_fst_sort_key)
  also have "sort (map fst kvs) = sort (map fst kvs') \<longleftrightarrow> mset (map fst kvs) = mset (map fst kvs')"
    by (rule sort_eq_iff)
  finally show ?thesis .
qed

lemma sorted_assoc_eq:
  fixes g :: "val \<Rightarrow> bytes"
  assumes "distinct (map fst (xs :: (string \<times> val) list))" "distinct (map fst ys)"
  shows "map (\<lambda>(n, v). (n, g v)) (sort_key fst xs) = map (\<lambda>(n, v). (n, g v)) (sort_key fst ys) \<longleftrightarrow>
    map_of (map (\<lambda>(n, v). (n, g v)) xs) = map_of (map (\<lambda>(n, v). (n, g v)) ys)"
proof -
  let ?j = "map (\<lambda>(n, v). (n, g v))"
  have keys: "map fst (?j zs) = map fst zs" for zs :: "(string \<times> val) list" by (simp add: comp_def case_prod_beta)
  have sorted: "sorted (map fst (?j (sort_key fst zs)))" for zs :: "(string \<times> val) list"
    unfolding keys by simp
  have dist: "distinct (map fst (?j (sort_key fst zs)))" if "distinct (map fst zs)" for zs :: "(string \<times> val) list"
    unfolding keys map_fst_sort_key using that by simp
  have same: "map_of (?j (sort_key fst zs)) = map_of (?j zs)" if "distinct (map fst zs)" for zs :: "(string \<times> val) list"
    using dist [OF that] that by (subst map_of_inject_set) (simp_all only: keys set_map set_sort)
  show ?thesis
  proof
    assume "?j (sort_key fst xs) = ?j (sort_key fst ys)"
    then show "map_of (?j xs) = map_of (?j ys)" using same [OF assms(1)] same [OF assms(2)] by metis
  next
    assume "map_of (?j xs) = map_of (?j ys)"
    then have "set (?j xs) = set (?j ys)"
      using map_of_inject_set [of "?j xs" "?j ys"] assms by (simp only: keys)
    then have eq: "set (?j (sort_key fst xs)) = set (?j (sort_key fst ys))" by (simp only: set_map set_sort)
    have "inj_on fst (set (?j (sort_key fst xs)))" using dist [OF assms(1)] by (simp only: distinct_map)
    then show "?j (sort_key fst xs) = ?j (sort_key fst ys)"
      using eq sorted dist [OF assms(1)] dist [OF assms(2)]
      by (intro map_sorted_distinct_set_unique [of fst]) (simp_all only: Un_absorb)
  qed
qed



subsection \<open>Moving to another key\<close>

text \<open>
  C31 (\<open>constraint_key_move\<close>). When a vertex is indexed under a new key of a constraint, its previous
  key of that constraint becomes free for every vertex, the new key is taken for every other
  vertex, and every key of another shape or of another owner is taken as before.
\<close>

theorem constraint_key_move:
  assumes ok: "l0_ok l" and ne: "key \<noteq> old"
    and owner: "hget (constraint_index l) old = Some v" and shape: "constraint_key_shape old = constraint_key_shape key"
  shows "(\<forall>u. \<not> has_constraint_key (insert_constraint_key key v l) old u) \<and>
    (\<forall>u. has_constraint_key (insert_constraint_key key v l) key u \<longleftrightarrow> u \<noteq> v) \<and>
    (\<forall>j u. j \<noteq> key \<longrightarrow> constraint_key_shape j \<noteq> constraint_key_shape key \<or> hget (constraint_index l) j \<noteq> Some v \<longrightarrow>
       has_constraint_key (insert_constraint_key key v l) j u = has_constraint_key l j u)"
proof -
  have "old \<in> set (hget_or [] (constraint_keys_by_vid l) v)"
    using l0_okD(4) [OF ok] owner by (auto simp: keys_ok_def owned_ok_def)
  then have "hget (constraint_index (insert_constraint_key key v l)) old = None"
    using ne owner shape by (simp add: insert_constraint_key_eq hget_drop_owned)
  moreover have "hget (constraint_index (insert_constraint_key key v l)) key = Some v"
    by (simp add: insert_constraint_key_eq)
  moreover have "hget (constraint_index (insert_constraint_key key v l)) j = hget (constraint_index l) j"
    if "j \<noteq> key" "constraint_key_shape j \<noteq> constraint_key_shape key \<or> hget (constraint_index l) j \<noteq> Some v" for j
    using that by (auto simp: insert_constraint_key_eq hget_drop_owned)
  ultimately show ?thesis by (auto simp: has_constraint_key_def)
qed

theorem constraint_key_move_witness:
  "\<forall>u. \<not> has_constraint_key (insert_constraint_key [65, 0, 66, 0, 49, 0] (Vid 1)
       (insert_constraint_key [65, 0, 66, 0, 50, 0] (Vid 1) (l0_new 0 None :: unit l0_buffer))) [65, 0, 66, 0, 50, 0] u"
proof -
  let ?l = "insert_constraint_key [65, 0, 66, 0, 50, 0] (Vid 1) (l0_new 0 None :: unit l0_buffer)"
  have ok: "l0_ok ?l" using insert_constraint_key_ok [OF l0_ok_new] by blast
  have owner: "hget (constraint_index ?l) [65, 0, 66, 0, 50, 0] = Some (Vid 1)" by (simp add: insert_constraint_key_eq)
  have shape: "constraint_key_shape [65, 0, 66, 0, 50, 0] = constraint_key_shape [65, 0, 66, 0, 49, 0]"
    by (simp add: constraint_key_shape_def)
  show ?thesis by (rule conjunct1 [OF constraint_key_move [OF ok _ owner shape]]) simp
qed

lemma apply_edge_insertion_keys:
  "apply_edge_insertion env s d t i props l = Some (r, l') \<Longrightarrow> edge_constraint_index l' = edge_constraint_index l"
  by (auto simp: apply_edge_insertion_def Let_def split: if_splits option.splits)

lemma insert_edge_impl_keys:
  assumes "insert_edge_impl env now s d t i props tname skip l = Some (r, l')"
  shows "edge_constraint_index l' = edge_constraint_index l"
proof -
  let ?l1 = "l\<lparr>current_version := current_version l + 1\<rparr>"
  define l2 where "l2 = (if skip then ?l1
    else wal_append (InsertEdge s d t i (current_version ?l1) props tname (Some now) (Some now)) ?l1)"
  have "edge_constraint_index l2 = edge_constraint_index l" by (simp add: l2_def wal_append_def)
  then show ?thesis
    using assms apply_edge_insertion_keys unfolding insert_edge_impl_def Let_def l2_def [symmetric]
    by (fastforce split: option.splits sum.splits)
qed



end
