(* ===== verification/L0_Merge.thy ===== *)
theory L0_Merge
  imports L0_Run
begin

text \<open>
  Merging a transaction's buffer into the main one at commit, and replaying a log into a buffer
  at recovery (\<^verbatim>\<open>crates/uni-store/src/runtime/l0.rs\<close>, \<open>validate_merge_edge_endpoints\<close> to
  \<open>replay_mutations\<close>).

  Each write of a merge reads the clock; as it also takes a new version, the reading is given as
  the function \<open>clock\<close> of the version the buffer is at. The loops over \<open>other\<close>'s maps are recursive
  functions over their entries, so every theorem is for every iteration order.
\<close>

datatype merge_error =
    EdgeSourceDeleted eid vid
  | EdgeDestinationDeleted eid vid
  | InsertFailed l0_error

definition effectively_deleted :: "'p l0_buffer \<Rightarrow> 'p l0_buffer \<Rightarrow> vid \<Rightarrow> bool" where
  "effectively_deleted self other vid \<longleftrightarrow>
     (vid \<in> set (vertex_tombstones self) \<or> vid \<in> set (vertex_tombstones other)) \<and>
     hget (vertex_properties other) vid = None"

fun validate_edges ::
  "'p l0_buffer \<Rightarrow> 'p l0_buffer \<Rightarrow> (eid \<times> vid \<times> vid \<times> u32) list \<Rightarrow> merge_error + unit" where
  "validate_edges self other [] = Inr ()"
| "validate_edges self other ((eid, src, dst, etype) # edges) =
     (if hget (tombstones other) eid \<noteq> None then validate_edges self other edges
      else if effectively_deleted self other src then Inl (EdgeSourceDeleted eid src)
      else if effectively_deleted self other dst then Inl (EdgeDestinationDeleted eid dst)
      else validate_edges self other edges)"

definition validate_merge_edge_endpoints :: "'p l0_buffer \<Rightarrow> 'p l0_buffer \<Rightarrow> merge_error + unit" where
  "validate_merge_edge_endpoints self other = validate_edges self other (edge_endpoints other)"

subsection \<open>The phases of a merge\<close>

fun merge_deletions ::
  "vid list \<Rightarrow> 'p l0_buffer \<Rightarrow> (tombstone_entry list \<times> 'p l0_buffer) option" where
  "merge_deletions [] self = Some ([], self)"
| "merge_deletions (vid # vids) self =
     (case delete_vertex_impl vid True self of
        None \<Rightarrow> None
      | Some (ts, self1) \<Rightarrow> map_option (\<lambda>(ts', self2). (ts @ ts', self2)) (merge_deletions vids self1))"

fun merge_vertices ::
  "('j, 'p) l0_env \<Rightarrow> (nat \<Rightarrow> int) \<Rightarrow> 'p l0_buffer \<Rightarrow> (vid \<times> properties) list \<Rightarrow> 'p l0_buffer \<Rightarrow> 'p l0_buffer" where
  "merge_vertices env clock other [] self = self"
| "merge_vertices env clock other ((vid, props) # rest) self =
     merge_vertices env clock other rest
       (insert_vertex_with_labels_impl env (clock (current_version self)) vid props
         (hget_or [] (vertex_labels other) vid) True self)"

fun merge_labels :: "(vid \<times> string list) list \<Rightarrow> 'p l0_buffer \<Rightarrow> 'p l0_buffer" where
  "merge_labels [] self = self"
| "merge_labels ((vid, labels) # rest) self =
     merge_labels rest
       (if hget (vertex_labels self) vid = None
        then self\<lparr>vertex_labels := hput vid labels (vertex_labels self),
                  label_to_vids := index_labels vid labels (label_to_vids self)\<rparr>
        else self)"

definition overwrite_labels :: "vid \<Rightarrow> string list \<Rightarrow> 'p l0_buffer \<Rightarrow> 'p l0_buffer" where
  "overwrite_labels vid labels self =
     (let l1 = remove_vid_from_label_index vid self;
          l2 = index_labels_for_vid vid labels (l1\<lparr>vertex_labels := hput vid labels (vertex_labels l1)\<rparr>);
          v = current_version l2 + 1
      in l2\<lparr>current_version := v, vertex_label_versions := hput vid v (vertex_label_versions l2),
            vertex_label_overwrites := hset_insert vid (vertex_label_overwrites l2)\<rparr>)"

fun merge_overwrites :: "'p l0_buffer \<Rightarrow> vid list \<Rightarrow> 'p l0_buffer \<Rightarrow> 'p l0_buffer" where
  "merge_overwrites other [] self = self"
| "merge_overwrites other (vid # vids) self =
     merge_overwrites other vids
       (if vid \<in> set (vertex_tombstones other) then self
        else overwrite_labels vid (hget_or [] (vertex_labels other) vid) self)"

fun merge_edges ::
  "('j, 'p) l0_env \<Rightarrow> (nat \<Rightarrow> int) \<Rightarrow> 'p l0_buffer \<Rightarrow> (eid \<times> vid \<times> vid \<times> u32) list \<Rightarrow> (eid, properties) hmap \<Rightarrow>
   'p l0_buffer \<Rightarrow> 'p l0_result" where
  "merge_edges env clock other [] edge_props self = Some (Inr (), self)"
| "merge_edges env clock other ((eid, src, dst, etype) # edges) edge_props self =
     (if hget (tombstones other) eid \<noteq> None
      then (case delete_edge_impl (clock (current_version self)) eid src dst etype True self of
              None \<Rightarrow> None
            | Some self1 \<Rightarrow> merge_edges env clock other edges edge_props self1)
      else (case insert_edge_impl env (clock (current_version self)) src dst etype eid
                   (hget_or [] edge_props eid) (hget (edge_types other) eid) True self of
              None \<Rightarrow> None
            | Some (Inl e, self1) \<Rightarrow> Some (Inl e, self1)
            | Some (Inr _, self1) \<Rightarrow> merge_edges env clock other edges (hdel eid edge_props) self1))"

fun merge_tombstones ::
  "(nat \<Rightarrow> int) \<Rightarrow> 'p l0_buffer \<Rightarrow> (eid \<times> tombstone_entry) list \<Rightarrow> 'p l0_buffer \<Rightarrow> 'p l0_buffer option" where
  "merge_tombstones clock other [] self = Some self"
| "merge_tombstones clock other ((eid, te) # rest) self =
     (if hget (edge_endpoints other) eid = None
      then Option.bind (delete_edge_impl (clock (current_version self)) eid (te_src te) (te_dst te) (te_type te) True self)
             (merge_tombstones clock other rest)
      else merge_tombstones clock other rest self)"

definition merge_rest :: "'p l0_buffer \<Rightarrow> 'p l0_buffer \<Rightarrow> 'p l0_buffer" where
  "merge_rest other self =
     (let l1 = self\<lparr>vertex_created_at := fold (\<lambda>(vid, ts). or_insert vid ts) (vertex_created_at other) (vertex_created_at self),
                    vertex_updated_at := fold (\<lambda>(vid, ts). hput vid ts) (vertex_updated_at other) (vertex_updated_at self),
                    edge_created_at := fold (\<lambda>(eid, ts). or_insert eid ts) (edge_created_at other) (edge_created_at self),
                    edge_updated_at := fold (\<lambda>(eid, ts). hput eid ts) (edge_updated_at other) (edge_updated_at self),
                    estimated_size := estimated_size self + (estimated_size other - charged_bytes (memo other))\<rparr>;
          l2 = fold (\<lambda>(key, vid). insert_constraint_key key vid) (constraint_index other) l1;
          l3 = fold (\<lambda>(key, vid). insert_merge_guard_key key vid) (merge_guard_index other) l2;
          l4 = fold (\<lambda>(key, eid). insert_edge_constraint_key key eid) (edge_constraint_index other) l3
      in l4\<lparr>pending_embeddings := fold (\<lambda>(vid, label). hput vid label) (pending_embeddings other) (pending_embeddings l4)\<rparr>)"

definition merge_validated ::
  "('j, 'p) l0_env \<Rightarrow> (nat \<Rightarrow> int) \<Rightarrow> 'p l0_buffer \<Rightarrow> (vid, properties) hmap \<Rightarrow> (eid, properties) hmap \<Rightarrow> 'p l0_buffer \<Rightarrow>
   ((l0_error + tombstone_entry list) \<times> 'p l0_buffer) option" where
  "merge_validated env clock other vertex_props edge_props self =
     (case merge_deletions (vertex_tombstones other) self of
        None \<Rightarrow> None
      | Some (cascaded, l1) \<Rightarrow>
          let l2 = merge_vertices env clock other vertex_props l1;
              l3 = merge_labels (vertex_labels other) l2;
              l4 = merge_overwrites other (vertex_label_overwrites other) l3
          in (case merge_edges env clock other (edge_endpoints other) edge_props l4 of
                None \<Rightarrow> None
              | Some (Inl e, l5) \<Rightarrow> Some (Inl e, l5)
              | Some (Inr _, l5) \<Rightarrow>
                  (case merge_tombstones clock other (tombstones other) l5 of
                     None \<Rightarrow> None
                   | Some l6 \<Rightarrow> Some (Inr cascaded, merge_rest other l6))))"

definition merge ::
  "('j, 'p) l0_env \<Rightarrow> (nat \<Rightarrow> int) \<Rightarrow> 'p l0_buffer \<Rightarrow> 'p l0_buffer \<Rightarrow>
   ((merge_error + tombstone_entry list) \<times> 'p l0_buffer) option" where
  "merge env clock other self =
     (case validate_merge_edge_endpoints self other of
        Inl e \<Rightarrow> Some (Inl e, self)
      | Inr _ \<Rightarrow> map_option (\<lambda>(r, l). (map_err InsertFailed r, l))
                   (merge_validated env clock other (vertex_properties other) (edge_properties other) self))"

text \<open>\<open>merge_take\<close> leaves \<open>other\<close> without its property maps.\<close>

definition merge_take ::
  "('j, 'p) l0_env \<Rightarrow> (nat \<Rightarrow> int) \<Rightarrow> 'p l0_buffer \<Rightarrow> 'p l0_buffer \<Rightarrow>
   ((merge_error + tombstone_entry list) \<times> 'p l0_buffer \<times> 'p l0_buffer) option" where
  "merge_take env clock other self =
     (case validate_merge_edge_endpoints self other of
        Inl e \<Rightarrow> Some (Inl e, other, self)
      | Inr _ \<Rightarrow>
          let other' = other\<lparr>vertex_properties := [], edge_properties := []\<rparr>
          in map_option (\<lambda>(r, l). (map_err InsertFailed r, other', l))
               (merge_validated env clock other' (vertex_properties other) (edge_properties other) self))"

subsection \<open>Replay\<close>

definition restore_labels :: "vid \<Rightarrow> string list \<Rightarrow> 'p l0_buffer \<Rightarrow> 'p l0_buffer" where
  "restore_labels vid labels l =
     l\<lparr>vertex_labels := hput vid (append_unique_labels (hget_or [] (vertex_labels l) vid) labels) (vertex_labels l),
       label_to_vids := index_labels vid labels (label_to_vids l)\<rparr>"

definition or_insert_opt :: "'k \<Rightarrow> 'v option \<Rightarrow> ('k, 'v) hmap \<Rightarrow> ('k, 'v) hmap" where
  "or_insert_opt k ts m = (case ts of Some t \<Rightarrow> or_insert k t m | None \<Rightarrow> m)"

definition hput_opt :: "'k \<Rightarrow> 'v option \<Rightarrow> ('k, 'v) hmap \<Rightarrow> ('k, 'v) hmap" where
  "hput_opt k ts m = (case ts of Some t \<Rightarrow> hput k t m | None \<Rightarrow> m)"

fun replay_mutation :: "('j, 'p) l0_env \<Rightarrow> mutation \<Rightarrow> 'p l0_buffer \<Rightarrow> 'p l0_buffer option" where
  "replay_mutation env (InsertVertex vid properties labels created updated) l =
     (let version = current_version l + 1;
          tracks_extid = (hget properties ''ext_id'' \<noteq> None);
          entry = hget_or [] (vertex_properties l) vid;
          old_extid = (if tracks_extid then extid_of entry else None);
          entry' = merge_crdt_properties env (plugin_registry l) entry properties;
          l1 = l\<lparr>current_version := version, vertex_tombstones := removeAll vid (vertex_tombstones l),
                 vertex_properties := hput vid entry' (vertex_properties l)\<rparr>;
          l2 = (if tracks_extid then sync_extid_index vid old_extid (extid_of entry') l1 else l1);
          l3 = l2\<lparr>vertex_versions := hput vid version (vertex_versions l2),
                  vertex_created_at := or_insert_opt vid created (vertex_created_at l2),
                  vertex_updated_at := hput_opt vid updated (vertex_updated_at l2),
                  graph := snd (add_vertex (graph l2) vid), mutation_count := mutation_count l2 + 1\<rparr>
      in Some (restore_labels vid labels l3))"
| "replay_mutation env (DeleteVertex vid labels) l =
     (let l1 = l\<lparr>current_version := current_version l + 1\<rparr>;
          l2 = (if labels = [] then l1 else restore_labels vid labels l1)
      in map_option snd (apply_vertex_deletion vid l2))"
| "replay_mutation env (SetVertexLabels vid labels) l =
     (let v = current_version l + 1;
          l1 = remove_vid_from_label_index vid
            (l\<lparr>current_version := v, vertex_label_versions := hput vid v (vertex_label_versions l)\<rparr>);
          l2 = index_labels_for_vid vid labels (l1\<lparr>vertex_labels := hput vid labels (vertex_labels l1)\<rparr>)
      in Some (l2\<lparr>vertex_label_overwrites := hset_insert vid (vertex_label_overwrites l2),
                  mutation_count := mutation_count l2 + 1\<rparr>))"
| "replay_mutation env (InsertEdge src dst etype eid version properties tname created updated) l =
     (case apply_edge_insertion env src dst etype eid properties (l\<lparr>current_version := current_version l + 1\<rparr>) of
        None \<Rightarrow> None
      | Some (Inr _, l1) \<Rightarrow>
          Some (l1\<lparr>edge_types := hput_opt eid tname (edge_types l1),
                   edge_created_at := or_insert_opt eid created (edge_created_at l1),
                   edge_updated_at := hput_opt eid updated (edge_updated_at l1)\<rparr>)
      | Some (Inl _, l1) \<Rightarrow> Some l1)"
| "replay_mutation env (DeleteEdge eid src dst etype version tname) l =
     apply_edge_deletion eid src dst etype (l\<lparr>current_version := current_version l + 1\<rparr>)"

fun replay_mutations :: "('j, 'p) l0_env \<Rightarrow> mutation list \<Rightarrow> 'p l0_buffer \<Rightarrow> 'p l0_buffer option" where
  "replay_mutations env [] l = Some l"
| "replay_mutations env (mu # mus) l = Option.bind (replay_mutation env mu l) (replay_mutations env mus)"

end
