(* ===== verification/L0_Merge_Phases.thy ===== *)
theory L0_Merge_Phases
  imports L0_Merge
begin

text \<open>
  Each phase of a merge, and each replayed mutation, refines a fold over the abstract state. The
  composition of the phases and its closed form are in \<open>L0_Merge_Spec\<close>.
\<close>

lemma merge_deletions_ok:
  assumes "l0_ok l"
  shows "\<exists>ts l'. merge_deletions vids l = Some (ts, l') \<and> l0_ok l' \<and> l0_view l' = fold a_delete_vertex vids (l0_view l) \<and>
    plugin_registry l' = plugin_registry l \<and> current_version l' = current_version l + length vids"
  using assms
proof (induction vids arbitrary: l)
  case Nil
  then show ?case by simp
next
  case (Cons v vids)
  obtain l1 where l1: "delete_vertex_impl v True l = Some (cascaded_entries l v, l1)" "l0_ok l1"
    "l0_view l1 = a_delete_vertex v (l0_view l)" "plugin_registry l1 = plugin_registry l" "current_version l1 = current_version l + 1"
    using delete_vertex_impl_ok [OF Cons.prems, of v True] by blast
  obtain ts l2 where "merge_deletions vids l1 = Some (ts, l2)" "l0_ok l2" "l0_view l2 = fold a_delete_vertex vids (l0_view l1)"
    "plugin_registry l2 = plugin_registry l1" "current_version l2 = current_version l1 + length vids"
    using Cons.IH [OF l1(2)] by blast
  then show ?case using l1 by simp
qed

lemma sync_extid_version [simp]: "current_version (sync_extid_index v x y l) = current_version l"
  by (simp add: sync_extid_index_def Let_def)

lemma insert_vertex_impl_version [simp]:
  "current_version (insert_vertex_with_labels_impl env now v props labels skip l) = current_version l + 1"
  by (simp add: insert_vertex_with_labels_impl_def apply_vertex_write_def Let_def index_labels_for_vid_def wal_append_def)

definition a_put_vertex :: "('j, 'p) l0_env \<Rightarrow> 'p providers option \<Rightarrow> 'p l0_buffer \<Rightarrow> vid \<times> properties \<Rightarrow> l0_abs \<Rightarrow> l0_abs" where
  "a_put_vertex env reg other e = a_insert_vertex env reg (fst e) (map_of (snd e)) (hget_or [] (vertex_labels other) (fst e))"

lemma merge_vertices_ok:
  assumes "l0_ok l" "\<forall>(v, p)\<in>set ps. hmap_ok p"
  shows "l0_ok (merge_vertices env clock other ps l) \<and>
    l0_view (merge_vertices env clock other ps l) = fold (a_put_vertex env (plugin_registry l) other) ps (l0_view l) \<and>
    plugin_registry (merge_vertices env clock other ps l) = plugin_registry l \<and>
    current_version (merge_vertices env clock other ps l) = current_version l + length ps"
  using assms
proof (induction ps arbitrary: l)
  case Nil
  then show ?case by simp
next
  case (Cons e ps)
  obtain v p where e: "e = (v, p)" by (cases e)
  let ?l = "insert_vertex_with_labels_impl env (clock (current_version l)) v p (hget_or [] (vertex_labels other) v) True l"
  have "hmap_ok p" using Cons.prems(2) e by simp
  then have "l0_ok ?l" "l0_view ?l = a_put_vertex env (plugin_registry l) other e (l0_view l)"
    using Cons.prems(1) by (simp_all add: e a_put_vertex_def insert_vertex_impl_ok)
  then show ?case using Cons.IH [of ?l] Cons.prems(2) by (simp add: e)
qed

definition a_fill_labels :: "(vid \<Rightarrow> string list option) \<Rightarrow> l0_abs \<Rightarrow> l0_abs" where
  "a_fill_labels ls a = a\<lparr>a_labels := (\<lambda>v. case a_labels a v of None \<Rightarrow> ls v | Some x \<Rightarrow> Some x)\<rparr>"

lemma merge_label_ok:
  assumes "l0_ok l" "hget (vertex_labels l) v = None"
  shows "l0_ok (l\<lparr>vertex_labels := hput v labels (vertex_labels l), label_to_vids := index_labels v labels (label_to_vids l)\<rparr>)"
proof -
  let ?l = "l\<lparr>vertex_labels := hput v labels (vertex_labels l), label_to_vids := index_labels v labels (label_to_vids l)\<rparr>"
  note parts = l0_okD [OF assms(1)]
  have "labels_sound ?l"
    unfolding labels_sound_def
  proof (intro allI ballI)
    fix label u
    assume u: "u \<in> set (vids_for_label ?l label)"
    show "label \<in> set (hget_or [] (vertex_labels ?l) u)"
    proof (cases "u \<in> set (vids_for_label l label)")
      case True
      then have "label \<in> set (hget_or [] (vertex_labels l) u)" using parts(5) by (simp add: labels_sound_def)
      then show ?thesis using assms(2) by (auto simp: hget_or_def)
    next
      case False
      then show ?thesis using u by (auto simp: vids_for_label_def set_index_labels split: if_splits)
    qed
  qed
  moreover have "topo_ok ?l" by (rule iffD1 [OF topo_ok_cong parts(1)]) simp_all
  moreover have "maps_ok ?l" "extid_sound ?l" "keys_ok ?l" using parts(2-4) by (auto simp: maps_ok_def extid_sound_def keys_ok_def)
  ultimately show ?thesis by (simp add: l0_ok_def)
qed

lemma merge_labels_ok:
  assumes "l0_ok l" "hmap_ok ls"
  shows "l0_ok (merge_labels ls l) \<and> l0_view (merge_labels ls l) = a_fill_labels (map_of ls) (l0_view l) \<and>
    plugin_registry (merge_labels ls l) = plugin_registry l \<and> current_version (merge_labels ls l) = current_version l"
  using assms
proof (induction ls arbitrary: l)
  case Nil
  have "(\<lambda>v. case a_labels (l0_view l) v of None \<Rightarrow> None | Some x \<Rightarrow> Some x) = a_labels (l0_view l)"
    by (auto simp: fun_eq_iff split: option.split)
  then show ?case using Nil by (simp add: a_fill_labels_def)
next
  case (Cons e ls)
  obtain v labels where e: "e = (v, labels)" by (cases e)
  have ls: "hmap_ok ls" "hget ls v = None" using Cons.prems(2) by (simp_all add: e hmap_ok_Cons)
  define l1 where "l1 = (if hget (vertex_labels l) v = None
    then l\<lparr>vertex_labels := hput v labels (vertex_labels l), label_to_vids := index_labels v labels (label_to_vids l)\<rparr> else l)"
  have l1: "l0_ok l1" "plugin_registry l1 = plugin_registry l" "current_version l1 = current_version l"
    using merge_label_ok [OF Cons.prems(1)] Cons.prems(1) by (simp_all add: l1_def)
  have "a_fill_labels (map_of ls) (l0_view l1) = a_fill_labels (map_of (e # ls)) (l0_view l)"
  proof (rule l0_abs.equality)
    show "a_labels (a_fill_labels (map_of ls) (l0_view l1)) = a_labels (a_fill_labels (map_of (e # ls)) (l0_view l))"
      using ls(2) by (auto simp: a_fill_labels_def l1_def e fun_eq_iff split: option.split)
  qed (simp_all add: a_fill_labels_def l1_def l0_view_def)
  moreover have "merge_labels (e # ls) l = merge_labels ls l1" by (simp add: e l1_def)
  ultimately show ?case using Cons.IH [OF l1(1) ls(1)] l1(2,3) by (simp only: simp_thms)
qed

lemma remove_vid_counters [simp]:
  "mutation_count (remove_vid_from_label_index v l) = mutation_count l"
  "current_version (remove_vid_from_label_index v l) = current_version l"
  by (rule exE [OF remove_vid_label_index [of v l]], simp)+

lemma overwrite_labels_eq:
  "overwrite_labels v labels l = (set_vertex_labels v labels l)\<lparr>mutation_count := mutation_count l\<rparr>"
  by (simp add: overwrite_labels_def set_vertex_labels_def Let_def index_labels_for_vid_def)

lemma overwrite_labels_ok:
  assumes "l0_ok l"
  shows "l0_ok (overwrite_labels v labels l) \<and> l0_view (overwrite_labels v labels l) = a_set_labels v labels (l0_view l) \<and>
    plugin_registry (overwrite_labels v labels l) = plugin_registry l \<and>
    current_version (overwrite_labels v labels l) = current_version l + 1"
proof -
  have "l0_ok (m\<lparr>mutation_count := n\<rparr>) = l0_ok m" "l0_view (m\<lparr>mutation_count := n\<rparr>) = l0_view m" for m :: "'a l0_buffer" and n
    by (simp_all add: l0_ok_def l0_inv_defs l0_view_def)
  moreover have "current_version (set_vertex_labels v labels l) = current_version l + 1"
    by (simp add: set_vertex_labels_def Let_def index_labels_for_vid_def)
  ultimately show ?thesis using set_vertex_labels_ok [OF assms] by (simp add: overwrite_labels_eq)
qed

definition a_overwrite :: "'p l0_buffer \<Rightarrow> vid \<Rightarrow> l0_abs \<Rightarrow> l0_abs" where
  "a_overwrite other v a =
     (if v \<in> set (vertex_tombstones other) then a else a_set_labels v (hget_or [] (vertex_labels other) v) a)"

lemma merge_overwrites_ok:
  assumes "l0_ok l"
  shows "l0_ok (merge_overwrites other vs l) \<and> l0_view (merge_overwrites other vs l) = fold (a_overwrite other) vs (l0_view l) \<and>
    plugin_registry (merge_overwrites other vs l) = plugin_registry l \<and>
    current_version (merge_overwrites other vs l) = current_version l + length (filter (\<lambda>v. v \<notin> set (vertex_tombstones other)) vs)"
  using assms
proof (induction vs arbitrary: l)
  case (Cons v vs)
  then show ?case
    using overwrite_labels_ok [OF Cons.prems] by (auto simp: a_overwrite_def)
qed simp

definition edge_endpoints_live :: "'p l0_buffer \<Rightarrow> (eid \<times> vid \<times> vid \<times> u32) list \<Rightarrow> vid set \<Rightarrow> bool" where
  "edge_endpoints_live other edges D \<longleftrightarrow>
     (\<forall>(i, s, d, t)\<in>set edges. hget (tombstones other) i = None \<longrightarrow> s \<notin> D \<and> d \<notin> D)"

definition a_put_edge ::
  "('j, 'p) l0_env \<Rightarrow> 'p providers option \<Rightarrow> 'p l0_buffer \<Rightarrow> (eid, properties) hmap \<Rightarrow> eid \<times> vid \<times> vid \<times> u32 \<Rightarrow> l0_abs \<Rightarrow> l0_abs" where
  "a_put_edge env reg other ep e =
     (case e of (i, s, d, t) \<Rightarrow>
        if hget (tombstones other) i \<noteq> None then a_delete_edge i s d t
        else a_insert_edge env reg s d t i (map_of (hget_or [] ep i)) (hget (edge_types other) i))"

lemma a_put_edge_vdel [simp]: "a_vdel (a_put_edge env reg other ep e a) = a_vdel a"
  by (auto simp: a_put_edge_def a_delete_edge_def a_insert_edge_def split: prod.split)

lemma edge_endpoints_live_Cons:
  "edge_endpoints_live other ((i, s, d, t) # edges) D \<longleftrightarrow>
     (hget (tombstones other) i = None \<longrightarrow> s \<notin> D \<and> d \<notin> D) \<and> edge_endpoints_live other edges D"
  by (simp add: edge_endpoints_live_def)

lemma merge_edges_ok:
  assumes "l0_ok l" "hmap_ok edges" "\<forall>i p. hget ep i = Some p \<longrightarrow> hmap_ok p"
  shows "\<exists>r l'. merge_edges env clock other edges ep l = Some (r, l') \<and>
    (r = Inr () \<longleftrightarrow> edge_endpoints_live other edges (a_vdel (l0_view l))) \<and>
    (r = Inr () \<longrightarrow> l0_ok l' \<and> l0_view l' = fold (a_put_edge env (plugin_registry l) other ep) edges (l0_view l) \<and>
       plugin_registry l' = plugin_registry l \<and> current_version l' = current_version l + length edges)"
  using assms
proof (induction edges arbitrary: l ep)
  case Nil
  then show ?case by (simp add: edge_endpoints_live_def)
next
  case (Cons e edges)
  obtain i s d t where e: "e = (i, s, d, t)" by (cases e)
  have edges: "hmap_ok edges" "hget edges i = None" using Cons.prems(2) by (simp_all add: e hmap_ok_Cons)
  show ?case
  proof (cases "hget (tombstones other) i = None")
    case False
    then obtain l1 where l1: "delete_edge_impl (clock (current_version l)) i s d t True l = Some l1" "l0_ok l1"
      "l0_view l1 = a_delete_edge i s d t (l0_view l)" "plugin_registry l1 = plugin_registry l" "current_version l1 = current_version l + 1"
      using delete_edge_impl_ok [OF Cons.prems(1)] by blast
    have "a_vdel (l0_view l1) = a_vdel (l0_view l)" unfolding l1(3) by (simp add: a_delete_edge_def)
    moreover have "merge_edges env clock other (e # edges) ep l = merge_edges env clock other edges ep l1"
      using False l1(1) by (simp add: e)
    moreover have "a_put_edge env (plugin_registry l) other ep e (l0_view l) = l0_view l1"
      using False l1(3) by (simp add: e a_put_edge_def)
    ultimately show ?thesis
      using Cons.IH [OF l1(2) edges(1) Cons.prems(3)] l1(4,5) False
      by (auto simp: e edge_endpoints_live_Cons)
  next
    case True
    have props: "hmap_ok (hget_or [] ep i)" using Cons.prems(3) by (auto simp: hget_or_def split: option.split)
    show ?thesis
    proof (cases "deleted_endpoint l s d")
      case None
      obtain l1 where l1: "insert_edge_impl env (clock (current_version l)) s d t i (hget_or [] ep i) (hget (edge_types other) i) True l = Some (Inr (), l1)"
        "l0_ok l1" "l0_view l1 = a_insert_edge env (plugin_registry l) s d t i (map_of (hget_or [] ep i)) (hget (edge_types other) i) (l0_view l)"
        "plugin_registry l1 = plugin_registry l" "current_version l1 = current_version l + 1"
        using insert_edge_impl_ok [OF Cons.prems(1) props None] by blast
      have vdel: "a_vdel (l0_view l1) = a_vdel (l0_view l)" unfolding l1(3) by (simp add: a_insert_edge_def)
      have "fold (a_put_edge env (plugin_registry l) other (hdel i ep)) edges a = fold (a_put_edge env (plugin_registry l) other ep) edges a" for a
      proof (rule fold_cong [OF refl refl])
        fix f
        assume "f \<in> set edges"
        then have "fst f \<noteq> i" using edges(2) unfolding map_of_eq_None_iff by blast
        then show "a_put_edge env (plugin_registry l) other (hdel i ep) f = a_put_edge env (plugin_registry l) other ep f"
          by (auto simp: a_put_edge_def split: prod.split)
      qed
      moreover have "\<forall>j p. hget (hdel i ep) j = Some p \<longrightarrow> hmap_ok p" using Cons.prems(3) by auto
      moreover have "merge_edges env clock other (e # edges) ep l = merge_edges env clock other edges (hdel i ep) l1"
        using True l1(1) by (simp add: e)
      moreover have "a_put_edge env (plugin_registry l) other ep e (l0_view l) = l0_view l1"
        using True l1(3) by (simp add: e a_put_edge_def)
      ultimately show ?thesis
        using Cons.IH [OF l1(2) edges(1), of "hdel i ep"] l1(4,5) True None [unfolded deleted_endpoint_iff] vdel
        by (auto simp: e edge_endpoints_live_Cons)
    next
      case (Some err)
      then have dead: "s \<in> a_vdel (l0_view l) \<or> d \<in> a_vdel (l0_view l)"
        by (auto simp: deleted_endpoint_def split: if_splits)
      obtain w where "insert_edge_impl env (clock (current_version l)) s d t i (hget_or [] ep i) (hget (edge_types other) i) True l =
          Some (Inl err, l\<lparr>current_version := current_version l + 1, wal := w\<rparr>)"
        using insert_edge_impl_error [OF Some] by blast
      then show ?thesis using True dead by (auto simp: e edge_endpoints_live_Cons)
    qed
  qed
qed

definition a_put_tombstone :: "'p l0_buffer \<Rightarrow> eid \<times> tombstone_entry \<Rightarrow> l0_abs \<Rightarrow> l0_abs" where
  "a_put_tombstone other e =
     (if hget (edge_endpoints other) (fst e) = None
      then a_delete_edge (fst e) (te_src (snd e)) (te_dst (snd e)) (te_type (snd e)) else id)"

lemma merge_tombstones_ok:
  assumes "l0_ok l"
  shows "\<exists>l'. merge_tombstones clock other ts l = Some l' \<and> l0_ok l' \<and> l0_view l' = fold (a_put_tombstone other) ts (l0_view l) \<and>
    plugin_registry l' = plugin_registry l \<and>
    current_version l' = current_version l + length (filter (\<lambda>(i, _). hget (edge_endpoints other) i = None) ts)"
  using assms
proof (induction ts arbitrary: l)
  case Nil
  then show ?case by simp
next
  case (Cons e ts)
  obtain i te where e: "e = (i, te)" by (cases e)
  show ?case
  proof (cases "hget (edge_endpoints other) i = None")
    case True
    obtain l1 where l1: "delete_edge_impl (clock (current_version l)) i (te_src te) (te_dst te) (te_type te) True l = Some l1" "l0_ok l1"
      "l0_view l1 = a_delete_edge i (te_src te) (te_dst te) (te_type te) (l0_view l)" "plugin_registry l1 = plugin_registry l"
      "current_version l1 = current_version l + 1"
      using delete_edge_impl_ok [OF Cons.prems] by blast
    have "merge_tombstones clock other (e # ts) l = merge_tombstones clock other ts l1"
      "a_put_tombstone other e (l0_view l) = l0_view l1"
      using True l1(1,3) by (simp_all add: e a_put_tombstone_def)
    then show ?thesis using Cons.IH [OF l1(2)] l1(4,5) True by (simp add: e)
  next
    case False
    then obtain x where x: "hget (edge_endpoints other) i = Some x" by blast
    have "merge_tombstones clock other (e # ts) l = merge_tombstones clock other ts l" "a_put_tombstone other e = id"
      by (simp_all add: e x a_put_tombstone_def)
    then show ?thesis using Cons.IH [OF Cons.prems] by (simp add: e x)
  qed
qed

lemma fold_keys_ok:
  assumes "\<And>x l. l0_ok l \<Longrightarrow> l0_ok (f x l) \<and> l0_view (f x l) = l0_view l" "l0_ok l"
  shows "l0_ok (fold f xs l) \<and> l0_view (fold f xs l) = l0_view l"
  using assms(2)
proof (induction xs arbitrary: l)
  case (Cons x xs)
  then show ?case using assms(1) [of l x] by simp
qed simp

lemma merge_rest_ok:
  assumes "l0_ok l"
  shows "l0_ok (merge_rest other l) \<and> l0_view (merge_rest other l) = l0_view l"
proof -
  define l1 where "l1 = l\<lparr>vertex_created_at := fold (\<lambda>(vid, ts). or_insert vid ts) (vertex_created_at other) (vertex_created_at l),
    vertex_updated_at := fold (\<lambda>(vid, ts). hput vid ts) (vertex_updated_at other) (vertex_updated_at l),
    edge_created_at := fold (\<lambda>(eid, ts). or_insert eid ts) (edge_created_at other) (edge_created_at l),
    edge_updated_at := fold (\<lambda>(eid, ts). hput eid ts) (edge_updated_at other) (edge_updated_at l),
    estimated_size := estimated_size l + (estimated_size other - charged_bytes (memo other))\<rparr>"
  have l1: "l0_ok l1" "l0_view l1 = l0_view l" using assms by (simp_all add: l1_def l0_ok_frame l0_view_frame)
  define l2 where "l2 = fold (\<lambda>(key, vid). insert_constraint_key key vid) (constraint_index other) l1"
  have l2: "l0_ok l2 \<and> l0_view l2 = l0_view l1"
    unfolding l2_def by (rule fold_keys_ok [OF _ l1(1)]) (simp add: insert_constraint_key_ok split: prod.split)
  define l3 where "l3 = fold (\<lambda>(key, vid). insert_merge_guard_key key vid) (merge_guard_index other) l2"
  have l3: "l0_ok l3 \<and> l0_view l3 = l0_view l2"
    unfolding l3_def by (rule fold_keys_ok) (simp_all add: insert_merge_guard_key_ok l2 split: prod.split)
  define l4 where "l4 = fold (\<lambda>(key, eid). insert_edge_constraint_key key eid) (edge_constraint_index other) l3"
  have l4: "l0_ok l4 \<and> l0_view l4 = l0_view l3"
    unfolding l4_def by (rule fold_keys_ok) (simp_all add: insert_edge_constraint_key_ok l3 split: prod.split)
  have "merge_rest other l =
      l4\<lparr>pending_embeddings := fold (\<lambda>(vid, label). hput vid label) (pending_embeddings other) (pending_embeddings l4)\<rparr>"
    by (simp only: merge_rest_def Let_def l1_def l2_def l3_def l4_def)
  then show ?thesis using l1 l2 l3 l4 by (simp add: l0_ok_frame l0_view_frame)
qed

lemma fold_keeps: "(\<And>x l. f (g x l) = f l) \<Longrightarrow> f (fold g xs l) = f l"
  by (induction xs arbitrary: l) simp_all

lemma key_inserts_keep:
  "current_version (insert_constraint_key k v l) = current_version l" "current_version (insert_merge_guard_key k v l) = current_version l"
  "current_version (insert_edge_constraint_key k i l) = current_version l"
  "vertex_created_at (insert_constraint_key k v l) = vertex_created_at l" "vertex_created_at (insert_merge_guard_key k v l) = vertex_created_at l"
  "vertex_created_at (insert_edge_constraint_key k i l) = vertex_created_at l"
  "vertex_updated_at (insert_constraint_key k v l) = vertex_updated_at l" "vertex_updated_at (insert_merge_guard_key k v l) = vertex_updated_at l"
  "vertex_updated_at (insert_edge_constraint_key k i l) = vertex_updated_at l"
  "plugin_registry (insert_constraint_key k v l) = plugin_registry l" "plugin_registry (insert_merge_guard_key k v l) = plugin_registry l"
  "plugin_registry (insert_edge_constraint_key k i l) = plugin_registry l"
  by (simp_all add: insert_constraint_key_eq insert_merge_guard_key_def insert_edge_constraint_key_def)

lemma merge_rest_keeps:
  "plugin_registry (merge_rest other l) = plugin_registry l"
  "current_version (merge_rest other l) = current_version l"
  "vertex_created_at (merge_rest other l) = fold (\<lambda>(vid, ts). or_insert vid ts) (vertex_created_at other) (vertex_created_at l)"
  "vertex_updated_at (merge_rest other l) = fold (\<lambda>(vid, ts). hput vid ts) (vertex_updated_at other) (vertex_updated_at l)"
  by (simp_all add: merge_rest_def Let_def fold_keeps [of current_version] fold_keeps [of plugin_registry] fold_keeps [of vertex_created_at]
      fold_keeps [of vertex_updated_at] key_inserts_keep split_beta)

end
