(* ===== verification/L0_Merge_Spec.thy ===== *)
theory L0_Merge_Spec
  imports L0_Merge_Phases
begin

text \<open>
  What a merge does as a whole: it is all-or-nothing, its validation is exact, and its effect on
  the abstract state has a closed form that does not depend on iteration order.
\<close>

subsection \<open>Composition of the phases\<close>

definition a_merge :: "('j, 'p) l0_env \<Rightarrow> 'p providers option \<Rightarrow> 'p l0_buffer \<Rightarrow> l0_abs \<Rightarrow> l0_abs" where
  "a_merge env reg other =
     fold (a_put_tombstone other) (tombstones other) \<circ>
     fold (a_put_edge env reg other (edge_properties other)) (edge_endpoints other) \<circ>
     fold (a_overwrite other) (vertex_label_overwrites other) \<circ>
     a_fill_labels (map_of (vertex_labels other)) \<circ>
     fold (a_put_vertex env reg other) (vertex_properties other) \<circ>
     fold a_delete_vertex (vertex_tombstones other)"

definition touches :: "vid set \<Rightarrow> (vid \<times> vid \<times> u32) option \<Rightarrow> bool" where
  "touches D e \<longleftrightarrow> (case e of None \<Rightarrow> False | Some (s, d, _) \<Rightarrow> s \<in> D \<or> d \<in> D)"

definition a_delete_set :: "vid set \<Rightarrow> l0_abs \<Rightarrow> l0_abs" where
  "a_delete_set D a =
     (a_drop {i. touches D (a_live a i)} a)\<lparr>a_verts := a_verts a - D, a_vdel := a_vdel a \<union> D,
        a_vprops := (\<lambda>v. if v \<in> D then None else a_vprops a v),
        a_ext := (\<lambda>k. case a_ext a k of None \<Rightarrow> None | Some v \<Rightarrow> if v \<in> D then None else Some v)\<rparr>"

lemma a_live_drop: "a_live (a_drop I a) i = (if i \<in> I then None else a_live a i)"
  by (auto simp: a_live_def a_drop_def)

lemma a_live_update [simp]:
  "a_live (a\<lparr>a_verts := x\<rparr>) = a_live a" "a_live (a\<lparr>a_vdel := x\<rparr>) = a_live a"
  "a_live (a\<lparr>a_vprops := y\<rparr>) = a_live a" "a_live (a\<lparr>a_ext := z\<rparr>) = a_live a" "a_live (a\<lparr>a_labels := w\<rparr>) = a_live a"
  by (simp_all add: a_live_def fun_eq_iff)

lemma a_drop_drop: "a_drop I (a_drop J a) = a_drop (I \<union> J) a"
  by (rule l0_abs.equality) (auto simp: a_drop_def fun_eq_iff)

lemma touches_None [simp]: "\<not> touches D None"
  by (simp add: touches_def)

lemma touches_insert: "touches (insert v D) e \<longleftrightarrow> at_vertex v e \<or> touches D e"
  by (auto simp: touches_def at_vertex_def split: option.split)

lemma a_drop_frame:
  "a_drop I (a\<lparr>a_verts := w, a_vdel := x, a_vprops := y, a_ext := z\<rparr>) =
     (a_drop I a)\<lparr>a_verts := w, a_vdel := x, a_vprops := y, a_ext := z\<rparr>"
  by (simp add: a_drop_def cong: if_cong)

lemma a_delete_set_insert: "a_delete_set D (a_delete_vertex v a) = a_delete_set (insert v D) a"
proof -
  have "{i. touches D (a_live (a_delete_vertex v a) i)} \<union> {i. at_vertex v (a_live a i)} = {i. touches (insert v D) (a_live a i)}"
    by (auto simp: a_delete_vertex_def a_live_drop touches_insert split: if_splits)
  note sets = this
  have "a_drop {i. touches D (a_live (a_delete_vertex v a) i)} (a_delete_vertex v a) =
      (a_drop {i. touches (insert v D) (a_live a i)} a)\<lparr>a_verts := a_verts a - {v}, a_vdel := insert v (a_vdel a),
        a_vprops := (a_vprops a)(v := None), a_ext := (\<lambda>k. if a_ext a k = Some v then None else a_ext a k)\<rparr>"
    unfolding sets [symmetric] a_drop_drop [symmetric] unfolding a_delete_vertex_def a_drop_frame ..
  then show ?thesis
    unfolding a_delete_set_def
    by (intro l0_abs.equality) (auto simp: a_delete_vertex_def a_drop_def fun_eq_iff split: option.split)
qed

lemma a_delete_set_empty: "a_delete_set {} a = a"
proof -
  have "{i. touches {} (a_live a i)} = {}" by (auto simp: touches_def split: option.split)
  moreover have "(\<lambda>k. case a_ext a k of None \<Rightarrow> None | Some v \<Rightarrow> if v \<in> {} then None else Some v) = a_ext a"
    by (auto simp: fun_eq_iff split: option.split)
  ultimately show ?thesis by (simp add: a_delete_set_def)
qed

lemma fold_delete: "fold a_delete_vertex vs a = a_delete_set (set vs) a"
  by (induction vs arbitrary: a) (simp_all add: a_delete_set_empty a_delete_set_insert)

subsection \<open>Closed forms of the folds\<close>

lemma a_put_vertex_fields [simp]:
  "a_verts (a_put_vertex env reg other e a) = insert (fst e) (a_verts a)"
  "a_vdel (a_put_vertex env reg other e a) = a_vdel a - {fst e}"
  "a_endp (a_put_vertex env reg other e a) = a_endp a" "a_edel (a_put_vertex env reg other e a) = a_edel a"
  "a_eprops (a_put_vertex env reg other e a) = a_eprops a" "a_types (a_put_vertex env reg other e a) = a_types a"
  "a_vprops (a_put_vertex env reg other e a) =
     (a_vprops a)(fst e \<mapsto> a_join env reg (case a_vprops a (fst e) of None \<Rightarrow> Map.empty | Some q \<Rightarrow> q) (map_of (snd e)))"
  "a_labels (a_put_vertex env reg other e a) = (a_labels a)(fst e \<mapsto>
     append_unique_labels (case a_labels a (fst e) of None \<Rightarrow> [] | Some ls \<Rightarrow> ls) (hget_or [] (vertex_labels other) (fst e)))"
  by (simp_all add: a_put_vertex_def a_insert_vertex_def Let_def)

lemma fold_put_vertex_const:
  "a_endp (fold (a_put_vertex env reg other) ps a) = a_endp a" "a_edel (fold (a_put_vertex env reg other) ps a) = a_edel a"
  "a_eprops (fold (a_put_vertex env reg other) ps a) = a_eprops a" "a_types (fold (a_put_vertex env reg other) ps a) = a_types a"
  "a_verts (fold (a_put_vertex env reg other) ps a) = a_verts a \<union> fst ` set ps"
  "a_vdel (fold (a_put_vertex env reg other) ps a) = a_vdel a - fst ` set ps"
  by (induction ps arbitrary: a) auto

lemma fold_put_vertex_props:
  assumes "hmap_ok ps"
  shows "a_vprops (fold (a_put_vertex env reg other) ps a) v =
      (case hget ps v of None \<Rightarrow> a_vprops a v
       | Some p \<Rightarrow> Some (a_join env reg (case a_vprops a v of None \<Rightarrow> Map.empty | Some q \<Rightarrow> q) (map_of p)))"
    "a_labels (fold (a_put_vertex env reg other) ps a) v =
      (case hget ps v of None \<Rightarrow> a_labels a v
       | Some p \<Rightarrow> Some (append_unique_labels (case a_labels a v of None \<Rightarrow> [] | Some ls \<Rightarrow> ls) (hget_or [] (vertex_labels other) v)))"
  using assms
proof (induction ps arbitrary: a)
  case (Cons e ps)
  {
    case 1
    have e: "hmap_ok ps" "hget ps (fst e) = None" using 1 by (cases e; simp add: hmap_ok_Cons)+
    show ?case using Cons.IH(1) [OF e(1)] e(2) by (cases e; cases "v = fst e"; cases "hget ps v") simp_all
  next
    case 2
    have e: "hmap_ok ps" "hget ps (fst e) = None" using 2 by (cases e; simp add: hmap_ok_Cons)+
    show ?case using Cons.IH(2) [OF e(1)] e(2) by (cases e; cases "v = fst e"; cases "hget ps v") simp_all
  }
qed simp_all

lemma fold_overwrite:
  "fold (a_overwrite other) vs a =
     a\<lparr>a_labels := (\<lambda>v. if v \<in> set vs \<and> v \<notin> set (vertex_tombstones other) then Some (hget_or [] (vertex_labels other) v) else a_labels a v)\<rparr>"
proof (induction vs arbitrary: a)
  case Nil
  then show ?case by simp
next
  case (Cons v vs)
  show ?case
    unfolding fold.simps comp_apply Cons.IH
    by (rule l0_abs.equality) (auto simp: a_overwrite_def a_set_labels_def fun_eq_iff)
qed

lemma a_put_edge_const [simp]:
  "a_vprops (a_put_edge env reg other ep e a) = a_vprops a" "a_labels (a_put_edge env reg other ep e a) = a_labels a"
  "a_ext (a_put_edge env reg other ep e a) = a_ext a"
  by (cases e, simp add: a_put_edge_def a_delete_edge_def a_insert_edge_def)+

lemma fold_put_edge_const:
  "a_vdel (fold (a_put_edge env reg other ep) es a) = a_vdel a" "a_vprops (fold (a_put_edge env reg other ep) es a) = a_vprops a"
  "a_labels (fold (a_put_edge env reg other ep) es a) = a_labels a" "a_ext (fold (a_put_edge env reg other ep) es a) = a_ext a"
  by (induction es arbitrary: a) simp_all

lemma a_put_edge_at:
  "a_endp (a_put_edge env reg other ep (i, e) a) =
     (if hget (tombstones other) i = None then (a_endp a)(i \<mapsto> e) else a_endp a)"
  "a_edel (a_put_edge env reg other ep (i, e) a) =
     (if hget (tombstones other) i = None then (a_edel a)(i := None) else (a_edel a)(i \<mapsto> te_of i e))"
  "a_eprops (a_put_edge env reg other ep (i, e) a) =
     (if hget (tombstones other) i = None \<and> hget_or [] ep i \<noteq> []
      then (a_eprops a)(i \<mapsto> a_join env reg (case a_eprops a i of None \<Rightarrow> Map.empty | Some p \<Rightarrow> p) (map_of (hget_or [] ep i)))
      else a_eprops a)"
  "a_types (a_put_edge env reg other ep (i, e) a) =
     (if hget (tombstones other) i = None \<and> hget (edge_types other) i \<noteq> None
      then (a_types a)(i := hget (edge_types other) i) else a_types a)"
  by (cases e; cases "hget (tombstones other) i"; cases "hget (edge_types other) i";
      simp add: a_put_edge_def a_delete_edge_def a_insert_edge_def)+

lemma fold_put_edge:
  assumes "hmap_ok es"
  shows "a_endp (fold (a_put_edge env reg other ep) es a) i =
      (case hget es i of None \<Rightarrow> a_endp a i | Some e \<Rightarrow> if hget (tombstones other) i = None then Some e else a_endp a i)"
    "a_edel (fold (a_put_edge env reg other ep) es a) i =
      (case hget es i of None \<Rightarrow> a_edel a i | Some e \<Rightarrow> if hget (tombstones other) i = None then None else Some (te_of i e))"
    "a_eprops (fold (a_put_edge env reg other ep) es a) i =
      (if hget es i \<noteq> None \<and> hget (tombstones other) i = None \<and> hget_or [] ep i \<noteq> []
       then Some (a_join env reg (case a_eprops a i of None \<Rightarrow> Map.empty | Some p \<Rightarrow> p) (map_of (hget_or [] ep i)))
       else a_eprops a i)"
    "a_types (fold (a_put_edge env reg other ep) es a) i =
      (if hget es i \<noteq> None \<and> hget (tombstones other) i = None \<and> hget (edge_types other) i \<noteq> None
       then hget (edge_types other) i else a_types a i)"
  using assms
proof (induction es arbitrary: a)
  case (Cons x es)
  obtain j e where x: "x = (j, e)" by (cases x)
  have ok: "hmap_ok es" "hget es j = None" if "hmap_ok (x # es)" using that by (simp_all add: x hmap_ok_Cons)
  {
    case 1
    show ?case using Cons.IH(1) [OF ok(1) [OF 1]] ok(2) [OF 1] by (cases "i = j"; cases "hget es i") (simp_all add: x a_put_edge_at)
  next
    case 2
    show ?case using Cons.IH(2) [OF ok(1) [OF 2]] ok(2) [OF 2] by (cases "i = j"; cases "hget es i") (simp_all add: x a_put_edge_at)
  next
    case 3
    show ?case using Cons.IH(3) [OF ok(1) [OF 3]] ok(2) [OF 3] by (cases "i = j"; cases "hget es i") (simp_all add: x a_put_edge_at)
  next
    case 4
    show ?case using Cons.IH(4) [OF ok(1) [OF 4]] ok(2) [OF 4] by (cases "i = j"; cases "hget es i") (simp_all add: x a_put_edge_at)
  }
qed simp_all

lemma fold_put_tombstone_const:
  "a_vdel (fold (a_put_tombstone other) ts a) = a_vdel a" "a_vprops (fold (a_put_tombstone other) ts a) = a_vprops a"
  "a_labels (fold (a_put_tombstone other) ts a) = a_labels a" "a_endp (fold (a_put_tombstone other) ts a) = a_endp a"
  "a_eprops (fold (a_put_tombstone other) ts a) = a_eprops a" "a_types (fold (a_put_tombstone other) ts a) = a_types a"
  by (induction ts arbitrary: a) (simp_all add: a_put_tombstone_def a_delete_edge_def)

lemma fold_put_tombstone:
  assumes "hmap_ok ts"
  shows "a_edel (fold (a_put_tombstone other) ts a) i =
      (case hget ts i of None \<Rightarrow> a_edel a i
       | Some te \<Rightarrow> if hget (edge_endpoints other) i = None then Some (te_of i (te_src te, te_dst te, te_type te)) else a_edel a i)"
  using assms
proof (induction ts arbitrary: a)
  case (Cons x ts)
  obtain j te where x: "x = (j, te)" by (cases x)
  have ok: "hmap_ok ts" "hget ts j = None" using Cons.prems by (simp_all add: x hmap_ok_Cons)
  show ?case
    using Cons.IH [OF ok(1)] ok(2) by (cases "i = j"; cases "hget ts i") (simp_all add: x a_put_tombstone_def a_delete_edge_def)
qed simp

subsection \<open>The merge as a whole\<close>

lemma validate_edges_iff:
  "validate_edges l other es = Inr () \<longleftrightarrow> edge_endpoints_live other es {v. effectively_deleted l other v}"
proof (induction es)
  case Nil
  then show ?case by (simp add: edge_endpoints_live_def)
next
  case (Cons e es)
  obtain i s d t where e: "e = (i, s, d, t)" by (cases e)
  show ?case by (cases "hget (tombstones other) i") (simp_all add: e edge_endpoints_live_Cons Cons.IH)
qed

lemma effectively_deleted_set:
  "{v. effectively_deleted l other v} =
     (set (vertex_tombstones l) \<union> set (vertex_tombstones other)) - fst ` set (vertex_properties other)"
  by (auto simp: effectively_deleted_def map_of_eq_None_iff)

text \<open>A merge takes one version for each write.\<close>

definition merge_writes :: "'p l0_buffer \<Rightarrow> nat" where
  "merge_writes other = length (vertex_tombstones other) + length (vertex_properties other) +
     length (filter (\<lambda>v. v \<notin> set (vertex_tombstones other)) (vertex_label_overwrites other)) +
     length (edge_endpoints other) + length (filter (\<lambda>(i, _). hget (edge_endpoints other) i = None) (tombstones other))"

lemma merge_validated_ok:
  assumes l: "l0_ok l" and other: "maps_ok other"
  shows "\<exists>r l'. merge_validated env clock other (vertex_properties other) (edge_properties other) l = Some (r, l') \<and>
    ((\<exists>c. r = Inr c) \<longleftrightarrow> validate_merge_edge_endpoints l other = Inr ()) \<and>
    ((\<exists>c. r = Inr c) \<longrightarrow> l0_ok l' \<and> l0_view l' = a_merge env (plugin_registry l) other (l0_view l) \<and>
       plugin_registry l' = plugin_registry l \<and> current_version l' = current_version l + merge_writes other)"
proof -
  note maps = other [unfolded maps_ok_def]
  obtain casc l1 where l1: "merge_deletions (vertex_tombstones other) l = Some (casc, l1)" "l0_ok l1"
    "l0_view l1 = fold a_delete_vertex (vertex_tombstones other) (l0_view l)" "plugin_registry l1 = plugin_registry l"
    "current_version l1 = current_version l + length (vertex_tombstones other)"
    using merge_deletions_ok [OF l] by blast
  define l2 where "l2 = merge_vertices env clock other (vertex_properties other) l1"
  have "\<forall>(v, p)\<in>set (vertex_properties other). hmap_ok p" using maps hmap_entries by fastforce
  then have l2: "l0_ok l2" "l0_view l2 = fold (a_put_vertex env (plugin_registry l) other) (vertex_properties other) (l0_view l1)"
    "plugin_registry l2 = plugin_registry l" "current_version l2 = current_version l1 + length (vertex_properties other)"
    using merge_vertices_ok [OF l1(2), of "vertex_properties other" env clock other] l1(4) by (simp_all add: l2_def)
  define l3 where "l3 = merge_labels (vertex_labels other) l2"
  have l3: "l0_ok l3" "l0_view l3 = a_fill_labels (map_of (vertex_labels other)) (l0_view l2)" "plugin_registry l3 = plugin_registry l"
    "current_version l3 = current_version l2"
    using merge_labels_ok [OF l2(1)] maps l2(3) by (simp_all add: l3_def)
  define l4 where "l4 = merge_overwrites other (vertex_label_overwrites other) l3"
  have l4: "l0_ok l4" "l0_view l4 = fold (a_overwrite other) (vertex_label_overwrites other) (l0_view l3)" "plugin_registry l4 = plugin_registry l"
    "current_version l4 = current_version l3 + length (filter (\<lambda>v. v \<notin> set (vertex_tombstones other)) (vertex_label_overwrites other))"
    using merge_overwrites_ok [OF l3(1), of other] l3(3) by (simp_all add: l4_def)
  have vdel: "a_vdel (l0_view l4) = {v. effectively_deleted l other v}"
    unfolding effectively_deleted_set l4(2) l3(2) l2(2) l1(3) fold_overwrite
    by (simp add: a_fill_labels_def fold_put_vertex_const fold_delete a_delete_set_def)
  obtain r l5 where l5: "merge_edges env clock other (edge_endpoints other) (edge_properties other) l4 = Some (r, l5)"
    "r = Inr () \<longleftrightarrow> edge_endpoints_live other (edge_endpoints other) {v. effectively_deleted l other v}"
    "r = Inr () \<longrightarrow> l0_ok l5 \<and>
       l0_view l5 = fold (a_put_edge env (plugin_registry l) other (edge_properties other)) (edge_endpoints other) (l0_view l4) \<and>
       plugin_registry l5 = plugin_registry l \<and> current_version l5 = current_version l4 + length (edge_endpoints other)"
    using merge_edges_ok [OF l4(1), of "edge_endpoints other" "edge_properties other" env clock other] maps vdel l4(3) by fastforce
  note run = merge_validated_def Let_def l1(1) l2_def [symmetric] l3_def [symmetric] l4_def [symmetric] l5(1)
  show ?thesis
  proof (cases r)
    case (Inl e)
    then have "merge_validated env clock other (vertex_properties other) (edge_properties other) l = Some (Inl e, l5)"
      by (simp add: run)
    moreover have "validate_merge_edge_endpoints l other \<noteq> Inr ()"
      using l5(2) Inl by (simp add: validate_merge_edge_endpoints_def validate_edges_iff)
    ultimately show ?thesis by simp
  next
    case (Inr u)
    then have "l0_ok l5" using l5(3) by simp
    then obtain l6 where l6: "merge_tombstones clock other (tombstones other) l5 = Some l6" "l0_ok l6"
      "l0_view l6 = fold (a_put_tombstone other) (tombstones other) (l0_view l5)" "plugin_registry l6 = plugin_registry l5"
      "current_version l6 = current_version l5 + length (filter (\<lambda>(i, _). hget (edge_endpoints other) i = None) (tombstones other))"
      using merge_tombstones_ok [of l5 clock other "tombstones other"] by blast
    have "plugin_registry (merge_rest other l6) = plugin_registry l" "current_version (merge_rest other l6) = current_version l + merge_writes other"
      using l5(3) Inr l6(4,5) l1(5) l2(4) l3(4) l4(4) by (simp_all add: merge_rest_keeps merge_writes_def)
    moreover have "merge_validated env clock other (vertex_properties other) (edge_properties other) l = Some (Inr casc, merge_rest other l6)"
      using Inr l6(1) by (simp add: run)
    moreover have "validate_merge_edge_endpoints l other = Inr ()"
      using l5(2) Inr by (simp add: validate_merge_edge_endpoints_def validate_edges_iff)
    moreover have "l0_view l6 = a_merge env (plugin_registry l) other (l0_view l)"
      using l5(3) Inr by (simp add: l6(3) l4(2) l3(2) l2(2) l1(3) a_merge_def)
    ultimately show ?thesis using merge_rest_ok [OF l6(2), of other] by simp
  qed
qed

text \<open>
  C7 (\<open>merge_all_or_nothing\<close>). A merge that fails its validation leaves the main buffer untouched;
  one that passes it never fails half-way and never panics, and keeps the main buffer consistent.
  The validation is exact: without it, precisely the merges it rejects would have failed after
  they had begun to write.
\<close>

theorem merge_all_or_nothing:
  assumes "l0_ok l" and "l0_ok other"
  shows "case validate_merge_edge_endpoints l other of
     Inl e \<Rightarrow> merge env clock other l = Some (Inl e, l) \<and>
       (\<exists>err l'. merge_validated env clock other (vertex_properties other) (edge_properties other) l = Some (Inl err, l'))
   | Inr _ \<Rightarrow> \<exists>cascaded l'. merge env clock other l = Some (Inr cascaded, l') \<and> l0_ok l'"
proof -
  obtain r l' where r: "merge_validated env clock other (vertex_properties other) (edge_properties other) l = Some (r, l')"
    "(\<exists>c. r = Inr c) \<longleftrightarrow> validate_merge_edge_endpoints l other = Inr ()" "(\<exists>c. r = Inr c) \<longrightarrow> l0_ok l'"
    using merge_validated_ok [OF assms(1) l0_okD(2) [OF assms(2)], of env clock] by blast
  show ?thesis
  proof (cases "validate_merge_edge_endpoints l other")
    case (Inl e)
    then show ?thesis using r by (cases r) (simp_all add: merge_def)
  next
    case (Inr u)
    then obtain c where "r = Inr c" using r(2) by auto
    then show ?thesis using r(1,3) Inr by (simp add: merge_def map_err_def)
  qed
qed

definition doomed_tx :: "unit l0_buffer option" where
  "doomed_tx = l0_run plain_env [OpInsertEdge 5 (Vid 1) (Vid 2) 0 (Eid 7) [] None] (l0_new 0 None)"

theorem merge_all_or_nothing_witness:
  "\<exists>l other e. l0_run plain_env [OpDeleteVertex (Vid 2)] (l0_new 0 None) = Some l \<and> doomed_tx = Some other \<and>
     merge plain_env (\<lambda>_. 9) other l = Some (Inl e, l)"
proof -
  have ops: "list_all op_ok [OpDeleteVertex (Vid 2)]" "list_all op_ok [OpInsertEdge 5 (Vid 1) (Vid 2) 0 (Eid 7) [] None]" by simp_all
  obtain l where l: "l0_run plain_env [OpDeleteVertex (Vid 2)] (l0_new 0 None) = Some l" "l0_ok l"
    "l0_view l = fold (a_step plain_env None) [OpDeleteVertex (Vid 2)] a_empty"
    using l0_run_new [OF ops(1)] by blast
  obtain other where other: "doomed_tx = Some other" "l0_ok other"
    "l0_view other = fold (a_step plain_env None) [OpInsertEdge 5 (Vid 1) (Vid 2) 0 (Eid 7) [] None] a_empty"
    using l0_run_new [OF ops(2)] unfolding doomed_tx_def by blast
  have del: "set (vertex_tombstones l) = {Vid 2}" using arg_cong [OF l(3), of a_vdel] by (simp add: a_delete_vertex_def a_empty_def)
  have v: "l0_view other = a_insert_edge plain_env None (Vid 1) (Vid 2) 0 (Eid 7) Map.empty None a_empty"
    unfolding other(3) by (simp add: a_write_edge_def a_empty_def)
  have "hget (tombstones other) (Eid 7) = None" "hget (vertex_properties other) (Vid 2) = None"
    "hget (edge_endpoints other) (Eid 7) = Some (Vid 1, Vid 2, 0)"
    using arg_cong [OF v, of a_edel] arg_cong [OF v, of "\<lambda>a. a_vprops a (Vid 2)"] arg_cong [OF v, of a_endp]
    by (simp_all add: a_insert_edge_def a_empty_def)
  then have "validate_merge_edge_endpoints l other \<noteq> Inr ()"
    using del map_of_SomeD [of "edge_endpoints other" "Eid 7"]
    by (force simp: validate_merge_edge_endpoints_def validate_edges_iff edge_endpoints_live_def effectively_deleted_def)
  then obtain e where "validate_merge_edge_endpoints l other = Inl e"
    by (cases "validate_merge_edge_endpoints l other") auto
  then show ?thesis using merge_all_or_nothing [OF l(2) other(2), of plain_env "\<lambda>_. 9"] l(1) other(1) by auto
qed

lemma merge_succeeds:
  assumes "l0_ok l" and "maps_ok other" and "validate_merge_edge_endpoints l other = Inr ()"
  shows "\<exists>cascaded l'. merge env clock other l = Some (Inr cascaded, l') \<and> l0_ok l' \<and>
    l0_view l' = a_merge env (plugin_registry l) other (l0_view l) \<and>
    plugin_registry l' = plugin_registry l \<and> current_version l' = current_version l + merge_writes other"
  using merge_validated_ok [OF assms(1,2), of env clock] assms(3) by (auto simp: merge_def map_err_def)

lemma merge_view:
  assumes "l0_ok l" and "maps_ok other" and "merge env clock other l = Some (Inr cascaded, l')"
  shows "l0_view l' = a_merge env (plugin_registry l) other (l0_view l)"
proof -
  have "validate_merge_edge_endpoints l other = Inr ()"
    using assms(3) by (auto simp: merge_def split: sum.splits)
  then show ?thesis using merge_succeeds [OF assms(1,2), of env clock] assms(3) by auto
qed

text \<open>
  C20 (\<open>merge_effect\<close>). After a successful merge, whatever the iteration orders: a vertex is deleted
  exactly if one side deleted it and the transaction did not write it; its properties are the main
  ones with the transaction's merged in key by key, or none if the transaction deleted it; an edge
  is the transaction's version of it, or else the main one unless the transaction deleted the edge
  or one of its ends.
\<close>

theorem merge_effect:
  assumes l: "l0_ok l" and other: "l0_ok other" and placed: "props_placed other"
    and run: "merge env clock other l = Some (Inr cascaded, l')"
  shows "set (vertex_tombstones l') =
      (set (vertex_tombstones l) \<union> set (vertex_tombstones other)) - set (all_vertex_vids other) \<and>
    (\<forall>v. map_option map_of (hget (vertex_properties l') v) =
      (if v \<in> set (vertex_tombstones other) then None
       else case hget (vertex_properties other) v of
              None \<Rightarrow> map_option map_of (hget (vertex_properties l) v)
            | Some p \<Rightarrow> Some (\<lambda>k. case hget p k of
                None \<Rightarrow> hget (hget_or [] (vertex_properties l) v) k
              | Some x \<Rightarrow> Some (merged_value env (plugin_registry l) (hget (hget_or [] (vertex_properties l) v) k) x)))) \<and>
    (\<forall>i. live_edge l' i =
      (if is_tombstoned other i then None
       else case get_edge_endpoint_full other i of
              Some e \<Rightarrow> Some e
            | None \<Rightarrow> if touches (set (vertex_tombstones other)) (live_edge l i) then None else live_edge l i))"
proof -
  note maps = l0_okD(2) [OF other, unfolded maps_ok_def]
  note view = merge_view [OF l l0_okD(2) [OF other] run]
  define a where "a = fold (a_put_vertex env (plugin_registry l) other) (vertex_properties other)
    (a_delete_set (set (vertex_tombstones other)) (l0_view l))"
  have unf: "l0_view l' = fold (a_put_tombstone other) (tombstones other)
    (fold (a_put_edge env (plugin_registry l) other (edge_properties other)) (edge_endpoints other)
      (fold (a_overwrite other) (vertex_label_overwrites other) (a_fill_labels (map_of (vertex_labels other)) a)))"
    by (simp add: view a_merge_def fold_delete a_def)
  have "set (vertex_tombstones l') = a_vdel a"
    using arg_cong [OF unf, of a_vdel] by (simp add: fold_put_tombstone_const fold_put_edge_const fold_overwrite a_fill_labels_def)
  then have 1: "set (vertex_tombstones l') = (set (vertex_tombstones l) \<union> set (vertex_tombstones other)) - set (all_vertex_vids other)"
    by (simp add: a_def fold_put_vertex_const a_delete_set_def all_vertex_vids_def)
  have 2: "map_option map_of (hget (vertex_properties l') v) =
      (if v \<in> set (vertex_tombstones other) then None
       else case hget (vertex_properties other) v of
              None \<Rightarrow> map_option map_of (hget (vertex_properties l) v)
            | Some p \<Rightarrow> Some (\<lambda>k. case hget p k of
                None \<Rightarrow> hget (hget_or [] (vertex_properties l) v) k
              | Some x \<Rightarrow> Some (merged_value env (plugin_registry l) (hget (hget_or [] (vertex_properties l) v) k) x)))" for v
  proof -
    have "map_option map_of (hget (vertex_properties l') v) = a_vprops a v"
      using arg_cong [OF unf, of "\<lambda>a. a_vprops a v"] by (simp add: fold_put_tombstone_const fold_put_edge_const fold_overwrite a_fill_labels_def)
    then show ?thesis
      using props_not_deleted [OF other placed, of v] maps
      by (auto simp: a_def fold_put_vertex_props a_delete_set_def a_drop_def a_join_def hget_or_def fun_eq_iff split: option.splits)
  qed
  have 3: "live_edge l' i =
      (if is_tombstoned other i then None
       else case get_edge_endpoint_full other i of
              Some e \<Rightarrow> Some e
            | None \<Rightarrow> if touches (set (vertex_tombstones other)) (live_edge l i) then None else live_edge l i)" for i
  proof -
    have "a_live a i = (if touches (set (vertex_tombstones other)) (live_edge l i) then None else live_edge l i)"
      by (simp add: a_live_def a_def fold_put_vertex_const) (simp add: a_delete_set_def a_drop_def a_live_def live_edge_def)
    moreover have "live_edge l' i = a_live (l0_view l') i" by simp
    ultimately show ?thesis
      unfolding unf a_live_def fold_put_tombstone_const
      using maps by (auto simp: fold_put_tombstone fold_put_edge fold_overwrite a_fill_labels_def is_tombstoned_def
          get_edge_endpoint_full_def split: option.splits)
  qed
  show ?thesis using 1 2 3 by blast
qed

lemma hget_none_iff: "(\<forall>k. hget m k = None) \<longleftrightarrow> m = []"
  by (cases m) (auto intro: exI [of _ "fst (hd m)"])

theorem merge_effect_witness:
  "\<exists>l other cascaded l'.
     l0_run plain_env [OpInsertEdge 5 (Vid 1) (Vid 2) 0 (Eid 7) [] None] (l0_new 0 None) = Some l \<and>
     l0_run plain_env [OpDeleteVertex (Vid 2)] (l0_new 0 None) = Some other \<and>
     merge plain_env (\<lambda>_. 9) other l = Some (Inr cascaded, l') \<and>
     live_edge l (Eid 7) = Some (Vid 1, Vid 2, 0) \<and> live_edge l' (Eid 7) = None \<and> vertex_tombstones l' = [Vid 2]"
proof -
  have ops: "list_all op_ok [OpDeleteVertex (Vid 2)]" "list_all op_ok [OpInsertEdge 5 (Vid 1) (Vid 2) 0 (Eid 7) [] None]" by simp_all
  obtain other where other: "l0_run plain_env [OpDeleteVertex (Vid 2)] (l0_new 0 None) = Some other" "l0_ok other"
    "l0_view other = fold (a_step plain_env None) [OpDeleteVertex (Vid 2)] a_empty"
    using l0_run_new [OF ops(1)] by blast
  obtain l where l: "l0_run plain_env [OpInsertEdge 5 (Vid 1) (Vid 2) 0 (Eid 7) [] None] (l0_new 0 None) = Some l" "l0_ok l"
    "l0_view l = fold (a_step plain_env None) [OpInsertEdge 5 (Vid 1) (Vid 2) 0 (Eid 7) [] None] a_empty"
    using l0_run_new [OF ops(2)] by blast
  have o: "set (vertex_tombstones other) = {Vid 2}" "edge_endpoints other = []" "vertex_properties other = []"
    "hget (tombstones other) (Eid 7) = None"
    using arg_cong [OF other(3), of a_vdel] arg_cong [OF other(3), of a_endp] arg_cong [OF other(3), of "\<lambda>a. a_edel a (Eid 7)"]
      arg_cong [OF other(3), of "\<lambda>a v. a_vprops a v"]
    by (auto simp: a_delete_vertex_def a_empty_def a_drop_def a_live_def at_vertex_def fun_eq_iff hget_none_iff split: option.splits)
  have v: "l0_view l = a_insert_edge plain_env None (Vid 1) (Vid 2) 0 (Eid 7) Map.empty None a_empty"
    unfolding l(3) by (simp add: a_write_edge_def a_empty_def)
  have l7: "live_edge l (Eid 7) = Some (Vid 1, Vid 2, 0)" "set (vertex_tombstones l) = {}"
    using arg_cong [OF v, of a_endp] arg_cong [OF v, of a_edel] arg_cong [OF v, of a_vdel]
    by (simp_all add: a_insert_edge_def a_empty_def live_edge_def)
  have "validate_merge_edge_endpoints l other = Inr ()" by (simp add: validate_merge_edge_endpoints_def o)
  then obtain c l' where run: "merge plain_env (\<lambda>_. 9) other l = Some (Inr c, l')" "l0_ok l'"
    using merge_succeeds [OF l(2) l0_okD(2) [OF other(2)]] by blast
  have placed: "props_placed other" by (simp add: props_placed_def o)
  have "set (vertex_tombstones l') = {Vid 2}" "live_edge l' (Eid 7) = None"
    using merge_effect [OF l(2) other(2) placed run(1)] o l7
    by (simp_all add: all_vertex_vids_def is_tombstoned_def get_edge_endpoint_full_def touches_def)
  moreover have "distinct (vertex_tombstones l')" using run(2) by (simp add: l0_ok_def topo_ok_def)
  ultimately have "vertex_tombstones l' = [Vid 2]"
    by (metis distinct_card card.empty card_insert_disjoint finite.emptyI insert_absorb insert_not_empty length_0_conv length_Suc_conv list.set(1,2) singleton_insert_inj_eq One_nat_def)
  then show ?thesis using l l7 other(1) run(1) \<open>live_edge l' (Eid 7) = None\<close> by blast
qed

end
