(* ===== verification/L0_Replay.thy ===== *)
theory L0_Replay
  imports L0_Merge_Spec
begin

text \<open>
  Recovery. A replayed mutation refines the same abstract operation as the live write that logged
  it, so replaying the log of any sequence of writes rebuilds what the writes produced.
\<close>

subsection \<open>Replayed mutations\<close>

definition a_add_labels :: "vid \<Rightarrow> string list \<Rightarrow> l0_abs \<Rightarrow> l0_abs" where
  "a_add_labels v labels a =
     a\<lparr>a_labels := (a_labels a)(v \<mapsto> append_unique_labels (case a_labels a v of None \<Rightarrow> [] | Some ls \<Rightarrow> ls) labels)\<rparr>"

fun a_replay :: "('j, 'p) l0_env \<Rightarrow> 'p providers option \<Rightarrow> mutation \<Rightarrow> l0_abs \<Rightarrow> l0_abs" where
  "a_replay env reg (InsertVertex v props labels created updated) a = a_insert_vertex env reg v (map_of props) labels a"
| "a_replay env reg (DeleteVertex v labels) a = a_delete_vertex v (if labels = [] then a else a_add_labels v labels a)"
| "a_replay env reg (SetVertexLabels v labels) a = a_set_labels v labels a"
| "a_replay env reg (InsertEdge s d t i version props tname created updated) a = a_write_edge env reg s d t i (map_of props) tname a"
| "a_replay env reg (DeleteEdge i s d t version tname) a = a_delete_edge i s d t a"

fun mutation_ok :: "mutation \<Rightarrow> bool" where
  "mutation_ok (InsertVertex _ props _ _ _) = hmap_ok props"
| "mutation_ok (InsertEdge _ _ _ _ _ props _ _ _) = hmap_ok props"
| "mutation_ok _ = True"

text \<open>The insertion arm is \<open>apply_vertex_write\<close> up to the timestamps and the size estimate.\<close>

lemma replay_insert_vertex_twin:
  "replay_mutation env (InsertVertex v props labels created updated) l =
     Some ((apply_vertex_write env v props labels (current_version l + 1) now (l\<lparr>current_version := current_version l + 1\<rparr>))
       \<lparr>vertex_created_at := or_insert_opt v created (vertex_created_at l),
        vertex_updated_at := hput_opt v updated (vertex_updated_at l), estimated_size := estimated_size l\<rparr>)"
  by (simp add: apply_vertex_write_def restore_labels_def index_labels_for_vid_def sync_extid_index_def Let_def)

lemma restore_labels_ok:
  assumes "l0_ok l"
  shows "l0_ok (restore_labels v labels l) \<and> l0_view (restore_labels v labels l) = a_add_labels v labels (l0_view l)"
proof -
  let ?l = "restore_labels v labels l"
  note parts = l0_okD [OF assms]
  have "label \<in> set (hget_or [] (vertex_labels ?l) u)" if u: "u \<in> set (vids_for_label ?l label)" for label u
  proof (cases "u \<in> set (vids_for_label l label)")
    case True
    then have "label \<in> set (hget_or [] (vertex_labels l) u)" using parts(5) by (simp add: labels_sound_def)
    then show ?thesis by (cases "u = v") (simp_all add: restore_labels_def hget_or_def)
  next
    case False
    then have "u = v \<and> label \<in> set labels"
      using u by (auto simp: restore_labels_def vids_for_label_def set_index_labels split: if_splits)
    then show ?thesis by (simp add: restore_labels_def hget_or_def)
  qed
  then have "labels_sound ?l" by (simp add: labels_sound_def)
  moreover have "topo_ok ?l" by (rule iffD1 [OF topo_ok_cong parts(1)]) (simp_all add: restore_labels_def)
  moreover have "maps_ok ?l" "extid_sound ?l" "keys_ok ?l"
    using parts(2-4) by (auto simp: maps_ok_def extid_sound_def keys_ok_def restore_labels_def)
  moreover have "l0_view ?l = a_add_labels v labels (l0_view l)"
    by (simp add: restore_labels_def a_add_labels_def l0_view_def hget_or_def fun_eq_iff)
  ultimately show ?thesis by (simp add: l0_ok_def)
qed

lemma replay_set_labels:
  "replay_mutation env (SetVertexLabels v labels) l = Some (set_vertex_labels v labels l)"
proof -
  have "remove_vid_from_label_index v (l\<lparr>current_version := n, vertex_label_versions := m\<rparr>) =
      (remove_vid_from_label_index v l)\<lparr>current_version := n, vertex_label_versions := m\<rparr>" for n m
    by (simp add: remove_vid_from_label_index_def split: option.split)
  moreover obtain m where "remove_vid_from_label_index v l = l\<lparr>label_to_vids := m\<rparr>"
    using remove_vid_label_index by blast
  ultimately show ?thesis by (simp add: set_vertex_labels_def Let_def index_labels_for_vid_def)
qed

lemma replay_mutation_ok:
  assumes ok: "l0_ok l" and mu: "mutation_ok mu"
  shows "\<exists>l'. replay_mutation env mu l = Some l' \<and> l0_ok l' \<and> l0_view l' = a_replay env (plugin_registry l) mu (l0_view l) \<and>
    plugin_registry l' = plugin_registry l \<and> current_version l' = current_version l + 1"
proof (cases mu)
  case (InsertVertex v props labels created updated)
  let ?l1 = "l\<lparr>current_version := current_version l + 1\<rparr>"
  define l2 where "l2 = apply_vertex_write env v props labels (current_version l + 1) 0 ?l1"
  have "l2 = insert_vertex_with_labels_impl env 0 v props labels True l"
    by (simp add: l2_def insert_vertex_with_labels_impl_def Let_def)
  then have "l0_ok l2" "l0_view l2 = a_insert_vertex env (plugin_registry l) v (map_of props) labels (l0_view l)"
    "plugin_registry l2 = plugin_registry l" "current_version l2 = current_version l + 1"
    using insert_vertex_impl_ok [OF ok, of props env] mu InsertVertex by simp_all
  then show ?thesis
    using replay_insert_vertex_twin [of env v props labels created updated l 0] unfolding l2_def [symmetric]
    by (simp add: InsertVertex l0_ok_frame l0_view_frame)
next
  case (DeleteVertex v labels)
  let ?l1 = "l\<lparr>current_version := current_version l + 1\<rparr>"
  define l2 where "l2 = (if labels = [] then ?l1 else restore_labels v labels ?l1)"
  have l1: "l0_ok ?l1" "l0_view ?l1 = l0_view l" using ok by (simp_all add: l0_ok_frame l0_view_frame)
  then have l2: "l0_ok l2" "l0_view l2 = (if labels = [] then l0_view l else a_add_labels v labels (l0_view l))"
    using restore_labels_ok [OF l1(1), of v labels] by (simp_all add: l2_def)
  have "plugin_registry l2 = plugin_registry l" "current_version l2 = current_version l + 1"
    by (simp_all add: l2_def restore_labels_def)
  moreover obtain l' where l': "apply_vertex_deletion v l2 = Some (cascaded_entries l2 v, l')" "l0_ok l'"
    "l0_view l' = a_delete_vertex v (l0_view l2)" "kept_by_delete l2 l'"
    using apply_vertex_deletion_ok [OF l2(1), of v] by blast
  moreover have "replay_mutation env mu l = Some l'"
    unfolding DeleteVertex replay_mutation.simps Let_def l2_def [symmetric] l'(1) by simp
  ultimately show ?thesis using l2(2) by (simp add: DeleteVertex kept_by_delete_def)
next
  case (SetVertexLabels v labels)
  have "current_version (set_vertex_labels v labels l) = current_version l + 1"
    by (simp add: set_vertex_labels_def Let_def index_labels_for_vid_def)
  then show ?thesis
    using set_vertex_labels_ok [OF ok] by (simp add: SetVertexLabels replay_set_labels del: replay_mutation.simps)
next
  case (InsertEdge s d t i version props tname created updated)
  let ?l1 = "l\<lparr>current_version := current_version l + 1\<rparr>"
  have l1: "l0_ok ?l1" "l0_view ?l1 = l0_view l" using ok by (simp_all add: l0_ok_frame l0_view_frame)
  show ?thesis
  proof (cases "deleted_endpoint ?l1 s d")
    case None
    obtain l2 where l2: "apply_edge_insertion env s d t i props ?l1 = Some (Inr (), l2)" "l0_ok l2"
      "l0_view l2 = a_insert_edge env (plugin_registry l) s d t i (map_of props) None (l0_view l)" "kept_by_delete ?l1 l2"
      using apply_edge_insertion_ok [OF l1(1) _ None, of props env t i] mu l1(2) by (auto simp: InsertEdge)
    let ?l3 = "l2\<lparr>edge_types := hput_opt i tname (edge_types l2), edge_created_at := or_insert_opt i created (edge_created_at l2),
      edge_updated_at := hput_opt i updated (edge_updated_at l2)\<rparr>"
    have "l0_ok ?l3" using l2(2) by (cases tname) (auto simp: l0_ok_def l0_inv_defs hput_opt_def)
    moreover have "l0_view ?l3 = a_insert_edge env (plugin_registry l) s d t i (map_of props) tname (l0_view l)"
      using l2(3) by (cases tname) (simp_all add: l0_view_def a_insert_edge_def hput_opt_def update_conv')
    moreover have "a_write_edge env (plugin_registry l) s d t i (map_of props) tname (l0_view l) =
        a_insert_edge env (plugin_registry l) s d t i (map_of props) tname (l0_view l)"
      using None deleted_endpoint_iff [of ?l1 s d] l1(2) by (simp add: a_write_edge_def)
    ultimately show ?thesis using l2(1,4) by (simp add: InsertEdge kept_by_delete_def)
  next
    case (Some e)
    have "a_write_edge env (plugin_registry l) s d t i (map_of props) tname (l0_view l) = l0_view l"
      using Some deleted_endpoint_iff [of ?l1 s d] l1(2) by (auto simp: a_write_edge_def)
    then show ?thesis using apply_edge_insertion_error [OF Some, of env t i props] l1 by (simp add: InsertEdge)
  qed
next
  case (DeleteEdge i s d t version tname)
  let ?l1 = "l\<lparr>current_version := current_version l + 1\<rparr>"
  have l1: "l0_ok ?l1" "l0_view ?l1 = l0_view l" using ok by (simp_all add: l0_ok_frame l0_view_frame)
  then show ?thesis
    using apply_edge_deletion_ok [OF l1(1), of i s d t] by (auto simp: DeleteEdge kept_by_delete_def)
qed

lemma replay_mutations_append:
  "replay_mutations env (mus @ mus') l = Option.bind (replay_mutations env mus l) (replay_mutations env mus')"
proof (induction mus arbitrary: l)
  case (Cons mu mus)
  then show ?case by (cases "replay_mutation env mu l") simp_all
qed simp

lemma replay_mutations_ok:
  assumes "l0_ok l" "list_all mutation_ok mus"
  shows "\<exists>l'. replay_mutations env mus l = Some l' \<and> l0_ok l' \<and>
    l0_view l' = fold (a_replay env (plugin_registry l)) mus (l0_view l) \<and>
    plugin_registry l' = plugin_registry l \<and> current_version l' = current_version l + length mus"
  using assms
proof (induction mus arbitrary: l)
  case (Cons mu mus)
  obtain l1 where "replay_mutation env mu l = Some l1" "l0_ok l1" "l0_view l1 = a_replay env (plugin_registry l) mu (l0_view l)"
    "plugin_registry l1 = plugin_registry l" "current_version l1 = current_version l + 1"
    using replay_mutation_ok [OF Cons.prems(1), of mu env] Cons.prems(2) by auto
  then show ?case using Cons.IH [of l1] Cons.prems(2) by simp
qed simp

subsection \<open>The log of a run\<close>

text \<open>What an operation appends to the log, and the operations the log is complete for.\<close>

fun log_entry :: "l0_op \<Rightarrow> 'p l0_buffer \<Rightarrow> mutation list" where
  "log_entry (OpInsertVertex now v props labels) l = [InsertVertex v props labels (Some now) (Some now)]"
| "log_entry (OpUpdateVertex now v props labels) l = [InsertVertex v props labels (Some now) (Some now)]"
| "log_entry (OpDeleteVertex v) l = [DeleteVertex v (hget_or [] (vertex_labels l) v)]"
| "log_entry (OpInsertEdge now s d t i props tname) l =
     [InsertEdge s d t i (current_version l + 1) props tname (Some now) (Some now)]"
| "log_entry (OpUpdateEdge now s d t i props tname) l =
     [InsertEdge s d t i (current_version l + 1) props tname (Some now) (Some now)]"
| "log_entry (OpDeleteEdge now i s d t) l = [DeleteEdge i s d t (current_version l + 1) (hget (edge_types l) i)]"
| "log_entry _ l = []"

fun op_logged :: "l0_op \<Rightarrow> bool" where
  "op_logged (OpRelabel _ _ _) = False"
| "op_logged (OpSetEdgeType _ _) = False"
| "op_logged _ = True"

lemma log_entry_ok: "op_ok p \<Longrightarrow> list_all mutation_ok (log_entry p l)"
  by (cases p) simp_all

lemma append_own_labels: "set labels \<subseteq> set ls \<Longrightarrow> append_unique_labels ls labels = ls"
  unfolding append_unique_labels_def by (induction labels arbitrary: ls) (auto simp: hset_insert_def)

lemma replay_of_step:
  assumes "op_logged p"
  shows "fold (a_replay env reg) (log_entry p l) (l0_view l) = a_step env reg p (l0_view l)"
proof (cases p)
  case (OpDeleteVertex v)
  have "a_add_labels v (hget_or [] (vertex_labels l) v) (l0_view l) = l0_view l" if "hget_or [] (vertex_labels l) v \<noteq> []"
    using that by (auto simp: a_add_labels_def hget_or_def append_own_labels map_upd_triv split: option.splits)
  then show ?thesis by (simp add: OpDeleteVertex)
qed (use assms in simp_all)

text \<open>A step takes a version for each mutation it logs, and appends it to the log.\<close>

definition logs :: "'p l0_buffer \<Rightarrow> 'p l0_buffer \<Rightarrow> mutation list \<Rightarrow> bool" where
  "logs l l' mus \<longleftrightarrow> wal l' = map_option (\<lambda>w. w @ mus) (wal l) \<and> current_version l' = current_version l + length mus"

lemma logs_frame [simp]:
  "logs l (m\<lparr>stats := s\<rparr>) mus = logs l m mus" "logs l (m\<lparr>created_vertices := cv\<rparr>) mus = logs l m mus"
  "logs l (m\<lparr>created_edges := ce\<rparr>) mus = logs l m mus" "logs l (m\<lparr>estimated_size := n\<rparr>) mus = logs l m mus"
  "logs l (m\<lparr>statement := st\<rparr>) mus = logs l m mus" "logs l (add_stats f m) mus = logs l m mus"
  by (simp_all add: logs_def add_stats_def)

lemma wal_append_logs: "logs l (wal_append mu (l\<lparr>current_version := current_version l + 1\<rparr>)) [mu]"
  by (simp add: logs_def wal_append_def split: option.split)

lemma insert_vertex_impl_logs:
  "logs l (insert_vertex_with_labels_impl env now v props labels False l) [InsertVertex v props labels (Some now) (Some now)]"
  by (simp add: insert_vertex_with_labels_impl_def apply_vertex_write_def index_labels_for_vid_def sync_extid_index_def
      Let_def logs_def wal_append_def split: option.split)

lemma insert_edge_impl_logs:
  assumes "l0_ok l" "hmap_ok props"
  shows "\<exists>r l'. insert_edge_impl env now s d t i props tname False l = Some (r, l') \<and>
    logs l l' [InsertEdge s d t i (current_version l + 1) props tname (Some now) (Some now)]"
proof -
  let ?mu = "InsertEdge s d t i (current_version l + 1) props tname (Some now) (Some now)"
  define l2 where "l2 = wal_append ?mu (l\<lparr>current_version := current_version l + 1\<rparr>)"
  have l2: "l0_ok l2" "logs l l2 [?mu]" using assms(1) wal_append_logs by (simp_all add: l2_def l0_ok_frame)
  have run: "insert_edge_impl env now s d t i props tname False l =
      (case apply_edge_insertion env s d t i props l2 of
         None \<Rightarrow> None
       | Some (Inl e, l3) \<Rightarrow> Some (Inl e, l3)
       | Some (Inr _, l3) \<Rightarrow> Some (Inr (), l3\<lparr>edge_types := (case tname of Some name \<Rightarrow> hput i name (edge_types l3) | None \<Rightarrow> edge_types l3),
            edge_created_at := or_insert i now (edge_created_at l3), edge_updated_at := hput i now (edge_updated_at l3),
            estimated_size := estimated_size l3 + (case tname of Some name \<Rightarrow> length name + 24 | None \<Rightarrow> 0)\<rparr>))"
    by (simp add: insert_edge_impl_def Let_def l2_def split: option.split sum.split prod.split)
  show ?thesis
  proof (cases "deleted_endpoint l2 s d")
    case None
    then obtain l3 where "apply_edge_insertion env s d t i props l2 = Some (Inr (), l3)" "kept_by_delete l2 l3"
      using apply_edge_insertion_ok [OF l2(1) assms(2), of s d env t i] by blast
    then show ?thesis using l2(2) by (simp add: run kept_by_delete_def logs_def)
  next
    case (Some e)
    then show ?thesis using apply_edge_insertion_error [OF Some, of env t i props] l2(2) by (simp add: run)
  qed
qed

lemma l0_step_logs:
  assumes ok: "l0_ok l" and op: "op_ok p" "op_logged p"
  shows "\<exists>l'. l0_step env p l = Some l' \<and> logs l l' (log_entry p l)"
proof (cases p)
  case (OpInsertVertex now v props labels)
  then show ?thesis
    using insert_vertex_impl_logs [of l env now v props labels] by (simp add: insert_vertex_with_labels_def Let_def)
next
  case (OpUpdateVertex now v props labels)
  then show ?thesis using insert_vertex_impl_logs by (simp add: update_vertex_with_labels_def)
next
  case (OpDeleteVertex v)
  let ?mu = "DeleteVertex v (hget_or [] (vertex_labels l) v)"
  define l2 where "l2 = wal_append ?mu (l\<lparr>current_version := current_version l + 1\<rparr>)"
  have l2: "l0_ok l2" "logs l l2 [?mu]" using ok wal_append_logs by (simp_all add: l2_def l0_ok_frame)
  have "delete_vertex v l = apply_vertex_deletion v l2" by (simp add: delete_vertex_def delete_vertex_impl_def Let_def l2_def)
  then show ?thesis
    using apply_vertex_deletion_ok [OF l2(1), of v] l2(2) by (auto simp: OpDeleteVertex kept_by_delete_def logs_def)
next
  case (OpInsertEdge now s d t i props tname)
  then obtain r l' where "insert_edge_impl env now s d t i props tname False l = Some (r, l')"
    "logs l l' [InsertEdge s d t i (current_version l + 1) props tname (Some now) (Some now)]"
    using insert_edge_impl_logs [OF ok, of props env now s d t i tname] op by auto
  then show ?thesis by (cases r) (simp_all add: OpInsertEdge insert_edge_def Let_def)
next
  case (OpUpdateEdge now s d t i props tname)
  then show ?thesis using insert_edge_impl_logs [OF ok, of props env now s d t i tname] op by (auto simp: update_edge_def)
next
  case (OpDeleteEdge now i s d t)
  let ?mu = "DeleteEdge i s d t (current_version l + 1) (hget (edge_types l) i)"
  define l2 where "l2 = wal_append ?mu (l\<lparr>current_version := current_version l + 1\<rparr>)"
  have l2: "l0_ok l2" "logs l l2 [?mu]" using ok wal_append_logs by (simp_all add: l2_def l0_ok_frame)
  have "delete_edge now i s d t l = map_option (\<lambda>l3. l3\<lparr>edge_updated_at := hput i now (edge_updated_at l3)\<rparr>) (apply_edge_deletion i s d t l2)"
    by (simp add: delete_edge_def delete_edge_impl_def Let_def l2_def)
  then show ?thesis
    using apply_edge_deletion_ok [OF l2(1), of i s d t] l2(2) by (auto simp: OpDeleteEdge kept_by_delete_def logs_def)
qed (use op in \<open>simp_all add: logs_def insert_constraint_key_eq insert_edge_constraint_key_def insert_merge_guard_key_def
       begin_statement_def end_statement_def Let_def option.map_ident\<close>)

lemma l0_run_replay:
  assumes "l0_ok l" "list_all op_ok ps" "list_all op_logged ps" and "l0_ok r" "l0_view r = l0_view l"
    "plugin_registry r = plugin_registry l" "current_version r = current_version l"
  shows "\<exists>l' mus r'. l0_run env ps l = Some l' \<and> logs l l' mus \<and> replay_mutations env mus r = Some r' \<and>
    l0_ok r' \<and> l0_view r' = l0_view l' \<and> current_version r' = current_version l'"
  using assms
proof (induction ps arbitrary: l r)
  case Nil
  have "logs l l []" by (simp add: logs_def option.map_ident)
  then show ?case using Nil by (auto intro!: exI [of _ "[]"])
next
  case (Cons p ps)
  obtain l1 where l1: "l0_step env p l = Some l1" "l0_ok l1" "l0_view l1 = a_step env (plugin_registry l) p (l0_view l)"
    "plugin_registry l1 = plugin_registry l" "logs l l1 (log_entry p l)"
    using l0_step_refines [OF Cons.prems(1), of p env] l0_step_logs [OF Cons.prems(1), of p env] Cons.prems(2,3) by fastforce
  obtain r1 where r1: "replay_mutations env (log_entry p l) r = Some r1" "l0_ok r1"
    "l0_view r1 = fold (a_replay env (plugin_registry r)) (log_entry p l) (l0_view r)"
    "plugin_registry r1 = plugin_registry r" "current_version r1 = current_version r + length (log_entry p l)"
    using replay_mutations_ok [OF Cons.prems(4), of "log_entry p l" env] log_entry_ok [of p l] Cons.prems(2) by auto
  have "l0_view r1 = l0_view l1" "current_version r1 = current_version l1"
    using r1(3,5) l1(3,5) replay_of_step [of p env "plugin_registry l" l] Cons.prems(3,5-7) by (simp_all add: logs_def)
  then obtain l' mus r' where *: "l0_run env ps l1 = Some l'" "logs l1 l' mus" "replay_mutations env mus r1 = Some r'"
    "l0_ok r'" "l0_view r' = l0_view l'" "current_version r' = current_version l'"
    using Cons.IH [of l1 r1] Cons.prems(2,3,6) l1(2,4) r1(2,4) by auto
  have "logs l l' (log_entry p l @ mus)" using l1(5) *(2) by (cases "wal l") (simp_all add: logs_def)
  moreover have "replay_mutations env (log_entry p l @ mus) r = Some r'"
    using r1(1) *(3) by (simp add: replay_mutations_append)
  ultimately show ?case using l1(1) *(1,4-6) by auto
qed



end
