(* ===== verification/Commit_Log.thy ===== *)
theory Commit_Log
  imports L0_Replay
begin

text \<open>
  The mutations a commit writes to the log before it merges
  (\<^verbatim>\<open>crates/uni-store/src/runtime/writer.rs\<close>, step 1 of \<open>commit_transaction_l0_sequenced\<close>), and why
  replaying them after a crash gives what the merge would have given.
\<close>

text \<open>\<open>name_by_id\<close> is the schema's edge type registry (\<open>edge_type_name_by_id_unified\<close>).\<close>

definition wal_edge_type_name :: "(u32 \<Rightarrow> string option) \<Rightarrow> 'p l0_buffer \<Rightarrow> eid \<Rightarrow> u32 \<Rightarrow> string option" where
  "wal_edge_type_name name_by_id tx_l0 eid edge_type =
     (case hget (edge_types tx_l0) eid of Some name \<Rightarrow> Some name | None \<Rightarrow> name_by_id edge_type)"

definition vertex_mutation :: "'p l0_buffer \<Rightarrow> vid \<times> properties \<Rightarrow> mutation" where
  "vertex_mutation tx_l0 = (\<lambda>(vid, properties).
     InsertVertex vid properties (hget_or [] (vertex_labels tx_l0) vid)
       (hget (vertex_created_at tx_l0) vid) (hget (vertex_updated_at tx_l0) vid))"

definition edge_mutation :: "(u32 \<Rightarrow> string option) \<Rightarrow> 'p l0_buffer \<Rightarrow> eid \<times> vid \<times> vid \<times> u32 \<Rightarrow> mutation" where
  "edge_mutation name_by_id tx_l0 = (\<lambda>(eid, src, dst, edge_type).
     let version = hget_or 0 (edge_versions tx_l0) eid
     in if hget (tombstones tx_l0) eid \<noteq> None
        then DeleteEdge eid src dst edge_type version (wal_edge_type_name name_by_id tx_l0 eid edge_type)
        else InsertEdge src dst edge_type eid version (hget_or [] (edge_properties tx_l0) eid) (hget (edge_types tx_l0) eid)
               (hget (edge_created_at tx_l0) eid) (hget (edge_updated_at tx_l0) eid))"

definition tombstone_mutation :: "(u32 \<Rightarrow> string option) \<Rightarrow> 'p l0_buffer \<Rightarrow> eid \<times> tombstone_entry \<Rightarrow> mutation" where
  "tombstone_mutation name_by_id tx_l0 = (\<lambda>(eid, te).
     DeleteEdge eid (te_src te) (te_dst te) (te_type te) (hget_or 0 (edge_versions tx_l0) eid)
       (wal_edge_type_name name_by_id tx_l0 eid (te_type te)))"

definition commit_mutations :: "(u32 \<Rightarrow> string option) \<Rightarrow> 'p l0_buffer \<Rightarrow> mutation list" where
  "commit_mutations name_by_id tx_l0 =
     map (vertex_mutation tx_l0) (filter (\<lambda>(vid, _). vid \<notin> set (vertex_tombstones tx_l0)) (vertex_properties tx_l0))
     @ map (\<lambda>vid. DeleteVertex vid (hget_or [] (vertex_labels tx_l0) vid)) (vertex_tombstones tx_l0)
     @ map (\<lambda>vid. SetVertexLabels vid (hget_or [] (vertex_labels tx_l0) vid))
         (filter (\<lambda>vid. vid \<notin> set (vertex_tombstones tx_l0)) (vertex_label_overwrites tx_l0))
     @ map (edge_mutation name_by_id tx_l0) (edge_endpoints tx_l0)
     @ map (tombstone_mutation name_by_id tx_l0)
         (filter (\<lambda>(eid, _). hget (edge_endpoints tx_l0) eid = None) (tombstones tx_l0))"

subsection \<open>Agreement up to the labels of deleted vertices\<close>

text \<open>
  A deleted vertex keeps its labels until the flush. Replay adds the logged ones to those already
  there, the merge keeps the old ones if there are any.
\<close>

definition agree :: "vid set \<Rightarrow> l0_abs \<Rightarrow> l0_abs \<Rightarrow> bool" where
  "agree D a b \<longleftrightarrow> b = a\<lparr>a_labels := a_labels b\<rparr> \<and> (\<forall>v. v \<notin> D \<longrightarrow> a_labels b v = a_labels a v)"

lemma agree_refl [simp]: "agree D a a"
  by (simp add: agree_def)

lemma agreeI: "b = a\<lparr>a_labels := f\<rparr> \<Longrightarrow> (\<And>v. v \<notin> D \<Longrightarrow> f v = a_labels a v) \<Longrightarrow> agree D a b"
  by (simp add: agree_def)

lemma agreeE:
  assumes "agree D a b"
  obtains f where "b = a\<lparr>a_labels := f\<rparr>" "\<And>v. v \<notin> D \<Longrightarrow> f v = a_labels a v"
  using assms unfolding agree_def by blast

lemma agree_trans: "agree D a b \<Longrightarrow> agree D b c \<Longrightarrow> agree D a c"
proof (elim agreeE)
  fix f g
  assume "b = a\<lparr>a_labels := f\<rparr>" "c = b\<lparr>a_labels := g\<rparr>" "\<And>v. v \<notin> D \<Longrightarrow> f v = a_labels a v" "\<And>v. v \<notin> D \<Longrightarrow> g v = a_labels b v"
  then show ?thesis by (intro agreeI [where f = g]) simp_all
qed

lemma label_frame:
  "a_delete_vertex v (a\<lparr>a_labels := f\<rparr>) = (a_delete_vertex v a)\<lparr>a_labels := f\<rparr>"
  "a_delete_edge i s d t (a\<lparr>a_labels := f\<rparr>) = (a_delete_edge i s d t a)\<lparr>a_labels := f\<rparr>"
  "a_insert_edge env reg s d t i props tname (a\<lparr>a_labels := f\<rparr>) = (a_insert_edge env reg s d t i props tname a)\<lparr>a_labels := f\<rparr>"
  by (rule l0_abs.equality; simp add: a_delete_vertex_def a_drop_def a_delete_edge_def a_insert_edge_def cong: if_cong option.case_cong)+

lemma label_const:
  "a_labels (a_delete_vertex v a) = a_labels a" "a_labels (a_delete_edge i s d t a) = a_labels a"
  "a_labels (a_insert_edge env reg s d t i props tname a) = a_labels a"
  by (simp_all add: a_delete_vertex_def a_drop_def a_delete_edge_def a_insert_edge_def)

lemma agree_frame:
  assumes "\<And>f. F (a\<lparr>a_labels := f\<rparr>) = (F a)\<lparr>a_labels := f\<rparr>" and "a_labels (F a) = a_labels a" and "agree D a b"
  shows "agree D (F a) (F b)"
  using assms(3)
proof (elim agreeE)
  fix f
  assume "b = a\<lparr>a_labels := f\<rparr>" "\<And>v. v \<notin> D \<Longrightarrow> f v = a_labels a v"
  then show ?thesis using assms(1,2) by (intro agreeI [where f = f]) simp_all
qed

lemma agree_put_edge: "agree D a b \<Longrightarrow> agree D (a_put_edge env reg tx ep e a) (a_put_edge env reg tx ep e b)"
  by (rule agree_frame; cases e) (simp_all add: a_put_edge_def label_frame label_const)

lemma agree_put_tombstone: "agree D a b \<Longrightarrow> agree D (a_put_tombstone tx e a) (a_put_tombstone tx e b)"
  by (rule agree_frame) (simp_all add: a_put_tombstone_def label_frame label_const)

lemma agree_delete_vertex: "agree D a b \<Longrightarrow> agree D (a_delete_vertex v a) (a_delete_vertex v b)"
  by (rule agree_frame) (simp_all add: label_frame label_const)

lemma agree_fold: "(\<And>x a b. agree D a b \<Longrightarrow> agree D (f x a) (f x b)) \<Longrightarrow> agree D a b \<Longrightarrow> agree D (fold f xs a) (fold f xs b)"
  by (induction xs arbitrary: a b) simp_all

subsection \<open>The abstract effect of the log\<close>

lemma replay_vertices:
  "fold (a_replay env reg) (map (vertex_mutation tx) ps) a = fold (a_put_vertex env reg tx) ps a"
  by (induction ps arbitrary: a) (auto simp: vertex_mutation_def a_put_vertex_def split: prod.split)

lemma replay_deletions:
  "agree (set vs) (fold a_delete_vertex vs a) (fold (a_replay env reg) (map (\<lambda>v. DeleteVertex v (ls v)) vs) a)"
proof (induction vs arbitrary: a)
  case (Cons v vs)
  have "agree {v} a (if ls v = [] then a else a_add_labels v (ls v) a)"
    by (auto simp: a_add_labels_def intro!: agreeI split: if_splits)
  then have step: "agree {v} (a_delete_vertex v a) (a_replay env reg (DeleteVertex v (ls v)) a)"
    unfolding a_replay.simps by (rule agree_delete_vertex)
  have mono: "agree D x y \<Longrightarrow> D \<subseteq> E \<Longrightarrow> agree E x y" for D E x y
    by (auto simp: agree_def)
  have "agree (set (v # vs)) (fold a_delete_vertex vs (a_delete_vertex v a)) (fold a_delete_vertex vs (a_replay env reg (DeleteVertex v (ls v)) a))"
    using agree_fold [of "set (v # vs)" a_delete_vertex, OF agree_delete_vertex mono [OF step]] by auto
  moreover have "agree (set (v # vs)) (fold a_delete_vertex vs (a_replay env reg (DeleteVertex v (ls v)) a))
      (fold (a_replay env reg) (map (\<lambda>v. DeleteVertex v (ls v)) vs) (a_replay env reg (DeleteVertex v (ls v)) a))"
    by (rule mono [OF Cons.IH]) auto
  ultimately show ?case by (simp del: a_replay.simps) (rule agree_trans)
qed simp

lemma insert_delete_commute:
  assumes "v \<notin> D"
  shows "a_delete_set D (a_insert_vertex env reg v p ls a) = a_insert_vertex env reg v p ls (a_delete_set D a)"
proof -
  have live: "a_live (a_insert_vertex env reg v p ls a) = a_live a"
    by (simp add: a_live_def a_insert_vertex_def Let_def fun_eq_iff)
  show ?thesis
    using assms
    by (intro l0_abs.equality)
      (auto simp: a_delete_set_def live a_drop_def fun_eq_iff ext_after_def a_insert_vertex_def Let_def split: option.split)
qed

lemma put_vertices_commute:
  assumes "fst ` set ps \<inter> D = {}"
  shows "a_delete_set D (fold (a_put_vertex env reg tx) ps a) = fold (a_put_vertex env reg tx) ps (a_delete_set D a)"
  using assms
proof (induction ps arbitrary: a)
  case (Cons e ps)
  then show ?case by (simp add: a_put_vertex_def insert_delete_commute)
qed simp

lemma replay_overwrites:
  "fold (a_replay env reg) (map (\<lambda>v. SetVertexLabels v (hget_or [] (vertex_labels tx) v))
       (filter (\<lambda>v. v \<notin> set (vertex_tombstones tx)) vs)) a =
     fold (a_overwrite tx) vs a"
  by (induction vs arbitrary: a) (simp_all add: a_overwrite_def)

lemma replay_edges:
  assumes "edge_endpoints_live tx es (a_vdel a)"
  shows "fold (a_replay env reg) (map (edge_mutation name_by_id tx) es) a = fold (a_put_edge env reg tx (edge_properties tx)) es a"
  using assms
proof (induction es arbitrary: a)
  case (Cons e es)
  obtain i s d t where e: "e = (i, s, d, t)" by (cases e)
  have "a_replay env reg (edge_mutation name_by_id tx e) a = a_put_edge env reg tx (edge_properties tx) e a"
    using Cons.prems by (cases "hget (tombstones tx) i")
      (simp_all add: e edge_mutation_def a_put_edge_def Let_def a_write_edge_def edge_endpoints_live_Cons)
  moreover have "edge_endpoints_live tx es (a_vdel a)"
    using Cons.prems by (auto simp: e edge_endpoints_live_def)
  ultimately show ?case using Cons.IH [of "a_put_edge env reg tx (edge_properties tx) e a"] by simp
qed simp

lemma replay_tombstones:
  "fold (a_replay env reg) (map (tombstone_mutation name_by_id tx) (filter (\<lambda>(i, _). hget (edge_endpoints tx) i = None) ts)) a =
     fold (a_put_tombstone tx) ts a"
  by (induction ts arbitrary: a) (auto simp: tombstone_mutation_def a_put_tombstone_def)

subsection \<open>Labels in a transaction buffer\<close>

text \<open>Every label entry of a transaction's buffer comes with a logged mutation.\<close>

definition labels_covered :: "'p l0_buffer \<Rightarrow> bool" where
  "labels_covered tx \<longleftrightarrow> (\<forall>v. hget (vertex_labels tx) v \<noteq> None \<longrightarrow>
     hget (vertex_properties tx) v \<noteq> None \<or> v \<in> set (vertex_label_overwrites tx) \<or> v \<in> set (vertex_tombstones tx))"

lemma labels_covered_view:
  "labels_covered tx \<longleftrightarrow> (\<forall>v. a_labels (l0_view tx) v \<noteq> None \<longrightarrow>
     a_vprops (l0_view tx) v \<noteq> None \<or> v \<in> set (vertex_label_overwrites tx) \<or> v \<in> a_vdel (l0_view tx))"
  by (simp add: labels_covered_def)

lemma sync_extid_overwrites [simp]: "vertex_label_overwrites (sync_extid_index v x y l) = vertex_label_overwrites l"
  by (simp add: sync_extid_index_def Let_def)

lemma remove_vid_overwrites [simp]: "vertex_label_overwrites (remove_vid_from_label_index v l) = vertex_label_overwrites l"
  by (rule exE [OF remove_vid_label_index [of v l]]) simp

lemma l0_step_overwrites:
  assumes ok: "l0_ok l" and op: "op_ok p" and run: "l0_step env p l = Some l'"
  shows "set (vertex_label_overwrites l') = (case p of OpRelabel v _ _ \<Rightarrow> insert v | _ \<Rightarrow> id) (set (vertex_label_overwrites l))"
proof -
  have vertex: "vertex_label_overwrites (insert_vertex_with_labels_impl env now v props labels skip l) = vertex_label_overwrites l"
    for now v props labels skip
    by (simp add: insert_vertex_with_labels_impl_def apply_vertex_write_def Let_def index_labels_for_vid_def wal_append_def)
  then have new: "vertex_label_overwrites (insert_vertex_with_labels env now v props labels l) = vertex_label_overwrites l"
    for now v props labels
    by (simp add: insert_vertex_with_labels_def Let_def add_stats_def)
  have edge: "vertex_label_overwrites l1 = vertex_label_overwrites l"
    if "insert_edge_impl env now s d t i props tname False l = Some (r, l1)" "hmap_ok props" for now s d t i props tname r l1
  proof (cases "deleted_endpoint l s d")
    case None
    then show ?thesis using insert_edge_impl_ok [OF ok that(2) None, of env now t i tname False] that(1) by auto
  next
    case (Some e)
    then show ?thesis using insert_edge_impl_error [OF Some, of env now t i props tname False] that(1) by auto
  qed
  show ?thesis
  proof (cases p)
    case (OpDeleteVertex v)
    then show ?thesis using run delete_vertex_impl_ok [OF ok, of v False] by (auto simp: delete_vertex_def)
  next
    case (OpInsertEdge now s d t i props tname)
    then show ?thesis using run edge op by (auto simp: insert_edge_def Let_def add_stats_def split: option.splits sum.splits if_splits)
  next
    case (OpUpdateEdge now s d t i props tname)
    then show ?thesis using run edge op by (auto simp: update_edge_def)
  next
    case (OpDeleteEdge now i s d t)
    then show ?thesis using run delete_edge_impl_ok [OF ok, of now i s d t False] by (auto simp: delete_edge_def)
  next
    case (OpRelabel v previous labels)
    then show ?thesis using run by (auto simp: relabel_vertex_def set_vertex_labels_def Let_def index_labels_for_vid_def)
  qed (use run in \<open>auto simp: new update_vertex_with_labels_def Let_def vertex set_edge_type_def
        insert_constraint_key_eq insert_edge_constraint_key_def insert_merge_guard_key_def begin_statement_def end_statement_def\<close>)
qed

lemma labels_covered_step:
  assumes "l0_ok l" "op_ok p" "l0_step env p l = Some l'" "labels_covered l"
  shows "labels_covered l'"
proof -
  have view: "l0_view l' = a_step env (plugin_registry l) p (l0_view l)"
    using l0_step_refines [OF assms(1,2), of env] assms(3) by auto
  show ?thesis
    using assms(4) unfolding labels_covered_view l0_step_overwrites [OF assms(1-3)] view
    by (cases p) (auto simp: a_insert_vertex_def a_delete_vertex_def a_drop_def a_write_edge_def a_insert_edge_def
        a_delete_edge_def a_set_labels_def Let_def)
qed

lemma labels_covered_run:
  assumes "l0_ok l" "list_all op_ok ps" "l0_run env ps l = Some l'" "labels_covered l"
  shows "labels_covered l'"
  using assms
proof (induction ps arbitrary: l)
  case (Cons p ps)
  obtain l1 where l1: "l0_step env p l = Some l1" "l0_ok l1"
    using l0_step_refines [OF Cons.prems(1), of p env] Cons.prems(2) by auto
  then show ?case
    using Cons.IH [of l1] Cons.prems labels_covered_step [OF Cons.prems(1) _ l1(1)] by simp
qed simp

subsection \<open>The log stands for the merge\<close>

text \<open>What the commit needs of the buffer it commits.\<close>

definition tx_ok :: "'p l0_buffer \<Rightarrow> bool" where
  "tx_ok tx \<longleftrightarrow> maps_ok tx \<and> (\<forall>v\<in>set (map fst (vertex_properties tx)). v \<notin> set (vertex_tombstones tx))"

lemma tx_okI: "l0_ok tx \<Longrightarrow> props_placed tx \<Longrightarrow> tx_ok tx"
  by (auto simp: tx_ok_def l0_ok_def topo_ok_def props_placed_def)

lemma props_apart:
  assumes "tx_ok tx"
  shows "fst ` set (vertex_properties tx) \<inter> set (vertex_tombstones tx) = {}"
    "filter (\<lambda>(v, _). v \<notin> set (vertex_tombstones tx)) (vertex_properties tx) = vertex_properties tx"
  using assms by (auto simp: tx_ok_def filter_id_conv)

lemma commit_mutations_abs:
  assumes ok: "tx_ok tx" and cov: "labels_covered tx"
    and live: "edge_endpoints_live tx (edge_endpoints tx) ((a_vdel a \<union> set (vertex_tombstones tx)) - fst ` set (vertex_properties tx))"
  shows "agree (set (vertex_tombstones tx)) (a_merge env reg tx a) (fold (a_replay env reg) (commit_mutations name_by_id tx) a)"
proof -
  let ?D = "set (vertex_tombstones tx)" and ?ps = "vertex_properties tx"
  note maps = conjunct1 [OF ok [unfolded tx_ok_def], unfolded maps_ok_def]
  note apart = props_apart(1) [OF ok] and kept = props_apart(2) [OF ok]
  define a1 where "a1 = fold (a_put_vertex env reg tx) ?ps (a_delete_set ?D a)"
  define r1 where "r1 = fold (a_replay env reg) (map (\<lambda>v. DeleteVertex v (hget_or [] (vertex_labels tx) v)) (vertex_tombstones tx))
    (fold (a_put_vertex env reg tx) ?ps a)"
  have "agree ?D a1 r1"
    using replay_deletions [of "vertex_tombstones tx" "fold (a_put_vertex env reg tx) ?ps a" env reg]
    unfolding r1_def a1_def fold_delete put_vertices_commute [OF apart] .
  then obtain f where f: "r1 = a1\<lparr>a_labels := f\<rparr>" "\<And>v. v \<notin> ?D \<Longrightarrow> f v = a_labels a1 v" by (rule agreeE) blast
  define a2 where "a2 = fold (a_overwrite tx) (vertex_label_overwrites tx) (a_fill_labels (map_of (vertex_labels tx)) a1)"
  define r2 where "r2 = fold (a_overwrite tx) (vertex_label_overwrites tx) r1"
  have fill: "hget (vertex_labels tx) v = None \<or> v \<in> set (vertex_label_overwrites tx)" if "a_labels a1 v = None" "v \<notin> ?D" for v
  proof -
    have "hget ?ps v = None"
      using that(1) maps unfolding a1_def by (auto simp: fold_put_vertex_props split: option.splits)
    then show ?thesis using cov that(2) by (auto simp: labels_covered_def)
  qed
  have agree2: "agree ?D a2 r2"
  proof (rule agreeI)
    show "r2 = a2\<lparr>a_labels := (\<lambda>v. if v \<in> set (vertex_label_overwrites tx) \<and> v \<notin> ?D
        then Some (hget_or [] (vertex_labels tx) v) else f v)\<rparr>"
      unfolding a2_def r2_def f(1) fold_overwrite by (simp add: a_fill_labels_def cong: if_cong)
  next
    fix v
    assume "v \<notin> ?D"
    then show "(if v \<in> set (vertex_label_overwrites tx) \<and> v \<notin> ?D then Some (hget_or [] (vertex_labels tx) v) else f v) = a_labels a2 v"
      unfolding a2_def fold_overwrite using f(2) [of v] fill [of v] by (auto simp: a_fill_labels_def split: option.split)
  qed
  have "a_vdel r2 = (a_vdel a \<union> ?D) - fst ` set ?ps"
    unfolding r2_def f(1) fold_overwrite by (simp add: a1_def fold_put_vertex_const a_delete_set_def)
  then have edges: "fold (a_replay env reg) (map (edge_mutation name_by_id tx) (edge_endpoints tx)) r2 =
      fold (a_put_edge env reg tx (edge_properties tx)) (edge_endpoints tx) r2"
    using live by (intro replay_edges) simp
  have "fold (a_replay env reg) (commit_mutations name_by_id tx) a =
      fold (a_put_tombstone tx) (tombstones tx) (fold (a_put_edge env reg tx (edge_properties tx)) (edge_endpoints tx) r2)"
    unfolding commit_mutations_def kept fold_append comp_apply replay_vertices
    unfolding r1_def [symmetric] replay_overwrites r2_def [symmetric] edges replay_tombstones ..
  moreover have "a_merge env reg tx a =
      fold (a_put_tombstone tx) (tombstones tx) (fold (a_put_edge env reg tx (edge_properties tx)) (edge_endpoints tx) a2)"
    by (simp add: a_merge_def a2_def a1_def fold_delete)
  ultimately show ?thesis
    using agree_fold [OF agree_put_tombstone agree_fold [OF agree_put_edge agree2]] by simp
qed

lemma commit_mutations_ok:
  assumes "tx_ok tx"
  shows "list_all mutation_ok (commit_mutations name_by_id tx)" "length (commit_mutations name_by_id tx) = merge_writes tx"
proof -
  note maps = conjunct1 [OF assms [unfolded tx_ok_def], unfolded maps_ok_def]
  have "hmap_ok (hget_or [] (edge_properties tx) i)" for i
    using maps by (auto simp: hget_or_def split: option.split)
  moreover have "hmap_ok p" if "(v, p) \<in> set (vertex_properties tx)" for v p
    using that maps hmap_entries by fastforce
  ultimately show "list_all mutation_ok (commit_mutations name_by_id tx)"
    by (auto simp: commit_mutations_def list_all_iff vertex_mutation_def edge_mutation_def tombstone_mutation_def Let_def)
  show "length (commit_mutations name_by_id tx) = merge_writes tx"
    by (simp add: commit_mutations_def merge_writes_def props_apart(2) [OF assms])
qed

lemma replay_commit:
  assumes l: "l0_ok l" and tx: "tx_ok tx" "labels_covered tx" and valid: "validate_merge_edge_endpoints l tx = Inr ()"
  shows "\<exists>cascaded l' r. merge env clock tx l = Some (Inr cascaded, l') \<and> l0_ok l' \<and>
    replay_mutations env (commit_mutations name_by_id tx) l = Some r \<and> l0_ok r \<and>
    agree (set (vertex_tombstones tx)) (l0_view l') (l0_view r) \<and> current_version r = current_version l'"
proof -
  obtain c l' where l': "merge env clock tx l = Some (Inr c, l')" "l0_ok l'" "l0_view l' = a_merge env (plugin_registry l) tx (l0_view l)"
    "current_version l' = current_version l + merge_writes tx"
    using merge_succeeds [OF l _ valid, of env clock] tx(1) unfolding tx_ok_def by blast
  obtain r where r: "replay_mutations env (commit_mutations name_by_id tx) l = Some r" "l0_ok r"
    "l0_view r = fold (a_replay env (plugin_registry l)) (commit_mutations name_by_id tx) (l0_view l)"
    "current_version r = current_version l + merge_writes tx"
    using replay_mutations_ok [OF l commit_mutations_ok(1) [OF tx(1)], of env name_by_id] commit_mutations_ok(2) [OF tx(1)] by fastforce
  have "edge_endpoints_live tx (edge_endpoints tx) ((a_vdel (l0_view l) \<union> set (vertex_tombstones tx)) - fst ` set (vertex_properties tx))"
    using valid by (simp add: validate_merge_edge_endpoints_def validate_edges_iff effectively_deleted_set)
  then have "agree (set (vertex_tombstones tx)) (l0_view l') (l0_view r)"
    unfolding l'(3) r(3) by (rule commit_mutations_abs [OF tx])
  then show ?thesis using l' r by auto
qed

text \<open>
  C3 (\<open>recovery_equals_merge\<close>). For any transaction and any main buffer it merges into: replaying what
  the commit logged, after a crash between the durable log and the merge, gives the vertices,
  properties, edges, tombstones, external ids and version that the merge gives, and the labels of
  every vertex the transaction did not delete.
\<close>

theorem recovery_equals_merge:
  assumes l: "l0_ok l" and ops: "list_all op_ok ps" and tx: "l0_run env ps ((l0_new n None)\<lparr>plugin_registry := reg\<rparr>) = Some tx"
    and ok: "merge env clock tx l = Some (Inr cascaded, l')"
  shows "\<exists>r. replay_mutations env (commit_mutations name_by_id tx) l = Some r \<and> l0_ok r \<and>
    l0_view r = (l0_view l')\<lparr>a_labels := map_of (vertex_labels r)\<rparr> \<and>
    (\<forall>v. v \<notin> set (vertex_tombstones tx) \<longrightarrow> get_vertex_labels r v = get_vertex_labels l' v) \<and>
    current_version r = current_version l'"
proof -
  let ?new = "(l0_new n None)\<lparr>plugin_registry := reg\<rparr>"
  have new: "l0_ok ?new" by (simp add: l0_ok_frame l0_ok_new)
  have "labels_covered ?new" by (simp add: labels_covered_def l0_new_def)
  then have t: "tx_ok tx" "labels_covered tx"
    using l0_run_refines_from [OF new ops, of env] tx_okI [OF _ l0_run_placed [OF ops tx]] labels_covered_run [OF new ops tx] tx by auto
  have "validate_merge_edge_endpoints l tx = Inr ()"
    using ok by (auto simp: merge_def split: sum.splits)
  then obtain r where "replay_mutations env (commit_mutations name_by_id tx) l = Some r" "l0_ok r"
    "agree (set (vertex_tombstones tx)) (l0_view l') (l0_view r)" "current_version r = current_version l'"
    using replay_commit [OF l t, of env clock name_by_id] ok by auto
  then show ?thesis by (auto simp: agree_def get_vertex_labels_def)
qed

theorem recovery_equals_merge_witness:
  "\<exists>l tx cascaded l' r. l0_run plain_env [OpInsertEdge 5 (Vid 1) (Vid 2) 0 (Eid 7) [] None] (l0_new 0 None) = Some l \<and>
     l0_run plain_env [OpDeleteVertex (Vid 2), OpInsertVertex 6 (Vid 3) [] [''A'']] ((l0_new 0 None)\<lparr>plugin_registry := None\<rparr>) = Some tx \<and>
     merge plain_env (\<lambda>_. 9) tx l = Some (Inr cascaded, l') \<and>
     replay_mutations plain_env (commit_mutations (\<lambda>_. None) tx) l = Some r \<and>
     get_vertex_labels r (Vid 3) = get_vertex_labels l' (Vid 3) \<and> current_version r = current_version l'"
proof -
  let ?ps = "[OpDeleteVertex (Vid 2), OpInsertVertex 6 (Vid 3) [] [''A'']]"
  have ops: "list_all op_ok ?ps" "list_all op_ok [OpInsertEdge 5 (Vid 1) (Vid 2) 0 (Eid 7) [] None]" by simp_all
  have new: "(l0_new 0 None :: unit l0_buffer)\<lparr>plugin_registry := None\<rparr> = l0_new 0 None" by (simp add: l0_new_def)
  obtain tx where tx: "l0_run plain_env ?ps (l0_new 0 None) = Some tx" "l0_ok tx"
    "l0_view tx = fold (a_step plain_env None) ?ps a_empty"
    using l0_run_new [OF ops(1)] by blast
  obtain l where l: "l0_run plain_env [OpInsertEdge 5 (Vid 1) (Vid 2) 0 (Eid 7) [] None] (l0_new 0 None) = Some l" "l0_ok l"
    using l0_run_new [OF ops(2)] by blast
  have t: "edge_endpoints tx = []" "vertex_tombstones tx = [] \<or> Vid 3 \<notin> set (vertex_tombstones tx)"
    using arg_cong [OF tx(3), of a_endp] arg_cong [OF tx(3), of a_vdel]
    by (auto simp: a_insert_vertex_def a_delete_vertex_def a_empty_def a_drop_def a_live_def at_vertex_def Let_def fun_eq_iff
        hget_none_iff split: option.splits)
  have "validate_merge_edge_endpoints l tx = Inr ()" by (simp add: validate_merge_edge_endpoints_def t)
  then obtain c l' where run: "merge plain_env (\<lambda>_. 9) tx l = Some (Inr c, l')"
    using merge_succeeds [OF l(2) l0_okD(2) [OF tx(2)]] by blast
  have "Vid 3 \<notin> set (vertex_tombstones tx)" using t(2) by auto
  moreover have tx': "l0_run plain_env ?ps ((l0_new 0 None)\<lparr>plugin_registry := None\<rparr>) = Some tx" by (simp only: new tx(1))
  ultimately show ?thesis
    using recovery_equals_merge [OF l(2) ops(1) tx' run, of "\<lambda>_. None"] l(1) run by blast
qed

end
