(* ===== verification/L0_Stamps.thy ===== *)
theory L0_Stamps
  imports Commit_Log
begin

text \<open>
  The creation and update times of vertices through a merge and through a replay. The merge writes
  each vertex of the transaction, which stamps it with the time of the merge, before it copies the
  transaction's own creation times where none is set.
\<close>

definition stamps :: "'p l0_buffer \<Rightarrow> (vid, int) hmap \<times> (vid, int) hmap" where
  "stamps l = (vertex_created_at l, vertex_updated_at l)"

lemma kept_stamps: "kept_by_delete l l' \<Longrightarrow> stamps l' = stamps l"
  by (simp add: kept_by_delete_def stamps_def)

lemma stamps_frame [simp]:
  "stamps (l\<lparr>current_version := n\<rparr>) = stamps l" "stamps (wal_append mu l) = stamps l"
  by (simp_all add: stamps_def wal_append_def split: option.split)

lemma remove_vid_stamps [simp]: "stamps (remove_vid_from_label_index v l) = stamps l"
  by (rule exE [OF remove_vid_label_index [of v l]]) (simp add: stamps_def)

lemma sync_extid_stamps [simp]:
  "vertex_created_at (sync_extid_index v x y l) = vertex_created_at l" "vertex_updated_at (sync_extid_index v x y l) = vertex_updated_at l"
  by (simp_all add: sync_extid_index_def Let_def)

lemma delete_vertex_impl_stamps:
  assumes "l0_ok l" "delete_vertex_impl v skip l = Some (ts, l')"
  shows "stamps l' = stamps l"
proof -
  let ?l1 = "l\<lparr>current_version := current_version l + 1\<rparr>"
  define l2 where "l2 = (if skip then ?l1 else wal_append (DeleteVertex v (hget_or [] (vertex_labels ?l1) v)) ?l1)"
  have "l0_ok l2" "stamps l2 = stamps l" using assms(1) by (simp_all add: l2_def l0_ok_frame)
  moreover have "apply_vertex_deletion v l2 = Some (ts, l')"
    using assms(2) unfolding delete_vertex_impl_def Let_def l2_def [symmetric] .
  ultimately show ?thesis using apply_vertex_deletion_ok [of l2 v] kept_stamps by fastforce
qed

lemma apply_edge_insertion_stamps:
  "apply_edge_insertion env s d t i props l = Some (r, l') \<Longrightarrow> stamps l' = stamps l"
  by (auto simp: apply_edge_insertion_def Let_def stamps_def split: if_splits option.splits)

lemma insert_edge_impl_stamps:
  "insert_edge_impl env now s d t i props tname skip l = Some (r, l') \<Longrightarrow> stamps l' = stamps l"
  unfolding insert_edge_impl_def Let_def
  by (auto split: option.splits sum.splits if_splits dest!: apply_edge_insertion_stamps) (simp_all add: stamps_def)

lemma apply_edge_deletion_stamps:
  "apply_edge_deletion i s d t l = Some l' \<Longrightarrow> stamps l' = stamps l"
  by (auto simp: apply_edge_deletion_def retire_edge_constraint_keys_def add_stats_def Let_def stamps_def split: if_splits option.splits)

lemma delete_edge_impl_stamps:
  "delete_edge_impl now i s d t skip l = Some l' \<Longrightarrow> stamps l' = stamps l"
  unfolding delete_edge_impl_def Let_def
  by (auto split: if_splits dest!: apply_edge_deletion_stamps) (simp_all add: stamps_def)

lemma insert_vertex_impl_stamps:
  "stamps (insert_vertex_with_labels_impl env now v props labels skip l) =
     (or_insert v now (vertex_created_at l), hput v now (vertex_updated_at l))"
  by (simp add: insert_vertex_with_labels_impl_def apply_vertex_write_def Let_def index_labels_for_vid_def stamps_def wal_append_def)

subsection \<open>Through the phases of a merge\<close>

lemma merge_deletions_stamps:
  "l0_ok l \<Longrightarrow> merge_deletions vs l = Some (ts, l') \<Longrightarrow> stamps l' = stamps l"
proof (induction vs arbitrary: l ts)
  case (Cons v vs)
  obtain l1 where l1: "delete_vertex_impl v True l = Some (cascaded_entries l v, l1)" "l0_ok l1"
    using delete_vertex_impl_ok [OF Cons.prems(1), of v True] by blast
  then show ?case using Cons.IH [OF l1(2)] Cons.prems delete_vertex_impl_stamps [OF Cons.prems(1) l1(1)] by auto
qed simp

lemma merge_labels_stamps: "stamps (merge_labels ls l) = stamps l"
  by (induction ls arbitrary: l) (auto simp: stamps_def)

lemma merge_overwrites_stamps: "stamps (merge_overwrites tx vs l) = stamps l"
proof (induction vs arbitrary: l)
  case (Cons v vs)
  have "stamps (overwrite_labels v labels l) = stamps l" for labels
    using remove_vid_stamps [of v l]
    by (simp add: overwrite_labels_def Let_def index_labels_for_vid_def stamps_def del: remove_vid_stamps)
  then show ?case by (simp add: Cons.IH)
qed simp

lemma merge_edges_stamps: "merge_edges env clock tx es ep l = Some (r, l') \<Longrightarrow> stamps l' = stamps l"
proof (induction es arbitrary: l ep)
  case (Cons e es)
  then show ?case
    by (cases e) (auto split: if_splits option.splits sum.splits dest!: insert_edge_impl_stamps delete_edge_impl_stamps Cons.IH)
qed simp

lemma merge_tombstones_stamps: "merge_tombstones clock tx ts l = Some l' \<Longrightarrow> stamps l' = stamps l"
proof (induction ts arbitrary: l)
  case (Cons e ts)
  then show ?case
    by (cases e) (auto split: if_splits bind_splits dest!: delete_edge_impl_stamps Cons.IH)
qed simp

lemma hget_or_insert: "hget (or_insert k x m) j = (if j = k \<and> hget m k = None then Some x else hget m j)"
  by (auto simp: or_insert_def split: option.split)

lemma or_insert_keeps [simp]: "hget m k = Some x \<Longrightarrow> hget (or_insert j y m) k = Some x"
  by (auto simp: hget_or_insert)

lemma insert_vertex_impl_created [simp]:
  "vertex_created_at (insert_vertex_with_labels_impl env now v props labels skip l) = or_insert v now (vertex_created_at l)"
  using insert_vertex_impl_stamps [of env now v props labels skip l] by (simp add: stamps_def)

lemma merge_vertices_stamps:
  "hget (vertex_created_at l) v = Some t \<Longrightarrow> hget (vertex_created_at (merge_vertices env clock tx ps l)) v = Some t"
  "hget (vertex_created_at l) v = None \<Longrightarrow> v \<in> fst ` set ps \<Longrightarrow>
     \<exists>k. hget (vertex_created_at (merge_vertices env clock tx ps l)) v = Some (clock k)"
proof -
  show keep: "hget (vertex_created_at l) v = Some t \<Longrightarrow> hget (vertex_created_at (merge_vertices env clock tx ps l)) v = Some t" for t l ps
    by (induction ps arbitrary: l) auto
  show "hget (vertex_created_at l) v = None \<Longrightarrow> v \<in> fst ` set ps \<Longrightarrow>
     \<exists>k. hget (vertex_created_at (merge_vertices env clock tx ps l)) v = Some (clock k)"
  proof (induction ps arbitrary: l)
    case (Cons e ps)
    obtain u p where e: "e = (u, p)" by (cases e)
    let ?l = "insert_vertex_with_labels_impl env (clock (current_version l)) u p (hget_or [] (vertex_labels tx) u) True l"
    show ?case
    proof (cases "v = u")
      case True
      then have "hget (vertex_created_at ?l) v = Some (clock (current_version l))"
        using Cons.prems(1) by (simp add: hget_or_insert)
      then show ?thesis using keep by (auto simp: e)
    next
      case False
      then have "hget (vertex_created_at ?l) v = None" "v \<in> fst ` set ps"
        using Cons.prems by (simp_all add: e hget_or_insert)
      then show ?thesis using Cons.IH [of ?l] by (simp add: e)
    qed
  qed simp
qed

lemma fold_or_insert_keeps: "hget m k = Some x \<Longrightarrow> hget (fold (\<lambda>(j, y). or_insert j y) xs m) k = Some x"
  by (induction xs arbitrary: m) auto

lemma hget_fold_hput:
  "hmap_ok xs \<Longrightarrow> hget (fold (\<lambda>(j, y). hput j y) xs m) k = (case hget xs k of None \<Rightarrow> hget m k | Some y \<Rightarrow> Some y)"
proof (induction xs arbitrary: m)
  case (Cons e xs)
  then show ?case by (cases e) (auto simp: hmap_ok_Cons split: option.split)
qed simp

lemma merge_stamps:
  assumes l: "l0_ok l" and tx: "l0_ok tx" "hmap_ok (vertex_updated_at tx)" and run: "merge env clock tx l = Some (Inr c, l')"
    and v: "hget (vertex_properties tx) v = Some p" "hget (vertex_created_at l) v = None" "hget (vertex_updated_at tx) v = Some u"
  shows "(\<exists>k. hget (vertex_created_at l') v = Some (clock k)) \<and> hget (vertex_updated_at l') v = Some u"
proof -
  have "validate_merge_edge_endpoints l tx = Inr ()" using run by (auto simp: merge_def split: sum.splits)
  then obtain x where x: "merge_validated env clock tx (vertex_properties tx) (edge_properties tx) l = Some (x, l')" "map_err InsertFailed x = Inr c"
    using run by (auto simp: merge_def)
  then have "x = Inr c" by (cases x) (simp_all add: map_err_def)
  with x(1) have "merge_validated env clock tx (vertex_properties tx) (edge_properties tx) l = Some (Inr c, l')" by simp
  then obtain ts l1 l5 l6 where phases: "merge_deletions (vertex_tombstones tx) l = Some (ts, l1)"
    "merge_edges env clock tx (edge_endpoints tx) (edge_properties tx)
       (merge_overwrites tx (vertex_label_overwrites tx) (merge_labels (vertex_labels tx) (merge_vertices env clock tx (vertex_properties tx) l1)))
     = Some (Inr (), l5)"
    "merge_tombstones clock tx (tombstones tx) l5 = Some l6" "l' = merge_rest tx l6"
    by (auto simp: merge_validated_def Let_def split: option.splits sum.splits)
  have "stamps l6 = stamps (merge_vertices env clock tx (vertex_properties tx) l1)"
    using merge_edges_stamps [OF phases(2)] merge_tombstones_stamps [OF phases(3)]
    by (simp add: merge_labels_stamps merge_overwrites_stamps)
  moreover have "v \<in> fst ` set (vertex_properties tx)" using map_of_SomeD [OF v(1)] by force
  moreover have "hget (vertex_created_at l1) v = None"
    using merge_deletions_stamps [OF l phases(1)] v(2) by (simp add: stamps_def)
  ultimately obtain k where k: "hget (vertex_created_at l6) v = Some (clock k)"
    using merge_vertices_stamps(2) [of l1 v "vertex_properties tx" env clock tx] by (auto simp: stamps_def)
  show ?thesis
    unfolding phases(4) merge_rest_keeps
    using fold_or_insert_keeps [OF k] hget_fold_hput [OF tx(2), of _ v] v(3) by auto
qed

subsection \<open>Through a replay\<close>

fun stamp_of :: "mutation \<Rightarrow> (vid, int) hmap \<times> (vid, int) hmap \<Rightarrow> (vid, int) hmap \<times> (vid, int) hmap" where
  "stamp_of (InsertVertex v props labels created updated) m = (or_insert_opt v created (fst m), hput_opt v updated (snd m))"
| "stamp_of _ m = m"

lemma replay_mutation_stamps:
  assumes "l0_ok l" "replay_mutation env mu l = Some l'"
  shows "stamps l' = stamp_of mu (stamps l)"
proof (cases mu)
  case (InsertVertex v props labels created updated)
  then show ?thesis
    using assms(2) replay_insert_vertex_twin [of env v props labels created updated l 0] by (auto simp add: stamps_def simp del: replay_mutation.simps)
next
  case (DeleteVertex v labels)
  let ?l1 = "l\<lparr>current_version := current_version l + 1\<rparr>"
  define l2 where "l2 = (if labels = [] then ?l1 else restore_labels v labels ?l1)"
  have "l0_ok ?l1" using assms(1) by (simp add: l0_ok_frame)
  then have l2: "l0_ok l2" "stamps l2 = stamps l"
    using restore_labels_ok [of ?l1 v labels] by (simp_all add: l2_def restore_labels_def stamps_def)
  obtain ts where "apply_vertex_deletion v l2 = Some (ts, l')"
    using assms(2) unfolding DeleteVertex replay_mutation.simps Let_def l2_def [symmetric] by auto
  then show ?thesis using apply_vertex_deletion_ok [OF l2(1), of v] kept_stamps [of l2 l'] l2(2) by (simp add: DeleteVertex)
next
  case (SetVertexLabels v labels)
  have "stamps (set_vertex_labels v labels l) = stamps l"
    using remove_vid_stamps [of v l]
    by (simp add: set_vertex_labels_def Let_def index_labels_for_vid_def stamps_def del: remove_vid_stamps)
  then show ?thesis using assms(2) by (simp add: SetVertexLabels replay_set_labels del: replay_mutation.simps)
next
  case (InsertEdge s d t i version props tname created updated)
  then show ?thesis
    using assms(2) by (auto split: option.splits sum.splits dest!: apply_edge_insertion_stamps) (simp_all add: stamps_def)
next
  case (DeleteEdge i s d t version tname)
  then show ?thesis using assms(2) by (auto dest!: apply_edge_deletion_stamps)
qed

lemma replay_mutations_stamps:
  assumes "l0_ok l" "list_all mutation_ok mus" "replay_mutations env mus l = Some r"
  shows "stamps r = fold stamp_of mus (stamps l)"
  using assms
proof (induction mus arbitrary: l)
  case (Cons mu mus)
  obtain l1 where l1: "replay_mutation env mu l = Some l1" "l0_ok l1"
    using replay_mutation_ok [OF Cons.prems(1), of mu env] Cons.prems(2) by auto
  then show ?case using Cons.IH [of l1] Cons.prems replay_mutation_stamps [OF Cons.prems(1) l1(1)] by simp
qed simp

lemma stamp_vertices:
  assumes "hmap_ok ps" "hget ps v = Some p" "hget (fst m) v = None" "hget (vertex_created_at tx) v = Some t" "hget (vertex_updated_at tx) v = Some u"
  shows "hget (fst (fold stamp_of (map (vertex_mutation tx) ps) m)) v = Some t \<and> hget (snd (fold stamp_of (map (vertex_mutation tx) ps) m)) v = Some u"
  using assms
proof (induction ps arbitrary: m)
  case (Cons e ps)
  obtain w q where e: "e = (w, q)" by (cases e)
  have ps: "hmap_ok ps" "hget ps w = None" using Cons.prems(1) by (simp_all add: e hmap_ok_Cons)
  have keep: "hget qs v = None \<Longrightarrow> hget (fst n) v = Some t \<Longrightarrow> hget (snd n) v = Some u \<Longrightarrow>
      hget (fst (fold stamp_of (map (vertex_mutation tx) qs) n)) v = Some t \<and> hget (snd (fold stamp_of (map (vertex_mutation tx) qs) n)) v = Some u" for qs n
    by (induction qs arbitrary: n)
      (auto simp: vertex_mutation_def or_insert_opt_def hput_opt_def split: option.splits if_splits)
  show ?case
  proof (cases "v = w")
    case True
    then show ?thesis using keep ps(2) Cons.prems(3-5) by (simp add: e vertex_mutation_def or_insert_opt_def hput_opt_def hget_or_insert)
  next
    case False
    then have "hget (fst (stamp_of (vertex_mutation tx e) m)) v = None" "hget ps v = Some p"
      using Cons.prems(2,3) by (auto simp: e vertex_mutation_def or_insert_opt_def hget_or_insert split: option.splits)
    then show ?thesis using Cons.IH [OF ps(1)] Cons.prems(4,5) by simp
  qed
qed simp

lemma stamp_others:
  "fold stamp_of (map (\<lambda>v. DeleteVertex v (f v)) vs) m = m" "fold stamp_of (map (\<lambda>v. SetVertexLabels v (f v)) vs) m = m"
  "fold stamp_of (map (edge_mutation nb tx) es) m = m" "fold stamp_of (map (tombstone_mutation nb tx) ts) m = m"
proof -
  show "fold stamp_of (map (\<lambda>v. DeleteVertex v (f v)) vs) m = m" by (induction vs) simp_all
  show "fold stamp_of (map (\<lambda>v. SetVertexLabels v (f v)) vs) m = m" by (induction vs) simp_all
  show "fold stamp_of (map (edge_mutation nb tx) es) m = m" by (induction es) (auto simp: edge_mutation_def Let_def)
  show "fold stamp_of (map (tombstone_mutation nb tx) ts) m = m" by (induction ts) (auto simp: tombstone_mutation_def)
qed

text \<open>
  C33 (\<open>merge_loses_created_at\<close>). A vertex created in a transaction gets the time of the merge as its
  creation time and keeps its update time from the transaction, so it may be updated before it was
  created; the same commit recovered from the log keeps the creation time of the transaction.
\<close>

theorem merge_loses_created_at:
  assumes l: "l0_ok l" "hget (vertex_created_at l) v = None" and tx: "l0_ok tx" "hmap_ok (vertex_updated_at tx)"
    and placed: "props_placed tx" and run: "merge env clock tx l = Some (Inr cascaded, l')"
    and v: "hget (vertex_properties tx) v = Some p" "hget (vertex_created_at tx) v = Some created" "hget (vertex_updated_at tx) v = Some updated"
  shows "(\<exists>k. hget (vertex_created_at l') v = Some (clock k)) \<and> hget (vertex_updated_at l') v = Some updated \<and>
    (\<exists>r. replay_mutations env (commit_mutations name_by_id tx) l = Some r \<and>
       hget (vertex_created_at r) v = Some created \<and> hget (vertex_updated_at r) v = Some updated)"
proof -
  note mus = commit_mutations_ok(1) [OF tx_okI [OF tx(1) placed], of name_by_id]
  obtain r where r: "replay_mutations env (commit_mutations name_by_id tx) l = Some r"
    using replay_mutations_ok [OF l(1) mus, of env] by blast
  have "hmap_ok (vertex_properties tx)" using l0_okD(2) [OF tx(1)] by (simp add: maps_ok_def)
  moreover have "stamps r = fold stamp_of (map (vertex_mutation tx) (vertex_properties tx)) (stamps l)"
    unfolding replay_mutations_stamps [OF l(1) mus r] commit_mutations_def fold_append comp_apply stamp_others props_apart(2) [OF tx_okI [OF tx(1) placed]] ..
  ultimately have "hget (fst (stamps r)) v = Some created \<and> hget (snd (stamps r)) v = Some updated"
    using stamp_vertices [of "vertex_properties tx" v p "stamps l" tx created updated] v l(2) by (simp add: stamps_def [of l])
  then have "hget (vertex_created_at r) v = Some created" "hget (vertex_updated_at r) v = Some updated" by (simp_all add: stamps_def)
  then show ?thesis using merge_stamps [OF l(1) tx run v(1) l(2) v(3)] r by blast
qed

theorem merge_loses_created_at_witness:
  "\<exists>tx cascaded l' r. l0_run plain_env [OpInsertVertex 5 (Vid 3) [] [''A'']] (l0_new 0 None) = Some tx \<and>
     merge plain_env (\<lambda>_. 9) tx (l0_new 0 None) = Some (Inr cascaded, l') \<and>
     hget (vertex_created_at l') (Vid 3) = Some 9 \<and> hget (vertex_updated_at l') (Vid 3) = Some 5 \<and>
     replay_mutations plain_env (commit_mutations (\<lambda>_. None) tx) (l0_new 0 None) = Some r \<and>
     hget (vertex_created_at r) (Vid 3) = Some 5 \<and> hget (vertex_updated_at r) (Vid 3) = Some 5"
proof -
  define tx where "tx = insert_vertex_with_labels plain_env 5 (Vid 3) [] [''A''] (l0_new 0 None)"
  have run: "l0_run plain_env [OpInsertVertex 5 (Vid 3) [] [''A'']] (l0_new 0 None) = Some tx" by (simp add: tx_def)
  have tx: "l0_ok tx" "l0_view tx = a_insert_vertex plain_env None (Vid 3) Map.empty [''A''] a_empty"
    using insert_vertex_with_labels_ok [OF l0_ok_new [of 0 None], of "[]" plain_env 5 "Vid 3" "[''A'']"]
    by (simp_all add: tx_def l0_view_new)
  have new: "vertex_created_at (l0_new 0 None :: unit l0_buffer) = []" "vertex_updated_at (l0_new 0 None :: unit l0_buffer) = []" by (simp_all add: l0_new_def)
  have "stamps tx = stamps (insert_vertex_with_labels_impl plain_env 5 (Vid 3) [] [''A''] False (l0_new 0 None))"
    by (simp add: tx_def insert_vertex_with_labels_def Let_def add_stats_def stamps_def)
  then have st: "stamps tx = ([(Vid 3, 5)], [(Vid 3, 5)])"
    by (simp add: insert_vertex_impl_stamps new or_insert_def)
  have placed: "props_placed tx"
    by (simp add: props_placed_view tx(2) a_placed_def a_insert_vertex_def a_empty_def Let_def)
  obtain p where p: "hget (vertex_properties tx) (Vid 3) = Some p"
    using arg_cong [OF tx(2), of "\<lambda>a. a_vprops a (Vid 3)"] by (auto simp: a_insert_vertex_def Let_def)
  have "edge_endpoints tx = []"
    using arg_cong [OF tx(2), of a_endp] by (auto simp: a_insert_vertex_def Let_def a_empty_def fun_eq_iff hget_none_iff)
  then have "validate_merge_edge_endpoints (l0_new 0 None) tx = Inr ()" by (simp add: validate_merge_edge_endpoints_def)
  then obtain c l' where l': "merge plain_env (\<lambda>_. 9) tx (l0_new 0 None) = Some (Inr c, l')"
    using merge_succeeds [OF l0_ok_new l0_okD(2) [OF tx(1)]] by blast
  have t: "hget (vertex_created_at tx) (Vid 3) = Some 5" "hget (vertex_updated_at tx) (Vid 3) = Some 5" "hmap_ok (vertex_updated_at tx)"
    "hget (vertex_created_at (l0_new 0 None :: unit l0_buffer)) (Vid 3) = None"
    using st by (simp_all add: stamps_def hmap_ok_def new)
  show ?thesis
    using merge_loses_created_at [OF l0_ok_new t(4) tx(1) t(3) placed l' p t(1,2), of "\<lambda>_. None"] run l' by blast
qed

end
