(* ===== verification/Occ_L0.thy ===== *)
theory Occ_L0
  imports L0_Ops
begin

text \<open>
  The write-set of a transaction's buffer (\<^verbatim>\<open>crates/uni-store/src/runtime/occ.rs\<close>): \<open>WriteSet::from_l0\<close>, the
  exception it makes for writes of CRDT values only, and the check at commit that such a write will
  be merged and not overwrite a value of another CRDT type.
\<close>

definition is_crdt_carveout :: "('j, 'p) l0_env \<Rightarrow> 'p l0_buffer \<Rightarrow> vid \<Rightarrow> properties \<Rightarrow> bool" where
  "is_crdt_carveout env l0 vid props =
     (let label_changed = (case hget (vertex_labels l0) vid of None \<Rightarrow> False | Some labels \<Rightarrow> labels \<noteq> []);
          all_crdt = (props \<noteq> [] \<and> list_all (\<lambda>(_, v). try_as_crdt env v \<noteq> None) props)
      in all_crdt \<and> \<not> label_changed)"

definition from_l0 :: "('j, 'p) l0_env \<Rightarrow> 'p l0_buffer \<Rightarrow> write_set" where
  "from_l0 env l0 =
     \<lparr>ws_vertices = fst ` set (filter (\<lambda>(vid, props). \<not> is_crdt_carveout env l0 vid props) (vertex_properties l0)) \<union>
        set (vertex_tombstones l0) \<union> set (vertex_label_overwrites l0),
      ws_edges = fst ` set (edge_properties l0) \<union> fst ` set (edge_endpoints l0) \<union> fst ` set (tombstones l0),
      ws_vertex_keys = fst ` set (constraint_index l0),
      ws_edge_keys = fst ` set (edge_constraint_index l0),
      ws_merge_keys = fst ` set (merge_guard_index l0),
      ws_ext_ids = fst ` set (extid_index l0)\<rparr>"

text \<open>The properties of one vertex, then the vertices.\<close>

fun carveout_props ::
  "('j, 'p) l0_env \<Rightarrow> vid \<Rightarrow> properties \<Rightarrow> (string \<times> val) list \<Rightarrow> (vid \<times> string) option" where
  "carveout_props env vid existing_props [] = None"
| "carveout_props env vid existing_props ((key, value) # rest) =
     (case (try_as_crdt env value, Option.bind (hget existing_props key) (try_as_crdt env)) of
        (Some new_crdt, Some existing_crdt) \<Rightarrow>
          if type_name new_crdt \<noteq> type_name existing_crdt then Some (vid, key)
          else carveout_props env vid existing_props rest
      | _ \<Rightarrow> carveout_props env vid existing_props rest)"

fun carveout_vertices ::
  "('j, 'p) l0_env \<Rightarrow> 'p l0_buffer \<Rightarrow> 'p l0_buffer \<Rightarrow> (vid \<times> properties) list \<Rightarrow> (vid \<times> string) option" where
  "carveout_vertices env tx_l0 main [] = None"
| "carveout_vertices env tx_l0 main ((vid, props) # rest) =
     (if vid \<in> set (vertex_tombstones tx_l0) \<or> \<not> is_crdt_carveout env tx_l0 vid props
      then carveout_vertices env tx_l0 main rest
      else case hget (vertex_properties main) vid of
             None \<Rightarrow> carveout_vertices env tx_l0 main rest
           | Some existing_props \<Rightarrow>
               (case carveout_props env vid existing_props props of
                  Some conflict \<Rightarrow> Some conflict
                | None \<Rightarrow> carveout_vertices env tx_l0 main rest))"

definition crdt_carveout_overwrite ::
  "('j, 'p) l0_env \<Rightarrow> 'p l0_buffer \<Rightarrow> 'p l0_buffer \<Rightarrow> (vid \<times> string) option" where
  "crdt_carveout_overwrite env tx_l0 main = carveout_vertices env tx_l0 main (vertex_properties tx_l0)"

subsection \<open>What passing the check means\<close>

lemma carveout_props_None:
  "carveout_props env vid existing props = None \<longleftrightarrow>
     (\<forall>(k, v)\<in>set props. \<forall>c d. try_as_crdt env v = Some c \<longrightarrow> Option.bind (hget existing k) (try_as_crdt env) = Some d \<longrightarrow>
        type_name c = type_name d)"
proof (induction props)
  case (Cons kv props)
  obtain k v where kv: "kv = (k, v)" by (cases kv)
  show ?case
    by (cases "try_as_crdt env v"; cases "Option.bind (hget existing k) (try_as_crdt env)") (simp_all add: kv Cons.IH)
qed simp

lemma carveout_vertices_None:
  "carveout_vertices env tx main ps = None \<longleftrightarrow>
     (\<forall>(vid, props)\<in>set ps. vid \<notin> set (vertex_tombstones tx) \<longrightarrow> is_crdt_carveout env tx vid props \<longrightarrow>
        (\<forall>existing. hget (vertex_properties main) vid = Some existing \<longrightarrow> carveout_props env vid existing props = None))"
proof (induction ps)
  case (Cons e ps)
  obtain vid props where e: "e = (vid, props)" by (cases e)
  show ?case by (cases "hget (vertex_properties main) vid") (auto simp: e Cons.IH split: option.splits)
qed simp

lemma carveout_same_type:
  assumes "crdt_carveout_overwrite env tx main = None" "(vid, props) \<in> set (vertex_properties tx)" "vid \<notin> set (vertex_tombstones tx)"
    "is_crdt_carveout env tx vid props" "hget (vertex_properties main) vid = Some existing" "(k, v) \<in> set props"
    "try_as_crdt env v = Some c" "hget existing k = Some w" "try_as_crdt env w = Some d"
  shows "type_name c = type_name d"
proof -
  have "carveout_props env vid existing props = None"
    using assms(1-5) by (auto simp: crdt_carveout_overwrite_def carveout_vertices_None)
  then show ?thesis using assms(6-9) by (force simp: carveout_props_None)
qed

text \<open>A transaction whose vertex writes are all carved out has no write-set.\<close>

lemma from_l0_empty:
  "ws_is_empty (from_l0 env tx) \<longleftrightarrow>
     list_all (\<lambda>(vid, props). is_crdt_carveout env tx vid props) (vertex_properties tx) \<and>
     vertex_tombstones tx = [] \<and> vertex_label_overwrites tx = [] \<and> edge_properties tx = [] \<and> edge_endpoints tx = [] \<and>
     tombstones tx = [] \<and> constraint_index tx = [] \<and> edge_constraint_index tx = [] \<and> merge_guard_index tx = [] \<and> extid_index tx = []"
  by (auto simp: ws_is_empty_def from_l0_def list_all_iff filter_empty_conv)

end
