(* ===== verification/Wal.thy ===== *)
theory Wal
  imports L0_Buffer "HOL-Library.List_Lexorder" "HOL-Library.Char_ord"
begin

text \<open>
  The write-ahead log (\<^verbatim>\<open>crates/uni-store/src/runtime/wal.rs\<close>): segments and their checksummed
  envelope, the buffered state with its commit spans, flushing with its failure paths, and the
  reading back of the segments at recovery.

  The object store is a list of named objects; what it answers to a request is an argument
  (\<open>put_result\<close>, \<open>get_result\<close>). \<open>wal_codec\<close> holds what serde and blake3 provide. All flushes run
  under the writer's \<open>flush_lock\<close>, one at a time, while other callers may append: what they do
  between the two critical sections of a flush is the argument \<open>between\<close>. LSNs are natural
  numbers; a name has the 20 digits of a \<open>u64\<close>. A Rust string is the list of its bytes.
\<close>

subsection \<open>Data\<close>

record commit_span =
  cs_start :: nat
  cs_len :: nat

record wal_segment =
  seg_lsn :: nat
  seg_mutations :: "mutation list"
  seg_features :: "string list"
  seg_announced :: nat
  seg_commits :: "commit_span list"

record wal_state =
  w_buffer :: "mutation list"
  w_spans :: "commit_span list"
  w_written_announced :: nat
  w_next_lsn :: nat
  w_flushed_lsn :: nat

record wal_codec =
  blake3_hex :: "bytes \<Rightarrow> bytes"
  seg_to_json :: "wal_segment \<Rightarrow> string + bytes"
  seg_from_json :: "bytes \<Rightarrow> string + wal_segment"

text \<open>The log: its settings, its state and the objects under its prefix, oldest first.\<close>

record write_ahead_log =
  local_root :: bool
  writer_features :: "string list"
  announced :: nat
  w_state :: wal_state
  w_objects :: "(string \<times> bytes) list"

definition wal_new :: "string list \<Rightarrow> (string \<times> bytes) list \<Rightarrow> write_ahead_log" where
  "wal_new current_features objects =
     \<lparr>local_root = False, writer_features = current_features, announced = 0,
      w_state = \<lparr>w_buffer = [], w_spans = [], w_written_announced = 0, w_next_lsn = 1, w_flushed_lsn = 0\<rparr>,
      w_objects = objects\<rparr>"

definition with_local_root :: "bool \<Rightarrow> write_ahead_log \<Rightarrow> write_ahead_log" where
  "with_local_root root w = w\<lparr>local_root := root\<rparr>"

definition without_writer_features :: "write_ahead_log \<Rightarrow> write_ahead_log" where
  "without_writer_features w = w\<lparr>writer_features := []\<rparr>"

subsection \<open>Names\<close>

definition digit :: "nat \<Rightarrow> char" where
  "digit d = char_of (48 + d)"

definition digit_value :: "char \<Rightarrow> nat option" where
  "digit_value c = (if 48 \<le> (of_char c :: nat) \<and> (of_char c :: nat) \<le> 57 then Some (of_char c - 48) else None)"

fun dec_fixed :: "nat \<Rightarrow> nat \<Rightarrow> string" where
  "dec_fixed 0 n = []"
| "dec_fixed (Suc w) n = dec_fixed w (n div 10) @ [digit (n mod 10)]"

text \<open>\<open>u64::from_str\<close> on the bytes after an optional plus sign.\<close>

fun parse_digits :: "nat \<Rightarrow> string \<Rightarrow> nat option" where
  "parse_digits acc [] = Some acc"
| "parse_digits acc (c # cs) =
     (case digit_value c of
        None \<Rightarrow> None
      | Some d \<Rightarrow> let acc' = acc * 10 + d in if acc' < 2 ^ 64 then parse_digits acc' cs else None)"

fun parse_u64 :: "string \<Rightarrow> nat option" where
  "parse_u64 [] = None"
| "parse_u64 (c # cs) =
     (if c = CHR ''+'' then (if cs = [] then None else parse_digits 0 cs) else parse_digits 0 (c # cs))"

definition is_char_boundary :: "string \<Rightarrow> nat \<Rightarrow> bool" where
  "is_char_boundary s n \<longleftrightarrow>
     n = length s \<or> n < length s \<and> ((of_char (s ! n) :: nat) < 128 \<or> (of_char (s ! n) :: nat) \<ge> 192)"

definition parse_lsn_from_filename :: "string \<Rightarrow> nat option" where
  "parse_lsn_from_filename filename =
     (if length filename < 20 then None
      else if is_char_boundary filename 20 then parse_u64 (take 20 filename) else None)"

definition segment_name :: "nat \<Rightarrow> string \<Rightarrow> string" where
  "segment_name lsn uuid = dec_fixed 20 lsn @ ''_'' @ uuid @ ''.wal''"

subsection \<open>The envelope\<close>

definition WAL_V2_MAGIC :: bytes where
  "WAL_V2_MAGIC = [85, 78, 73, 87, 65, 76, 50, 10]"

definition WAL_V2_HASH_HEX_LEN :: nat where
  "WAL_V2_HASH_HEX_LEN = 64"

definition encode_segment_envelope :: "wal_codec \<Rightarrow> bytes \<Rightarrow> bytes" where
  "encode_segment_envelope codec payload = WAL_V2_MAGIC @ blake3_hex codec payload @ [10] @ payload"

definition strip_prefix :: "bytes \<Rightarrow> bytes \<Rightarrow> bytes option" where
  "strip_prefix p xs = (if take (length p) xs = p then Some (drop (length p) xs) else None)"

text \<open>\<open>std::str::from_utf8\<close>.\<close>

definition continuation :: "u8 \<Rightarrow> bool" where
  "continuation b \<longleftrightarrow> 128 \<le> b \<and> b < 192"

function utf8_valid :: "bytes \<Rightarrow> bool" where
  "utf8_valid xs =
     (case xs of
        [] \<Rightarrow> True
      | a # xs1 \<Rightarrow>
          if a < 128 then utf8_valid xs1
          else case xs1 of
            [] \<Rightarrow> False
          | b # xs2 \<Rightarrow>
              if 194 \<le> a \<and> a < 224 then continuation b \<and> utf8_valid xs2
              else case xs2 of
                [] \<Rightarrow> False
              | c # xs3 \<Rightarrow>
                  if a = 224 then 160 \<le> b \<and> b < 192 \<and> continuation c \<and> utf8_valid xs3
                  else if a = 237 then 128 \<le> b \<and> b < 160 \<and> continuation c \<and> utf8_valid xs3
                  else if 224 < a \<and> a < 240 then continuation b \<and> continuation c \<and> utf8_valid xs3
                  else case xs3 of
                    [] \<Rightarrow> False
                  | d # xs4 \<Rightarrow>
                      if a = 240 then 144 \<le> b \<and> b < 192 \<and> continuation c \<and> continuation d \<and> utf8_valid xs4
                      else if a = 244 then 128 \<le> b \<and> b < 144 \<and> continuation c \<and> continuation d \<and> utf8_valid xs4
                      else if 240 < a \<and> a < 244
                      then continuation b \<and> continuation c \<and> continuation d \<and> utf8_valid xs4
                      else False)"
  by pat_completeness auto
termination by (relation "measure length") auto

declare utf8_valid.simps [simp del]

datatype decode_error =
    TruncatedHeader
  | NonUtf8Checksum
  | ChecksumMismatch bytes bytes
  | V2PayloadParse string
  | LegacyParse string
  | EmptyFile

definition decode_segment :: "wal_codec \<Rightarrow> bytes \<Rightarrow> decode_error + wal_segment" where
  "decode_segment codec xs =
     (case strip_prefix WAL_V2_MAGIC xs of
        Some rest \<Rightarrow>
          if length rest < WAL_V2_HASH_HEX_LEN + 1 then Inl TruncatedHeader
          else if rest ! WAL_V2_HASH_HEX_LEN \<noteq> 10 then Inl TruncatedHeader
          else
            let hex = take WAL_V2_HASH_HEX_LEN rest;
                payload = drop 1 (drop WAL_V2_HASH_HEX_LEN rest)
            in if \<not> utf8_valid hex then Inl NonUtf8Checksum
               else if blake3_hex codec payload \<noteq> hex then Inl (ChecksumMismatch hex (blake3_hex codec payload))
               else map_err V2PayloadParse (seg_from_json codec payload)
      | None \<Rightarrow> map_err LegacyParse (seg_from_json codec xs))"

subsection \<open>Appending\<close>

text \<open>The lock of the state cannot be poisoned: no critical section panics.\<close>

definition append_mutation :: "mutation \<Rightarrow> wal_state \<Rightarrow> wal_state" where
  "append_mutation mutation st = st\<lparr>w_buffer := w_buffer st @ [mutation]\<rparr>"

definition append_commit :: "mutation list \<Rightarrow> wal_state \<Rightarrow> wal_state" where
  "append_commit mutations st =
     (if mutations = [] then st
      else
        let span = \<lparr>cs_start = length (w_buffer st), cs_len = length mutations\<rparr>
        in st\<lparr>w_buffer := w_buffer st @ mutations, w_spans := w_spans st @ [span]\<rparr>)"

definition restore_announced_mark :: "nat \<Rightarrow> write_ahead_log \<Rightarrow> write_ahead_log" where
  "restore_announced_mark lsn w =
     w\<lparr>announced := max (announced w) lsn,
       w_state := (w_state w)\<lparr>w_written_announced := max (w_written_announced (w_state w)) lsn\<rparr>\<rparr>"

definition needs_seal :: "write_ahead_log \<Rightarrow> bool" where
  "needs_seal w \<longleftrightarrow> announced w > w_written_announced (w_state w)"

definition flushed_lsn :: "write_ahead_log \<Rightarrow> nat" where
  "flushed_lsn w = w_flushed_lsn (w_state w)"

definition ensure_lsn_above :: "nat \<Rightarrow> wal_state \<Rightarrow> wal_state" where
  "ensure_lsn_above floor_lsn st =
     st\<lparr>w_next_lsn := max (w_next_lsn st) (floor_lsn + 1), w_flushed_lsn := max (w_flushed_lsn st) floor_lsn\<rparr>"

subsection \<open>Flushing\<close>

definition restore_unflushed :: "mutation list \<Rightarrow> commit_span list \<Rightarrow> wal_state \<Rightarrow> wal_state" where
  "restore_unflushed batch spans st =
     (let offset = length batch
      in st\<lparr>w_buffer := batch @ w_buffer st,
            w_spans := spans @ map (\<lambda>span. \<lparr>cs_start = cs_start span + offset, cs_len = cs_len span\<rparr>) (w_spans st)\<rparr>)"

text \<open>
  What the store answers. A failed \<open>put\<close> may have written the object, when it timed out.
\<close>

datatype put_result = PutOk | PutFailed bool

record flush_io =
  put_result :: put_result
  fsync_ok :: bool
  delete_ok :: bool
  segment_uuid :: string

datatype flush_error =
    SerializeFailed string
  | PutError
  | FsyncError
  | FsyncAndDeleteError

definition object_put :: "string \<Rightarrow> bytes \<Rightarrow> (string \<times> bytes) list \<Rightarrow> (string \<times> bytes) list" where
  "object_put name body objects = filter (\<lambda>(n, _). n \<noteq> name) objects @ [(name, body)]"

definition object_delete :: "string \<Rightarrow> (string \<times> bytes) list \<Rightarrow> (string \<times> bytes) list" where
  "object_delete name objects = filter (\<lambda>(n, _). n \<noteq> name) objects"

definition flush_inner ::
  "wal_codec \<Rightarrow> flush_io \<Rightarrow> (wal_state \<Rightarrow> wal_state) \<Rightarrow> bool \<Rightarrow> write_ahead_log \<Rightarrow> (flush_error + nat) \<times> write_ahead_log" where
  "flush_inner codec io between seal w =
     (let st = w_state w; announced_through = announced w
      in if w_buffer st = [] \<and> \<not> (seal \<and> announced_through > w_written_announced st) then (Inr (w_flushed_lsn st), w)
         else
           let lsn = w_next_lsn st;
               batch = w_buffer st;
               spans = w_spans st;
               st1 = between (st\<lparr>w_next_lsn := lsn + 1, w_buffer := [], w_spans := []\<rparr>);
               segment = \<lparr>seg_lsn = lsn, seg_mutations = batch, seg_features = writer_features w,
                          seg_announced = announced_through, seg_commits = spans\<rparr>
           in case seg_to_json codec segment of
                Inl e \<Rightarrow> (Inl (SerializeFailed e), w\<lparr>w_state := restore_unflushed batch spans st1\<rparr>)
              | Inr json \<Rightarrow>
                  let body = encode_segment_envelope codec json;
                      path = segment_name lsn (segment_uuid io);
                      stored = object_put path body (w_objects w)
                  in (case put_result io of
                        PutFailed wrote \<Rightarrow>
                          (Inl PutError, w\<lparr>w_state := restore_unflushed batch spans st1,
                                           w_objects := (if wrote then stored else w_objects w)\<rparr>)
                      | PutOk \<Rightarrow>
                          if local_root w \<and> \<not> fsync_ok io
                          then (if delete_ok io
                                then (Inl FsyncError, w\<lparr>w_state := st1, w_objects := object_delete path stored\<rparr>)
                                else (Inl FsyncAndDeleteError, w\<lparr>w_state := st1, w_objects := stored\<rparr>))
                          else (Inr lsn, w\<lparr>w_state := st1\<lparr>w_flushed_lsn := lsn,
                                   w_written_announced := max (w_written_announced st1) announced_through\<rparr>,
                                 w_objects := stored\<rparr>)))"

definition wal_flush ::
  "wal_codec \<Rightarrow> flush_io \<Rightarrow> (wal_state \<Rightarrow> wal_state) \<Rightarrow> write_ahead_log \<Rightarrow> (flush_error + nat) \<times> write_ahead_log" where
  "wal_flush codec io between w = flush_inner codec io between False w"

definition wal_seal ::
  "wal_codec \<Rightarrow> flush_io \<Rightarrow> (wal_state \<Rightarrow> wal_state) \<Rightarrow> write_ahead_log \<Rightarrow> (flush_error + nat) \<times> write_ahead_log" where
  "wal_seal codec io between w = flush_inner codec io between True w"

subsection \<open>Reading back\<close>

text \<open>The answer to reading an object of the listing.\<close>

datatype get_result = GetOk bytes | GetNotFound | GetError

datatype replay_error = ReadFailed string | CorruptSegment string decode_error nat

text \<open>\<open>writer_enforces_endpoints\<close> of the schema is the parameter \<open>enforces\<close>.\<close>

fun replay_paths ::
  "wal_codec \<Rightarrow> (string list \<Rightarrow> bool) \<Rightarrow> (string \<Rightarrow> get_result) \<Rightarrow> nat \<Rightarrow> string list \<Rightarrow>
   replay_error + (wal_segment list \<times> nat)" where
  "replay_paths codec enforces get high_water_mark [] = Inr ([], 0)"
| "replay_paths codec enforces get high_water_mark (path # paths) =
     (case get path of
        GetNotFound \<Rightarrow> replay_paths codec enforces get high_water_mark paths
      | GetError \<Rightarrow> Inl (ReadFailed path)
      | GetOk xs \<Rightarrow>
          (case (if xs = [] then Inl EmptyFile else decode_segment codec xs) of
             Inl reason \<Rightarrow> if paths = [] then Inr ([], 0) else Inl (CorruptSegment path reason (length paths))
           | Inr segment \<Rightarrow>
               bind_sum (replay_paths codec enforces get high_water_mark paths) (\<lambda>(segments, unmarked).
                 if seg_lsn segment > high_water_mark
                 then Inr (segment # segments, if enforces (seg_features segment) then unmarked else unmarked + 1)
                 else Inr (segments, unmarked))))"

definition replay_segments_since ::
  "wal_codec \<Rightarrow> (string list \<Rightarrow> bool) \<Rightarrow> (string \<Rightarrow> get_result) \<Rightarrow> nat \<Rightarrow> string list \<Rightarrow>
   replay_error + (wal_segment list \<times> nat)" where
  "replay_segments_since codec enforces get high_water_mark metas =
     replay_paths codec enforces get high_water_mark
       (sort (filter (\<lambda>p. case parse_lsn_from_filename p of None \<Rightarrow> True | Some lsn \<Rightarrow> lsn > high_water_mark) metas))"

definition replay_since_with_provenance ::
  "wal_codec \<Rightarrow> (string list \<Rightarrow> bool) \<Rightarrow> (string \<Rightarrow> get_result) \<Rightarrow> nat \<Rightarrow> string list \<Rightarrow>
   replay_error + (mutation list \<times> nat)" where
  "replay_since_with_provenance codec enforces get high_water_mark metas =
     bind_sum (replay_segments_since codec enforces get high_water_mark metas)
       (\<lambda>(segments, unmarked). Inr (concat (map seg_mutations segments), unmarked))"

definition replay_since ::
  "wal_codec \<Rightarrow> (string list \<Rightarrow> bool) \<Rightarrow> (string \<Rightarrow> get_result) \<Rightarrow> nat \<Rightarrow> string list \<Rightarrow> replay_error + mutation list" where
  "replay_since codec enforces get high_water_mark metas =
     bind_sum (replay_since_with_provenance codec enforces get high_water_mark metas) (\<lambda>(mutations, _). Inr mutations)"

definition wal_replay ::
  "wal_codec \<Rightarrow> (string list \<Rightarrow> bool) \<Rightarrow> (string \<Rightarrow> get_result) \<Rightarrow> string list \<Rightarrow> replay_error + mutation list" where
  "wal_replay codec enforces get metas = replay_since codec enforces get 0 metas"

definition read_object :: "(string \<times> bytes) list \<Rightarrow> string \<Rightarrow> get_result" where
  "read_object objects path = (case hget objects path of None \<Rightarrow> GetNotFound | Some xs \<Rightarrow> GetOk xs)"

fun find_max_lsn :: "wal_codec \<Rightarrow> (string \<Rightarrow> get_result) \<Rightarrow> string list \<Rightarrow> nat \<Rightarrow> replay_error + nat" where
  "find_max_lsn codec get [] max_lsn = Inr max_lsn"
| "find_max_lsn codec get (path # paths) max_lsn =
     (case parse_lsn_from_filename path of
        Some lsn \<Rightarrow> find_max_lsn codec get paths (max max_lsn lsn)
      | None \<Rightarrow>
          (case get path of
             GetOk xs \<Rightarrow>
               if xs = [] then find_max_lsn codec get paths max_lsn
               else (case decode_segment codec xs of
                       Inr segment \<Rightarrow> find_max_lsn codec get paths (max max_lsn (seg_lsn segment))
                     | Inl _ \<Rightarrow> find_max_lsn codec get paths max_lsn)
           | _ \<Rightarrow> Inl (ReadFailed path)))"

definition wal_initialize ::
  "wal_codec \<Rightarrow> (string \<Rightarrow> get_result) \<Rightarrow> write_ahead_log \<Rightarrow> (replay_error + nat) \<times> write_ahead_log" where
  "wal_initialize codec get w =
     (case find_max_lsn codec get (map fst (w_objects w)) 0 of
        Inl e \<Rightarrow> (Inl e, w)
      | Inr max_lsn \<Rightarrow>
          (Inr max_lsn, w\<lparr>w_state := (w_state w)\<lparr>w_next_lsn := max_lsn + 1, w_flushed_lsn := max_lsn\<rparr>\<rparr>))"

subsection \<open>Truncation\<close>

text \<open>\<open>Some True\<close>: deleted; \<open>Some False\<close>: already absent; \<open>None\<close>: another error.\<close>

definition should_delete :: "wal_codec \<Rightarrow> (string \<Rightarrow> get_result) \<Rightarrow> nat \<Rightarrow> string \<Rightarrow> replay_error + bool" where
  "should_delete codec get high_water_mark path =
     (case parse_lsn_from_filename path of
        Some lsn \<Rightarrow> Inr (lsn \<le> high_water_mark)
      | None \<Rightarrow>
          (case get path of
             GetOk xs \<Rightarrow>
               if xs = [] then Inr True
               else (case decode_segment codec xs of
                       Inr segment \<Rightarrow> Inr (seg_lsn segment \<le> high_water_mark)
                     | Inl _ \<Rightarrow> Inr False)
           | _ \<Rightarrow> Inl (ReadFailed path)))"

fun truncate_paths ::
  "wal_codec \<Rightarrow> (string \<Rightarrow> get_result) \<Rightarrow> (string \<Rightarrow> bool option) \<Rightarrow> nat \<Rightarrow> string list \<Rightarrow> (string \<times> bytes) list \<Rightarrow>
   (replay_error + unit) \<times> (string \<times> bytes) list" where
  "truncate_paths codec get del high_water_mark [] objects = (Inr (), objects)"
| "truncate_paths codec get del high_water_mark (path # paths) objects =
     (case should_delete codec get high_water_mark path of
        Inl e \<Rightarrow> (Inl e, objects)
      | Inr False \<Rightarrow> truncate_paths codec get del high_water_mark paths objects
      | Inr True \<Rightarrow>
          (case del path of
             None \<Rightarrow> (Inl (ReadFailed path), objects)
           | Some _ \<Rightarrow> truncate_paths codec get del high_water_mark paths (object_delete path objects)))"

definition truncate_before ::
  "wal_codec \<Rightarrow> (string \<Rightarrow> get_result) \<Rightarrow> (string \<Rightarrow> bool option) \<Rightarrow> nat \<Rightarrow> write_ahead_log \<Rightarrow>
   (replay_error + unit) \<times> write_ahead_log" where
  "truncate_before codec get del high_water_mark w =
     (case truncate_paths codec get del high_water_mark (map fst (w_objects w)) (w_objects w) of
        (r, objects) \<Rightarrow> (r, w\<lparr>w_objects := objects\<rparr>))"

fun truncate_all :: "(string \<Rightarrow> bool option) \<Rightarrow> string list \<Rightarrow> (string \<times> bytes) list \<Rightarrow> (replay_error + unit) \<times> (string \<times> bytes) list" where
  "truncate_all del [] objects = (Inr (), objects)"
| "truncate_all del (path # paths) objects =
     (case del path of
        None \<Rightarrow> (Inl (ReadFailed path), objects)
      | Some _ \<Rightarrow> truncate_all del paths (object_delete path objects))"

definition wal_truncate :: "(string \<Rightarrow> bool option) \<Rightarrow> write_ahead_log \<Rightarrow> (replay_error + unit) \<times> write_ahead_log" where
  "wal_truncate del w =
     (case truncate_all del (map fst (w_objects w)) (w_objects w) of (r, objects) \<Rightarrow> (r, w\<lparr>w_objects := objects\<rparr>))"

definition has_segments :: "write_ahead_log \<Rightarrow> bool" where
  "has_segments w \<longleftrightarrow> w_objects w \<noteq> []"

end
