(* ===== verification/Wal_Names.thy ===== *)
theory Wal_Names
  imports Wal
begin

text \<open>
  Segment names and envelopes: a name gives back its LSN and names sort by LSN; an envelope gives
  back its payload.
\<close>

lemma of_char_digit: "d < 10 \<Longrightarrow> of_char (digit d) = (48 + d :: nat)"
  by (simp add: digit_def)

lemma digit_value_digit [simp]: "d < 10 \<Longrightarrow> digit_value (digit d) = Some d"
  by (simp add: digit_value_def of_char_digit)

lemma length_dec_fixed [simp]: "length (dec_fixed w n) = w"
  by (induction w n rule: dec_fixed.induct) simp_all

lemma parse_digits_append:
  "parse_digits acc (xs @ ys) = Option.bind (parse_digits acc xs) (\<lambda>a. parse_digits a ys)"
  by (induction xs arbitrary: acc) (simp_all add: Let_def split: option.split)

lemma parse_dec_fixed:
  "acc * 10 ^ w + n < 2 ^ 64 \<Longrightarrow> n < 10 ^ w \<Longrightarrow> parse_digits acc (dec_fixed w n) = Some (acc * 10 ^ w + n)"
proof (induction w n arbitrary: acc rule: dec_fixed.induct)
  case (2 w n)
  have n: "n = n div 10 * 10 + n mod 10" by simp
  have "n div 10 < 10 ^ w" using 2(3) by (simp add: less_mult_imp_div_less)
  moreover have bound: "(acc * 10 ^ w + n div 10) * 10 + n mod 10 = acc * 10 ^ Suc w + n"
    using n by (simp add: algebra_simps)
  then have "acc * 10 ^ w + n div 10 \<le> acc * 10 ^ Suc w + n" unfolding bound [symmetric] by simp
  then have "acc * 10 ^ w + n div 10 < 2 ^ 64" using 2(2) by (rule le_less_trans)
  ultimately have "parse_digits acc (dec_fixed w (n div 10)) = Some (acc * 10 ^ w + n div 10)" using 2(1) by blast
  then show ?case using bound 2(2) by (simp add: parse_digits_append Let_def)
qed simp

lemma dec_fixed_head: "\<exists>d cs. d < 10 \<and> dec_fixed (Suc w) n = digit d # cs"
proof (induction w arbitrary: n)
  case 0
  then show ?case by (auto intro!: exI [of _ "n mod 10"])
next
  case (Suc w)
  then obtain d cs where "d < 10" "dec_fixed (Suc w) (n div 10) = digit d # cs" by blast
  then show ?case unfolding dec_fixed.simps(2) [of "Suc w"] by auto
qed

lemma parse_u64_dec_fixed:
  assumes "n < 2 ^ 64" "n < 10 ^ Suc w"
  shows "parse_u64 (dec_fixed (Suc w) n) = Some n"
proof -
  obtain d cs where d: "d < 10" "dec_fixed (Suc w) n = digit d # cs" using dec_fixed_head by blast
  have "of_char (digit d) \<noteq> (of_char (CHR ''+'') :: nat)" using d(1) unfolding of_char_digit [OF d(1)] by simp
  then have "digit d \<noteq> CHR ''+''" by metis
  then show ?thesis using parse_dec_fixed [of 0 "Suc w" n] assms by (simp only: d(2) parse_u64.simps if_False) simp
qed

lemma u64_digits: "n < 2 ^ 64 \<Longrightarrow> (n :: nat) < 10 ^ 20"
  by simp

lemma parse_segment_name:
  assumes "n < 2 ^ 64"
  shows "parse_lsn_from_filename (segment_name n u) = Some n"
proof -
  have "take 20 (segment_name n u) = dec_fixed (Suc 19) n" "segment_name n u ! 20 = CHR ''_''"
    by (simp_all add: segment_name_def nth_append)
  moreover have "length (segment_name n u) > 20" by (simp add: segment_name_def)
  ultimately show ?thesis
    using parse_u64_dec_fixed [OF assms, of 19] u64_digits [OF assms]
    by (simp add: parse_lsn_from_filename_def is_char_boundary_def del: dec_fixed.simps)
qed

lemma dec_fixed_less: "m < n \<Longrightarrow> n < 10 ^ w \<Longrightarrow> dec_fixed w m < dec_fixed w n"
proof (induction w arbitrary: m n)
  case (Suc w)
  have n: "n div 10 < 10 ^ w" using Suc.prems(2) by (simp add: less_mult_imp_div_less)
  show ?case
  proof (cases "m div 10 < n div 10")
    case True
    then have "dec_fixed w (m div 10) < dec_fixed w (n div 10)" using Suc.IH n by blast
    then show ?thesis unfolding dec_fixed.simps list_less_def by (intro lexord_sufI) simp_all
  next
    case False
    then have same: "m div 10 = n div 10" using Suc.prems(1) by (metis div_le_mono le_antisym less_imp_le_nat not_less)
    then have "m mod 10 < n mod 10" using Suc.prems(1) by (metis div_mult_mod_eq nat_add_left_cancel_less)
    then have "digit (m mod 10) < digit (n mod 10)" by (simp add: less_char_def of_char_digit)
    then show ?thesis unfolding dec_fixed.simps same list_less_def by (intro lexord_append_leftI) simp
  qed
qed simp

lemma segment_name_less:
  assumes "m < n" "n < 2 ^ 64"
  shows "segment_name m u < segment_name n v"
  using dec_fixed_less [OF assms(1) u64_digits [OF assms(2)]]
  unfolding segment_name_def list_less_def by (intro lexord_sufI) simp_all

text \<open>
  C37 (\<open>segment_names_ordered\<close>). For every \<open>u64\<close> LSN, the name of a segment parses back to its LSN, and
  the names of two segments compare as their LSNs do, whatever their random parts: sorting the
  names lists the segments in log order.
\<close>

theorem segment_names_ordered:
  assumes "m < 2 ^ 64" and "n < 2 ^ 64"
  shows "parse_lsn_from_filename (segment_name m u) = Some m \<and> (m < n \<longrightarrow> segment_name m u < segment_name n v)"
  using parse_segment_name segment_name_less assms by blast

theorem segment_names_ordered_witness:
  "parse_lsn_from_filename (segment_name 18446744073709551615 ''a'') = Some 18446744073709551615 \<and>
   segment_name 9 ''b'' < segment_name 10 ''a''"
  using segment_names_ordered [of 18446744073709551615 18446744073709551615 "''a''"]
    segment_names_ordered [of 9 10 "''b''" "''a''"] by simp

subsection \<open>Envelopes\<close>

definition hex_digit :: "u8 \<Rightarrow> bool" where
  "hex_digit b \<longleftrightarrow> 48 \<le> b \<and> b \<le> 57 \<or> 97 \<le> b \<and> b \<le> 102"

text \<open>What the log relies on: blake3's hex is 64 lower-case hex digits, serde reads back what it wrote.\<close>

definition wal_codec_ok :: "wal_codec \<Rightarrow> bool" where
  "wal_codec_ok codec \<longleftrightarrow>
     (\<forall>p. length (blake3_hex codec p) = 64 \<and> list_all hex_digit (blake3_hex codec p)) \<and>
     (\<forall>s j. seg_to_json codec s = Inr j \<longrightarrow> seg_from_json codec j = Inr s)"

lemma hex_digit_ascii: "hex_digit b \<Longrightarrow> b < 128"
  by (auto simp: hex_digit_def word_le_nat_alt word_less_nat_alt)

lemma utf8_valid_ascii: "list_all (\<lambda>b. b < 128) xs \<Longrightarrow> utf8_valid xs"
  by (induction xs) (simp_all add: utf8_valid.simps)

lemma strip_magic: "strip_prefix WAL_V2_MAGIC (WAL_V2_MAGIC @ xs) = Some xs"
  by (simp add: strip_prefix_def)

lemma decode_envelope:
  assumes "length hex = 64" "list_all hex_digit hex"
  shows "decode_segment codec (WAL_V2_MAGIC @ hex @ [10] @ payload) =
    (if blake3_hex codec payload = hex then map_err V2PayloadParse (seg_from_json codec payload)
     else Inl (ChecksumMismatch hex (blake3_hex codec payload)))"
proof -
  have "utf8_valid hex" using assms(2) by (intro utf8_valid_ascii) (auto simp: list_all_iff hex_digit_ascii)
  then show ?thesis
    using assms(1) by (simp add: decode_segment_def strip_magic [simplified] WAL_V2_HASH_HEX_LEN_def Let_def nth_append)
qed

lemma decode_encode:
  assumes "wal_codec_ok codec" "seg_to_json codec s = Inr j"
  shows "decode_segment codec (encode_segment_envelope codec j) = Inr s"
  using assms decode_envelope [of "blake3_hex codec j" codec j]
  by (simp add: encode_segment_envelope_def wal_codec_ok_def map_err_def)

text \<open>
  C38 (\<open>envelope_detects_corruption\<close>). A segment decodes to what was encoded; with its payload replaced
  by another one, whatever its length, it is rejected unless blake3 collides.
\<close>

theorem envelope_detects_corruption:
  assumes "wal_codec_ok codec" and "seg_to_json codec s = Inr j"
  shows "decode_segment codec (encode_segment_envelope codec j) = Inr s \<and>
    (blake3_hex codec j' \<noteq> blake3_hex codec j \<longrightarrow>
       decode_segment codec (take (length (encode_segment_envelope codec j) - length j) (encode_segment_envelope codec j) @ j') =
         Inl (ChecksumMismatch (blake3_hex codec j) (blake3_hex codec j')))"
proof -
  have "take (length (encode_segment_envelope codec j) - length j) (encode_segment_envelope codec j) @ j' =
      WAL_V2_MAGIC @ blake3_hex codec j @ [10] @ j'"
    by (simp add: encode_segment_envelope_def)
  moreover have "length (blake3_hex codec j) = 64" "list_all hex_digit (blake3_hex codec j)"
    using assms(1) by (simp_all add: wal_codec_ok_def)
  ultimately show ?thesis using decode_encode [OF assms] decode_envelope [of "blake3_hex codec j" codec j'] by simp
qed

text \<open>A codec for the examples, which has a one-byte text for each of some segments.\<close>

definition codec_of :: "wal_segment list \<Rightarrow> wal_codec" where
  "codec_of segs = \<lparr>blake3_hex = (\<lambda>p. replicate 64 (if p = [0] then 48 else 49)),
     seg_to_json = (\<lambda>s. if s \<in> set segs then Inr [of_nat (length (takeWhile (\<lambda>t. t \<noteq> s) segs))] else Inl ''unsupported''),
     seg_from_json = (\<lambda>j. case j of [b] \<Rightarrow> if unat b < length segs then Inr (segs ! unat b) else Inl ''syntax'' | _ \<Rightarrow> Inl ''syntax'')\<rparr>"

lemma length_takeWhile_mem: "s \<in> set segs \<Longrightarrow> length (takeWhile (\<lambda>t. t \<noteq> s) segs) < length segs"
  by (induction segs) auto

lemma nth_takeWhile_mem: "s \<in> set segs \<Longrightarrow> segs ! length (takeWhile (\<lambda>t. t \<noteq> s) segs) = s"
  by (induction segs) auto

lemma codec_of_ok:
  assumes "length segs < 256"
  shows "wal_codec_ok (codec_of segs)"
proof -
  have "unat (of_nat (length (takeWhile (\<lambda>t. t \<noteq> s) segs)) :: u8) = length (takeWhile (\<lambda>t. t \<noteq> s) segs)" if "s \<in> set segs" for s
    using length_takeWhile_mem [OF that] assms by (simp add: unat_of_nat take_bit_nat_eq_self)
  then show ?thesis
    by (auto simp: wal_codec_ok_def codec_of_def length_takeWhile_mem nth_takeWhile_mem hex_digit_def list_all_iff split: if_splits)
qed

theorem envelope_detects_corruption_witness:
  "let s = \<lparr>seg_lsn = 1, seg_mutations = [DeleteVertex (Vid 7) []], seg_features = [], seg_announced = 0, seg_commits = []\<rparr>;
       codec = codec_of [s]
   in wal_codec_ok codec \<and> decode_segment codec (encode_segment_envelope codec [0]) = Inr s"
proof -
  let ?s = "\<lparr>seg_lsn = 1, seg_mutations = [DeleteVertex (Vid 7) []], seg_features = [], seg_announced = 0, seg_commits = []\<rparr>"
  have ok: "wal_codec_ok (codec_of [?s])" by (rule codec_of_ok) simp
  moreover have "seg_to_json (codec_of [?s]) ?s = Inr [0]" by (simp add: codec_of_def)
  ultimately show ?thesis using envelope_detects_corruption [of "codec_of [?s]" ?s "[0]" "[1]"] by (simp only: Let_def)
qed

end
