(* ===== verification/Wal_Replay.thy ===== *)
theory Wal_Replay
  imports Wal_Names
begin

text \<open>
  What the log gives back. A run is any interleaving of appends with flushes that succeed or fail
  before anything is stored; the log loses, duplicates and reorders nothing, and the commit spans
  keep pointing at the commits through every failed flush.
\<close>

subsection \<open>Runs\<close>

datatype wal_op = WAppend mutation | WCommit "mutation list"

fun wal_op_apply :: "wal_op \<Rightarrow> wal_state \<Rightarrow> wal_state" where
  "wal_op_apply (WAppend mu) st = append_mutation mu st"
| "wal_op_apply (WCommit mus) st = append_commit mus st"

fun wal_op_mutations :: "wal_op \<Rightarrow> mutation list" where
  "wal_op_mutations (WAppend mu) = [mu]"
| "wal_op_mutations (WCommit mus) = mus"

fun wal_op_commits :: "wal_op \<Rightarrow> mutation list list" where
  "wal_op_commits (WAppend mu) = []"
| "wal_op_commits (WCommit mus) = (if mus = [] then [] else [mus])"

datatype wal_event =
    Ops "wal_op list"
  | Announced nat
  | Flush bool flush_io "wal_op list"

fun wal_event_apply :: "wal_codec \<Rightarrow> wal_event \<Rightarrow> write_ahead_log \<Rightarrow> write_ahead_log" where
  "wal_event_apply codec (Ops ops) w = w\<lparr>w_state := fold wal_op_apply ops (w_state w)\<rparr>"
| "wal_event_apply codec (Announced lsn) w = w\<lparr>announced := max (announced w) lsn\<rparr>"
| "wal_event_apply codec (Flush seal io ops) w = snd (flush_inner codec io (fold wal_op_apply ops) seal w)"

definition wal_run :: "wal_codec \<Rightarrow> wal_event list \<Rightarrow> write_ahead_log \<Rightarrow> write_ahead_log" where
  "wal_run codec es w = fold (wal_event_apply codec) es w"

text \<open>
  The operations a run performs: those a flush lets in are performed only if it gets as far as
  releasing the lock.
\<close>

definition flush_starts :: "bool \<Rightarrow> write_ahead_log \<Rightarrow> bool" where
  "flush_starts seal w \<longleftrightarrow> \<not> (w_buffer (w_state w) = [] \<and> \<not> (seal \<and> announced w > w_written_announced (w_state w)))"

fun event_ops :: "wal_event \<Rightarrow> write_ahead_log \<Rightarrow> wal_op list" where
  "event_ops (Ops ops) w = ops"
| "event_ops (Announced _) w = []"
| "event_ops (Flush seal io ops) w = (if flush_starts seal w then ops else [])"

fun run_ops :: "wal_codec \<Rightarrow> wal_event list \<Rightarrow> write_ahead_log \<Rightarrow> wal_op list" where
  "run_ops codec [] w = []"
| "run_ops codec (e # es) w = event_ops e w @ run_ops codec es (wal_event_apply codec e w)"

text \<open>Flushes that store the whole segment or nothing, and that an \<open>fsync\<close> does not undo.\<close>

fun clean_event :: "wal_event \<Rightarrow> bool" where
  "clean_event (Flush seal io ops) = (put_result io \<noteq> PutFailed True \<and> fsync_ok io)"
| "clean_event _ = True"

subsection \<open>Commit spans\<close>

definition span_of :: "mutation list \<Rightarrow> commit_span \<Rightarrow> mutation list" where
  "span_of mus s = take (cs_len s) (drop (cs_start s) mus)"

definition span_ok :: "mutation list \<Rightarrow> commit_span \<Rightarrow> bool" where
  "span_ok mus s \<longleftrightarrow> cs_start s + cs_len s \<le> length mus"

definition commits_in :: "mutation list \<Rightarrow> commit_span list \<Rightarrow> mutation list list" where
  "commits_in mus spans = map (span_of mus) spans"

definition segment_commits :: "wal_segment \<Rightarrow> mutation list list" where
  "segment_commits s = commits_in (seg_mutations s) (seg_commits s)"

definition state_commits :: "wal_state \<Rightarrow> mutation list list" where
  "state_commits st = commits_in (w_buffer st) (w_spans st)"

definition spans_ok :: "wal_state \<Rightarrow> bool" where
  "spans_ok st \<longleftrightarrow> list_all (span_ok (w_buffer st)) (w_spans st)"

lemma span_of_append: "span_ok mus s \<Longrightarrow> span_of (mus @ mus') s = span_of mus s"
  by (auto simp: span_of_def span_ok_def)

lemma commits_in_append: "list_all (span_ok mus) spans \<Longrightarrow> commits_in (mus @ mus') spans = commits_in mus spans"
  by (auto simp: commits_in_def list_all_iff span_of_append)

lemma span_ok_append: "span_ok mus s \<Longrightarrow> span_ok (mus @ mus') s"
  by (simp add: span_ok_def)

lemma commits_in_snoc:
  assumes "list_all (span_ok mus) spans"
  shows "commits_in (mus @ mus') (spans @ [\<lparr>cs_start = length mus, cs_len = length mus'\<rparr>]) = commits_in mus spans @ [mus']"
  using commits_in_append [OF assms, of mus'] by (simp add: commits_in_def span_of_def)

lemma wal_op_state:
  assumes "spans_ok st"
  shows "w_buffer (wal_op_apply p st) = w_buffer st @ wal_op_mutations p \<and>
    state_commits (wal_op_apply p st) = state_commits st @ wal_op_commits p \<and> spans_ok (wal_op_apply p st) \<and>
    w_next_lsn (wal_op_apply p st) = w_next_lsn st"
proof -
  have "list_all (span_ok (w_buffer st @ mus)) (w_spans st)" for mus
    using assms by (auto simp: spans_ok_def list_all_iff span_ok_append)
  then show ?thesis
    using assms
    by (cases p) (simp_all add: append_mutation_def append_commit_def Let_def state_commits_def spans_ok_def commits_in_append
        commits_in_snoc span_ok_def [of _ "\<lparr>cs_start = _, cs_len = _\<rparr>"])
qed

lemma wal_ops_state:
  assumes "spans_ok st"
  shows "w_buffer (fold wal_op_apply ops st) = w_buffer st @ concat (map wal_op_mutations ops) \<and>
    state_commits (fold wal_op_apply ops st) = state_commits st @ concat (map wal_op_commits ops) \<and>
    spans_ok (fold wal_op_apply ops st) \<and> w_next_lsn (fold wal_op_apply ops st) = w_next_lsn st"
  using assms
proof (induction ops arbitrary: st)
  case (Cons p ops)
  then show ?case using wal_op_state [OF Cons.prems, of p] Cons.IH [of "wal_op_apply p st"] by simp
qed simp

lemma restore_unflushed_state:
  assumes "list_all (span_ok batch) spans" "spans_ok st"
  shows "w_buffer (restore_unflushed batch spans st) = batch @ w_buffer st \<and>
    state_commits (restore_unflushed batch spans st) = commits_in batch spans @ state_commits st \<and>
    spans_ok (restore_unflushed batch spans st) \<and> w_next_lsn (restore_unflushed batch spans st) = w_next_lsn st"
proof -
  have "span_of (batch @ w_buffer st) \<lparr>cs_start = cs_start s + length batch, cs_len = cs_len s\<rparr> = span_of (w_buffer st) s" for s
    by (simp add: span_of_def)
  then show ?thesis
    using assms
    by (auto simp: restore_unflushed_def Let_def state_commits_def commits_in_def spans_ok_def list_all_iff span_of_append span_ok_append)
      (auto simp: span_ok_def)
qed

subsection \<open>The segments on the store\<close>

definition stored :: "wal_codec \<Rightarrow> wal_segment \<Rightarrow> string \<times> bytes \<Rightarrow> bool" where
  "stored codec s obj \<longleftrightarrow>
     (\<exists>u j. seg_to_json codec s = Inr j \<and> obj = (segment_name (seg_lsn s) u, encode_segment_envelope codec j))"

definition wal_inv :: "wal_codec \<Rightarrow> wal_segment list \<Rightarrow> write_ahead_log \<Rightarrow> bool" where
  "wal_inv codec segs w \<longleftrightarrow>
     list_all2 (stored codec) segs (w_objects w) \<and> sorted_wrt (<) (map seg_lsn segs) \<and>
     list_all (\<lambda>s. 0 < seg_lsn s \<and> seg_lsn s < w_next_lsn (w_state w)) segs \<and>
     0 < w_next_lsn (w_state w) \<and> spans_ok (w_state w)"

lemma list_all2_mem: "list_all2 P xs ys \<Longrightarrow> y \<in> set ys \<Longrightarrow> \<exists>x\<in>set xs. P x y"
  by (induction xs ys rule: list_all2_induct) auto

lemma stored_name_fresh:
  assumes "list_all2 (stored codec) segs objs" "list_all (\<lambda>s. seg_lsn s < n) segs" "n < 2 ^ 64"
  shows "segment_name n u \<notin> fst ` set objs"
proof
  assume "segment_name n u \<in> fst ` set objs"
  then obtain xs where "(segment_name n u, xs) \<in> set objs" by force
  then obtain s where "s \<in> set segs" "stored codec s (segment_name n u, xs)"
    using list_all2_mem [OF assms(1)] by blast
  then obtain v where "seg_lsn s < n" "segment_name n u = segment_name (seg_lsn s) v"
    using assms(2) by (auto simp: list_all_iff stored_def)
  then show False using segment_name_less [of "seg_lsn s" n v u] assms(3) by simp
qed

lemma object_put_fresh: "name \<notin> fst ` set objs \<Longrightarrow> object_put name body objs = objs @ [(name, body)]"
  by (force simp: object_put_def filter_id_conv)

lemma wal_next_mono: "spans_ok (w_state w) \<Longrightarrow> w_next_lsn (w_state w) \<le> w_next_lsn (w_state (wal_event_apply codec e w))"
proof (cases e)
  case (Flush seal io ops)
  assume "spans_ok (w_state w)"
  let ?st = "(w_state w)\<lparr>w_next_lsn := w_next_lsn (w_state w) + 1, w_buffer := [], w_spans := []\<rparr>"
  have "spans_ok ?st" by (simp add: spans_ok_def)
  then have "w_next_lsn (fold wal_op_apply ops ?st) = w_next_lsn (w_state w) + 1" using wal_ops_state [of ?st ops] by simp
  then show ?thesis
    by (auto simp: Flush flush_inner_def Let_def restore_unflushed_def split: sum.split put_result.split)
qed (simp_all add: wal_ops_state)

lemma wal_event_spans:
  assumes "spans_ok (w_state w)"
  shows "spans_ok (w_state (wal_event_apply codec e w))"
proof (cases e)
  case (Flush seal io ops)
  let ?st = "(w_state w)\<lparr>w_next_lsn := w_next_lsn (w_state w) + 1, w_buffer := [], w_spans := []\<rparr>"
  have "spans_ok ?st" by (simp add: spans_ok_def)
  then have st1: "spans_ok (fold wal_op_apply ops ?st)" using wal_ops_state by blast
  then have "spans_ok ((fold wal_op_apply ops ?st)\<lparr>w_flushed_lsn := m, w_written_announced := n\<rparr>)" for m n by (simp add: spans_ok_def)
  moreover have "spans_ok (restore_unflushed (w_buffer (w_state w)) (w_spans (w_state w)) (fold wal_op_apply ops ?st))"
    using restore_unflushed_state [OF assms [unfolded spans_ok_def] st1] by blast
  ultimately show ?thesis
    using assms st1 by (auto simp: Flush flush_inner_def Let_def split: sum.split put_result.split)
qed (use assms wal_ops_state in auto)

lemma wal_event_inv:
  assumes inv: "wal_inv codec segs w" and clean: "clean_event e"
    and bound: "w_next_lsn (w_state (wal_event_apply codec e w)) \<le> 2 ^ 64"
  shows "\<exists>new. wal_inv codec (segs @ new) (wal_event_apply codec e w) \<and>
    concat (map seg_mutations new) @ w_buffer (w_state (wal_event_apply codec e w)) =
      w_buffer (w_state w) @ concat (map wal_op_mutations (event_ops e w)) \<and>
    concat (map segment_commits new) @ state_commits (w_state (wal_event_apply codec e w)) =
      state_commits (w_state w) @ concat (map wal_op_commits (event_ops e w))"
proof (cases e)
  case (Ops ops)
  then show ?thesis
    using inv wal_ops_state [of "w_state w" ops] by (intro exI [of _ "[]"]) (simp add: wal_inv_def)
next
  case (Announced lsn)
  then show ?thesis using inv by (intro exI [of _ "[]"]) (simp add: wal_inv_def)
next
  case (Flush seal io ops)
  note ok = inv [unfolded wal_inv_def]
  show ?thesis
  proof (cases "flush_starts seal w")
    case False
    then have "wal_event_apply codec e w = w" by (simp add: Flush flush_inner_def flush_starts_def Let_def)
    then show ?thesis using inv False by (intro exI [of _ "[]"]) (simp add: Flush)
  next
    case True
    let ?lsn = "w_next_lsn (w_state w)" and ?batch = "w_buffer (w_state w)" and ?spans = "w_spans (w_state w)"
    define st0 where "st0 = (w_state w)\<lparr>w_next_lsn := ?lsn + 1, w_buffer := [], w_spans := []\<rparr>"
    define st1 where "st1 = fold wal_op_apply ops st0"
    have st0: "spans_ok st0" "state_commits st0 = []" "w_buffer st0 = []" "w_next_lsn st0 = ?lsn + 1"
      by (simp_all add: st0_def spans_ok_def state_commits_def commits_in_def)
    have st1: "w_buffer st1 = concat (map wal_op_mutations ops)" "state_commits st1 = concat (map wal_op_commits ops)"
      "spans_ok st1" "w_next_lsn st1 = ?lsn + 1"
      using wal_ops_state [OF st0(1), of ops] st0(2-4) by (simp_all add: st1_def)
    define seg where "seg = \<lparr>seg_lsn = ?lsn, seg_mutations = ?batch, seg_features = writer_features w,
      seg_announced = announced w, seg_commits = ?spans\<rparr>"
    have spans: "list_all (span_ok ?batch) ?spans" using ok by (simp add: spans_ok_def)
    define r where "r = restore_unflushed ?batch ?spans st1"
    have r: "w_buffer r = ?batch @ concat (map wal_op_mutations ops)"
      "state_commits r = state_commits (w_state w) @ concat (map wal_op_commits ops)" "spans_ok r" "w_next_lsn r = ?lsn + 1"
      using restore_unflushed_state [OF spans st1(3)] st1 by (simp_all add: r_def state_commits_def [of "w_state w"])
    have later: "list_all (\<lambda>s. 0 < seg_lsn s \<and> seg_lsn s < ?lsn + 1) segs" using ok by (auto simp: list_all_iff)
    have run: "wal_event_apply codec e w =
        (case seg_to_json codec seg of
           Inl _ \<Rightarrow> w\<lparr>w_state := r\<rparr>
         | Inr json \<Rightarrow>
             (case put_result io of
                PutFailed wrote \<Rightarrow> w\<lparr>w_state := r\<rparr>
              | PutOk \<Rightarrow> w\<lparr>w_state := st1\<lparr>w_flushed_lsn := ?lsn, w_written_announced := max (w_written_announced st1) (announced w)\<rparr>,
                  w_objects := object_put (segment_name ?lsn (segment_uuid io)) (encode_segment_envelope codec json) (w_objects w)\<rparr>))"
      using True clean
      by (auto simp: Flush flush_inner_def flush_starts_def Let_def st0_def st1_def r_def seg_def split: sum.split put_result.split)
    have ops: "event_ops e w = ops" using True by (simp add: Flush)
    have keep: "wal_inv codec segs (w\<lparr>w_state := r\<rparr>)" using ok later r by (simp add: wal_inv_def)
    show ?thesis
    proof (cases "seg_to_json codec seg")
      case (Inl x)
      then have w': "wal_event_apply codec e w = w\<lparr>w_state := r\<rparr>" by (simp add: run)
      show ?thesis unfolding w' ops using keep r by (intro exI [of _ "[]"]) simp
    next
      case (Inr json)
      show ?thesis
      proof (cases "put_result io")
        case (PutFailed wrote)
        then have w': "wal_event_apply codec e w = w\<lparr>w_state := r\<rparr>" by (simp add: run Inr)
        show ?thesis unfolding w' ops using keep r by (intro exI [of _ "[]"]) simp
      next
        case PutOk
        then have w': "wal_event_apply codec e w =
            w\<lparr>w_state := st1\<lparr>w_flushed_lsn := ?lsn, w_written_announced := max (w_written_announced st1) (announced w)\<rparr>,
              w_objects := object_put (segment_name ?lsn (segment_uuid io)) (encode_segment_envelope codec json) (w_objects w)\<rparr>"
          by (simp add: run Inr)
        have "?lsn < 2 ^ 64" using bound st1(4) by (simp add: w')
        then have "segment_name ?lsn (segment_uuid io) \<notin> fst ` set (w_objects w)"
          using ok by (intro stored_name_fresh [where segs = segs]) (auto simp: list_all_iff)
        moreover have "stored codec seg (segment_name ?lsn (segment_uuid io), encode_segment_envelope codec json)"
          using Inr by (auto simp: stored_def seg_def)
        ultimately have "wal_inv codec (segs @ [seg]) (wal_event_apply codec e w)"
          using ok later st1 by (simp add: wal_inv_def w' object_put_fresh list_all2_appendI sorted_wrt_append seg_def spans_ok_def)
            (auto simp: list_all_iff)
        then show ?thesis
          unfolding w' ops using st1 by (intro exI [of _ "[seg]"]) (simp add: seg_def segment_commits_def state_commits_def)
      qed
    qed
  qed
qed

lemma append_chain: "a @ b1 = b @ p1 \<Longrightarrow> c @ b2 = b1 @ p2 \<Longrightarrow> a @ c @ b2 = b @ p1 @ p2"
  by (metis append.assoc)

lemma wal_run_inv:
  assumes "wal_inv codec segs w" "list_all clean_event es" "w_next_lsn (w_state (wal_run codec es w)) \<le> 2 ^ 64"
  shows "\<exists>new. wal_inv codec (segs @ new) (wal_run codec es w) \<and>
    concat (map seg_mutations new) @ w_buffer (w_state (wal_run codec es w)) =
      w_buffer (w_state w) @ concat (map wal_op_mutations (run_ops codec es w)) \<and>
    concat (map segment_commits new) @ state_commits (w_state (wal_run codec es w)) =
      state_commits (w_state w) @ concat (map wal_op_commits (run_ops codec es w))"
  using assms
proof (induction es arbitrary: segs w)
  case Nil
  then show ?case by (intro exI [of _ "[]"]) (simp add: wal_run_def)
next
  case (Cons e es)
  let ?w1 = "wal_event_apply codec e w"
  have spans: "spans_ok (w_state w)" using Cons.prems(1) by (simp add: wal_inv_def)
  have mono: "spans_ok (w_state v) \<Longrightarrow> w_next_lsn (w_state v) \<le> w_next_lsn (w_state (fold (wal_event_apply codec) fs v))" for v fs
  proof (induction fs arbitrary: v)
    case (Cons f fs)
    have "spans_ok (w_state (wal_event_apply codec f v))"
      using Cons.prems wal_event_spans by blast
    then show ?case using Cons.IH wal_next_mono [OF Cons.prems, of codec f] by (fastforce intro: le_trans)
  qed simp
  have "w_next_lsn (w_state ?w1) \<le> 2 ^ 64"
    using mono [OF wal_event_spans [OF spans, of codec e], of es] Cons.prems(3) by (simp add: wal_run_def)
  then obtain new where new: "wal_inv codec (segs @ new) ?w1"
    "concat (map seg_mutations new) @ w_buffer (w_state ?w1) = w_buffer (w_state w) @ concat (map wal_op_mutations (event_ops e w))"
    "concat (map segment_commits new) @ state_commits (w_state ?w1) = state_commits (w_state w) @ concat (map wal_op_commits (event_ops e w))"
    using wal_event_inv [OF Cons.prems(1), of e] Cons.prems(2) by auto
  obtain more where more: "wal_inv codec ((segs @ new) @ more) (wal_run codec es ?w1)"
    "concat (map seg_mutations more) @ w_buffer (w_state (wal_run codec es ?w1)) =
      w_buffer (w_state ?w1) @ concat (map wal_op_mutations (run_ops codec es ?w1))"
    "concat (map segment_commits more) @ state_commits (w_state (wal_run codec es ?w1)) =
      state_commits (w_state ?w1) @ concat (map wal_op_commits (run_ops codec es ?w1))"
    using Cons.IH [OF new(1)] Cons.prems(2,3) by (auto simp: wal_run_def)
  have "wal_run codec (e # es) w = wal_run codec es ?w1" by (simp add: wal_run_def)
  then show ?case
    using more(1) append_chain [OF new(2) more(2)] append_chain [OF new(3) more(3)] by (intro exI [of _ "new @ more"]) simp
qed

subsection \<open>Replay\<close>

lemma stored_read:
  assumes ok: "wal_codec_ok codec" and st: "list_all2 (stored codec) segs objs" and d: "distinct (map fst objs)"
    and sub: "set objs \<subseteq> set all" and all: "distinct (map fst all)"
  shows "replay_paths codec enforces (read_object all) h (map fst objs) =
    Inr (filter (\<lambda>s. h < seg_lsn s) segs, length (filter (\<lambda>s. h < seg_lsn s \<and> \<not> enforces (seg_features s)) segs))"
  using st d sub
proof (induction segs objs rule: list_all2_induct)
  case Nil
  then show ?case by simp
next
  case (Cons s segs obj objs)
  obtain u j where j: "seg_to_json codec s = Inr j" "obj = (segment_name (seg_lsn s) u, encode_segment_envelope codec j)"
    using Cons.hyps(1) by (auto simp: stored_def)
  have "hget all (fst obj) = Some (encode_segment_envelope codec j)"
    using all Cons.prems(2) j(2) by (intro map_of_is_SomeI) auto
  then have "read_object all (fst obj) = GetOk (encode_segment_envelope codec j)" by (simp add: read_object_def)
  moreover have "encode_segment_envelope codec j \<noteq> []" by (simp add: encode_segment_envelope_def WAL_V2_MAGIC_def)
  ultimately show ?case
    using Cons.IH Cons.prems decode_encode [OF ok j(1)] by (simp add: bind_sum_def)
qed

lemma sort_mset_eq: "mset xs = mset ys \<Longrightarrow> sort xs = sort (ys :: 'a :: linorder list)"
  by (metis sorted_list_of_multiset_mset)

lemma stored_names_sorted:
  assumes "list_all2 (stored codec) segs objs" "sorted_wrt (<) (map seg_lsn segs)" "list_all (\<lambda>s. seg_lsn s < 2 ^ 64) segs"
  shows "sorted_wrt (<) (map fst objs)"
  using assms
proof (induction segs objs rule: list_all2_induct)
  case (Cons s segs obj objs)
  obtain u where u: "fst obj = segment_name (seg_lsn s) u" using Cons.hyps(1) by (auto simp: stored_def)
  have "fst obj < fst x" if x: "x \<in> set objs" for x
  proof -
    obtain t where t: "t \<in> set segs" "stored codec t x"
      using list_all2_mem [OF Cons.hyps(2) x] by blast
    then have "seg_lsn s < seg_lsn t" "seg_lsn t < 2 ^ 64" using Cons.prems by (auto simp: list_all_iff)
    then show ?thesis using t(2) segment_name_less by (auto simp: u stored_def)
  qed
  then show ?case using Cons.IH Cons.prems by simp
qed simp

lemma replay_stored:
  assumes ok: "wal_codec_ok codec" and inv: "wal_inv codec segs w" and bound: "w_next_lsn (w_state w) \<le> 2 ^ 64"
    and listing: "mset metas = mset (map fst (w_objects w))"
  shows "replay_segments_since codec enforces (read_object (w_objects w)) h metas =
    Inr (filter (\<lambda>s. h < seg_lsn s) segs, length (filter (\<lambda>s. h < seg_lsn s \<and> \<not> enforces (seg_features s)) segs))"
proof -
  let ?P = "\<lambda>p. case parse_lsn_from_filename p of None \<Rightarrow> True | Some lsn \<Rightarrow> h < lsn"
  have st: "list_all2 (stored codec) segs (w_objects w)" "sorted_wrt (<) (map seg_lsn segs)"
    using inv by (simp_all add: wal_inv_def)
  have small: "list_all (\<lambda>s. seg_lsn s < 2 ^ 64) segs"
    using inv bound by (auto simp: wal_inv_def list_all_iff dest!: bspec intro: less_le_trans)
  have sorted: "sorted_wrt (<) (map fst (w_objects w))" by (rule stored_names_sorted [OF st small])
  then have dist: "distinct (map fst (w_objects w))" by (simp add: strict_sorted_iff)
  have pred: "stored codec s obj \<Longrightarrow> s \<in> set segs \<Longrightarrow> ?P (fst obj) = (h < seg_lsn s)" for s obj
    using small by (auto simp: stored_def list_all_iff parse_segment_name)
  have sub: "list_all2 (stored codec) (filter (\<lambda>s. h < seg_lsn s) xs) (filter (\<lambda>obj. ?P (fst obj)) ys)"
    if "list_all2 (stored codec) xs ys" "set xs \<subseteq> set segs" for xs ys
    using that by (induction xs ys rule: list_all2_induct) (auto simp: pred)
  have "sort (filter ?P metas) = sort (filter ?P (map fst (w_objects w)))"
    using listing by (intro sort_mset_eq) (simp add: mset_filter)
  also have "\<dots> = filter ?P (map fst (w_objects w))"
    using sorted_wrt_filter [OF sorted, of ?P] by (intro sorted_sort_id) (simp add: strict_sorted_iff)
  also have "\<dots> = map fst (filter (\<lambda>obj. ?P (fst obj)) (w_objects w))" by (simp add: filter_map comp_def)
  finally have paths: "sort (filter ?P metas) = map fst (filter (\<lambda>obj. ?P (fst obj)) (w_objects w))" .
  have "distinct (map fst (filter (\<lambda>obj. ?P (fst obj)) (w_objects w)))" using dist by (simp add: distinct_map_filter)
  then have "replay_paths codec enforces (read_object (w_objects w)) h (map fst (filter (\<lambda>obj. ?P (fst obj)) (w_objects w))) =
      Inr (filter (\<lambda>s. h < seg_lsn s) (filter (\<lambda>s. h < seg_lsn s) segs),
        length (filter (\<lambda>s. h < seg_lsn s \<and> \<not> enforces (seg_features s)) (filter (\<lambda>s. h < seg_lsn s) segs)))"
    by (intro stored_read [OF ok sub [OF st(1)] _ _ dist]) auto
  then show ?thesis unfolding replay_segments_since_def paths by (simp add: conj_commute cong: conj_cong)
qed

lemma wal_inv_new: "wal_inv codec [] (with_local_root root (wal_new fs []))"
  by (simp add: wal_inv_def wal_new_def with_local_root_def spans_ok_def)


definition two_commits :: "wal_segment" where
  "two_commits = \<lparr>seg_lsn = 2, seg_mutations = [DeleteVertex (Vid 1) [], DeleteVertex (Vid 2) []], seg_features = [],
     seg_announced = 0, seg_commits = [\<lparr>cs_start = 0, cs_len = 1\<rparr>, \<lparr>cs_start = 1, cs_len = 1\<rparr>]\<rparr>"

definition flush_with :: "put_result \<Rightarrow> flush_io" where
  "flush_with r = \<lparr>put_result = r, fsync_ok = True, delete_ok = True, segment_uuid = ''u''\<rparr>"


subsection \<open>A commit whose flush failed\<close>

text \<open>
  C25 (\<open>failed_commit_replayed\<close>). A commit appends its mutations and flushes. When the store rejects
  the segment, the flush, and with it the commit, fails; but the mutations stay in the buffer, and
  the next commit's flush makes them durable, as a commit of their own: recovery replays the
  transaction whose caller was told that it had failed.
\<close>

theorem failed_commit_replayed:
  assumes ok: "wal_codec_ok codec" and nonempty: "failed \<noteq> []" "next_commit \<noteq> []"
    and io: "put_result io = PutFailed False" "put_result io' = PutOk" "fsync_ok io'"
    and json: "seg_to_json codec \<lparr>seg_lsn = 2, seg_mutations = failed @ next_commit, seg_features = fs, seg_announced = 0,
      seg_commits = [\<lparr>cs_start = 0, cs_len = length failed\<rparr>, \<lparr>cs_start = length failed, cs_len = length next_commit\<rparr>]\<rparr> = Inr j"
  shows "let w1 = (wal_new fs [])\<lparr>w_state := append_commit failed (w_state (wal_new fs []))\<rparr>;
             (r2, w2) = wal_flush codec io (\<lambda>st. st) w1;
             w3 = w2\<lparr>w_state := append_commit next_commit (w_state w2)\<rparr>;
             (r4, w4) = wal_flush codec io' (\<lambda>st. st) w3
         in (\<exists>e. r2 = Inl e) \<and> w_objects w2 = [] \<and> r4 = Inr 2 \<and>
            (\<exists>s n. replay_segments_since codec enforces (read_object (w_objects w4)) 0 (map fst (w_objects w4)) = Inr ([s], n) \<and>
               seg_mutations s = failed @ next_commit \<and> segment_commits s = [failed, next_commit])"
proof -
  define w1 where "w1 = (wal_new fs [])\<lparr>w_state := append_commit failed (w_state (wal_new fs []))\<rparr>"
  define w2 where "w2 = snd (wal_flush codec io (\<lambda>st. st) w1)"
  define w3 where "w3 = w2\<lparr>w_state := append_commit next_commit (w_state w2)\<rparr>"
  define w4 where "w4 = snd (wal_flush codec io' (\<lambda>st. st) w3)"
  let ?seg = "\<lparr>seg_lsn = 2, seg_mutations = failed @ next_commit, seg_features = fs, seg_announced = 0,
      seg_commits = [\<lparr>cs_start = 0, cs_len = length failed\<rparr>, \<lparr>cs_start = length failed, cs_len = length next_commit\<rparr>]\<rparr>"
  have r2: "\<exists>e. wal_flush codec io (\<lambda>st. st) w1 = (Inl e, w2)"
    and w2: "w2 = (wal_new fs [])\<lparr>w_state := \<lparr>w_buffer = failed, w_spans = [\<lparr>cs_start = 0, cs_len = length failed\<rparr>],
      w_written_announced = 0, w_next_lsn = 2, w_flushed_lsn = 0\<rparr>\<rparr>"
    using nonempty(1) io(1)
    by (auto simp: w1_def w2_def wal_flush_def flush_inner_def Let_def wal_new_def append_commit_def restore_unflushed_def split: sum.split)
  have w3: "w3 = (wal_new fs [])\<lparr>w_state := \<lparr>w_buffer = failed @ next_commit,
      w_spans = [\<lparr>cs_start = 0, cs_len = length failed\<rparr>, \<lparr>cs_start = length failed, cs_len = length next_commit\<rparr>],
      w_written_announced = 0, w_next_lsn = 2, w_flushed_lsn = 0\<rparr>\<rparr>"
    using nonempty(2) by (simp add: w3_def w2 append_commit_def Let_def)
  have r4: "wal_flush codec io' (\<lambda>st. st) w3 = (Inr 2, w4)"
    and w4: "w_objects w4 = [(segment_name 2 (segment_uuid io'), encode_segment_envelope codec j)]" "w_next_lsn (w_state w4) = 3"
      "w_spans (w_state w4) = []"
    using nonempty io(2,3) json
    by (simp_all add: w4_def w3 wal_flush_def flush_inner_def Let_def wal_new_def object_put_def)
  have "wal_inv codec [?seg] w4"
    using json by (auto simp: wal_inv_def w4 stored_def spans_ok_def)
  then have "replay_segments_since codec enforces (read_object (w_objects w4)) 0 (map fst (w_objects w4)) =
      Inr (filter (\<lambda>s. 0 < seg_lsn s) [?seg], length (filter (\<lambda>s. 0 < seg_lsn s \<and> \<not> enforces (seg_features s)) [?seg]))"
    by (rule replay_stored [OF ok]) (simp_all add: w4)
  moreover have "segment_commits ?seg = [failed, next_commit]"
    by (simp add: segment_commits_def commits_in_def span_of_def)
  moreover have "w_objects w2 = []" by (simp add: w2 wal_new_def)
  ultimately show ?thesis using r2 r4 by (auto simp: Let_def w1_def [symmetric] w3_def [symmetric])
qed

theorem failed_commit_replayed_witness:
  "\<exists>w1 w2 w3 e. wal_flush (codec_of [two_commits]) (flush_with (PutFailed False)) (\<lambda>st. st) w1 = (Inl e, w2) \<and>
     wal_flush (codec_of [two_commits]) (flush_with PutOk) (\<lambda>st. st) (w2\<lparr>w_state := append_commit [DeleteVertex (Vid 2) []] (w_state w2)\<rparr>) =
       (Inr 2, w3) \<and>
     (\<exists>s n. replay_segments_since (codec_of [two_commits]) (\<lambda>_. True) (read_object (w_objects w3)) 0 (map fst (w_objects w3)) = Inr ([s], n) \<and>
        segment_commits s = [[DeleteVertex (Vid 1) []], [DeleteVertex (Vid 2) []]])"
proof -
  have ok: "wal_codec_ok (codec_of [two_commits])" by (rule codec_of_ok) simp
  have json: "seg_to_json (codec_of [two_commits]) \<lparr>seg_lsn = 2, seg_mutations = [DeleteVertex (Vid 1) []] @ [DeleteVertex (Vid 2) []],
      seg_features = [], seg_announced = 0, seg_commits = [\<lparr>cs_start = 0, cs_len = length [DeleteVertex (Vid 1) []]\<rparr>,
        \<lparr>cs_start = length [DeleteVertex (Vid 1) []], cs_len = length [DeleteVertex (Vid 2) []]\<rparr>]\<rparr> = Inr [0]"
    by (simp add: codec_of_def two_commits_def)
  have io: "put_result (flush_with (PutFailed False)) = PutFailed False" "put_result (flush_with PutOk) = PutOk" "fsync_ok (flush_with PutOk)"
    by (simp_all add: flush_with_def)
  from failed_commit_replayed [OF ok _ _ io json, of "\<lambda>_. True"] show ?thesis
    by (fastforce simp: Let_def split: prod.splits)
qed

subsection \<open>Corruption\<close>

definition reads_as :: "wal_codec \<Rightarrow> (string \<Rightarrow> get_result) \<Rightarrow> string \<Rightarrow> wal_segment \<Rightarrow> bool" where
  "reads_as codec get path s \<longleftrightarrow> (\<exists>xs. get path = GetOk xs \<and> xs \<noteq> [] \<and> decode_segment codec xs = Inr s)"

text \<open>
  C26 (\<open>replay_corruption_policy\<close>). After segments that read well, a last segment that is empty or does
  not decode ends the log; one that any other segment follows, even one that has vanished, fails
  the recovery and names the file.
\<close>

theorem replay_corruption_policy:
  assumes good: "list_all2 (reads_as codec get) paths segs"
    and bad: "get path = GetOk xs" "xs = [] \<or> (\<exists>e. decode_segment codec xs = Inl e)"
  shows "(\<exists>n. replay_paths codec enforces get mark (paths @ [path]) = Inr (filter (\<lambda>s. mark < seg_lsn s) segs, n)) \<and>
    (later \<noteq> [] \<longrightarrow> (\<exists>reason. replay_paths codec enforces get mark (paths @ path # later) = Inl (CorruptSegment path reason (length later))))"
  using good
proof (induction paths segs rule: list_all2_induct)
  case Nil
  obtain e where "(if xs = [] then Inl EmptyFile else decode_segment codec xs) = Inl e"
    using bad(2) by (cases "xs = []") auto
  then show ?case using bad(1) by simp
next
  case (Cons p paths s segs)
  obtain ys where "get p = GetOk ys" "ys \<noteq> []" "decode_segment codec ys = Inr s"
    using Cons.hyps(1) by (auto simp: reads_as_def)
  then show ?case using Cons.IH by (auto simp: bind_sum_def)
qed

theorem replay_corruption_policy_witness:
  "let s = \<lparr>seg_lsn = 1, seg_mutations = [DeleteVertex (Vid 7) []], seg_features = [], seg_announced = 0, seg_commits = []\<rparr>;
       codec = codec_of [s];
       get = (\<lambda>p. if p = ''a'' then GetOk (encode_segment_envelope codec [0]) else GetOk [])
   in (\<exists>n. replay_paths codec (\<lambda>_. True) get 0 ([''a''] @ [''b'']) = Inr ([s], n)) \<and>
      (\<exists>reason. replay_paths codec (\<lambda>_. True) get 0 ([''a''] @ ''b'' # [''c'']) = Inl (CorruptSegment ''b'' reason 1))"
proof -
  define s where "s = \<lparr>seg_lsn = 1, seg_mutations = [DeleteVertex (Vid 7) []], seg_features = [], seg_announced = 0, seg_commits = []\<rparr>"
  define codec where "codec = codec_of [s]"
  define get where "get = (\<lambda>p. if p = ''a'' then GetOk (encode_segment_envelope codec [0]) else GetOk [])"
  have "wal_codec_ok codec" unfolding codec_def by (rule codec_of_ok) simp
  then have "decode_segment codec (encode_segment_envelope codec [0]) = Inr s"
    by (rule decode_encode) (simp add: codec_def codec_of_def)
  then have reads: "list_all2 (reads_as codec get) [''a''] [s]"
    by (simp add: reads_as_def get_def encode_segment_envelope_def WAL_V2_MAGIC_def)
  have "get ''b'' = GetOk []" "filter (\<lambda>s. 0 < seg_lsn s) [s] = [s]" by (simp_all add: get_def s_def)
  then show ?thesis
    using replay_corruption_policy [OF reads, of "''b''" "[]" "\<lambda>_. True" 0 "[''c'']"]
    unfolding Let_def s_def [symmetric] codec_def [symmetric] get_def [symmetric] by (simp del: replay_paths.simps)
qed

end
