(* ===== verification/Wal_Reopen.thy ===== *)
theory Wal_Reopen
  imports Wal_Replay
begin

text \<open>
  Truncating the log after a flush to L1 and reopening it: nothing above the published mark is
  lost, and segments written after the reopen are above it.
\<close>

lemma should_delete_stored:
  assumes "stored codec s obj" "seg_lsn s < 2 ^ 64"
  shows "should_delete codec get mark (fst obj) = Inr (seg_lsn s \<le> mark)"
  using assms by (auto simp: should_delete_def stored_def parse_segment_name)

lemma truncate_paths_stored:
  assumes "list_all2 (stored codec) segs objs" "list_all (\<lambda>s. seg_lsn s < 2 ^ 64) segs" "\<forall>p. del p \<noteq> None"
  shows "truncate_paths codec get del mark (map fst objs) all =
    (Inr (), filter (\<lambda>(n, _). n \<notin> fst ` set (map snd (filter (\<lambda>(s, _). seg_lsn s \<le> mark) (zip segs objs)))) all)"
  using assms
proof (induction segs objs arbitrary: all rule: list_all2_induct)
  case (Cons s segs obj objs)
  obtain b where b: "del (fst obj) = Some b" using Cons.prems(2) by blast
  have small: "seg_lsn s < 2 ^ 64" "list_all (\<lambda>s. seg_lsn s < 2 ^ 64) segs" using Cons.prems(1) by simp_all
  show ?case
  proof (cases "seg_lsn s \<le> mark")
    case True
    have "filter (\<lambda>(n, _). n \<notin> N) (filter (\<lambda>(n, _). n \<noteq> m) all) = filter (\<lambda>(n, _). n \<notin> insert m N) all" for m N
      by (auto intro: filter_cong)
    then show ?thesis
      using Cons.IH [OF small(2) Cons.prems(2), of "object_delete (fst obj) all"] should_delete_stored [OF Cons.hyps(1) small(1), of get mark] True b
      by (simp add: object_delete_def)
  next
    case False
    then show ?thesis
      using Cons.IH [OF small(2) Cons.prems(2), of all] should_delete_stored [OF Cons.hyps(1) small(1), of get mark] by simp
  qed
qed simp

lemma kept_objects:
  assumes "list_all2 (stored codec) segs objs" "distinct (map fst objs)"
  shows "list_all2 (stored codec) (filter (\<lambda>s. mark < seg_lsn s) segs)
    (filter (\<lambda>(n, _). n \<notin> fst ` set (map snd (filter (\<lambda>(s, _). seg_lsn s \<le> mark) (zip segs objs)))) objs)"
  using assms
proof (induction segs objs rule: list_all2_induct)
  case (Cons s segs obj objs)
  let ?N = "fst ` set (map snd (filter (\<lambda>(s, _). seg_lsn s \<le> mark) (zip segs objs)))"
  have sub: "?N \<subseteq> fst ` set objs" by (force dest: set_zip_rightD)
  have fresh: "fst obj \<notin> fst ` set objs" using Cons.prems by simp
  have IH: "list_all2 (stored codec) (filter (\<lambda>s. mark < seg_lsn s) segs) (filter (\<lambda>(n, _). n \<notin> ?N) objs)"
    using Cons.IH Cons.prems by simp
  have N: "fst ` set (map snd (filter (\<lambda>(s, _). seg_lsn s \<le> mark) (zip (s # segs) (obj # objs)))) =
      (if seg_lsn s \<le> mark then insert (fst obj) ?N else ?N)" by simp
  have skip: "filter (\<lambda>(n, _). n \<notin> insert (fst obj) ?N) objs = filter (\<lambda>(n, _). n \<notin> ?N) objs"
  proof (rule filter_cong [OF refl])
    fix x
    assume "x \<in> set objs"
    then have "fst x \<noteq> fst obj" using fresh by (metis image_eqI)
    then show "(case x of (n, _) \<Rightarrow> n \<notin> insert (fst obj) ?N) = (case x of (n, _) \<Rightarrow> n \<notin> ?N)" by (simp add: split_beta)
  qed
  show ?case
  proof (cases "seg_lsn s \<le> mark")
    case True
    then have "filter (\<lambda>(n, _). n \<notin> insert (fst obj) ?N) (obj # objs) = filter (\<lambda>(n, _). n \<notin> ?N) objs"
      unfolding filter.simps(2) skip by (simp add: split_beta)
    then show ?thesis unfolding N using IH True by simp
  next
    case False
    have "fst obj \<notin> ?N" using fresh sub by blast
    then have "filter (\<lambda>(n, _). n \<notin> ?N) (obj # objs) = obj # filter (\<lambda>(n, _). n \<notin> ?N) objs"
      unfolding filter.simps(2) by (simp add: split_beta)
    then show ?thesis unfolding N using IH False Cons.hyps(1) by simp
  qed
qed simp

lemma find_max_lsn_stored:
  assumes "list_all2 (stored codec) segs objs" "list_all (\<lambda>s. seg_lsn s < 2 ^ 64) segs"
  shows "find_max_lsn codec get (map fst objs) m = Inr (foldl max m (map seg_lsn segs))"
  using assms
proof (induction segs objs arbitrary: m rule: list_all2_induct)
  case (Cons s segs obj objs)
  have "parse_lsn_from_filename (fst obj) = Some (seg_lsn s)"
    using Cons.hyps(1) Cons.prems by (auto simp: stored_def parse_segment_name)
  then show ?case using Cons.IH Cons.prems by simp
qed simp

lemma foldl_max_bound: "m \<le> foldl max m xs \<and> (\<forall>x\<in>set xs. x \<le> foldl max m (xs :: nat list))"
proof (induction xs arbitrary: m)
  case (Cons x xs)
  have "max m x \<le> foldl max (max m x) xs" "\<forall>y\<in>set xs. y \<le> foldl max (max m x) xs" using Cons.IH [of "max m x"] by blast+
  then show ?case by auto
qed simp

text \<open>
  C18 (\<open>reopen_above_mark\<close>). Truncate a log up to a published mark and reopen what is left: recovery from
  the mark reads the same segments as before, and the next segment's LSN is above the mark and above
  every segment left, so a later recovery from the mark reads that segment too.
\<close>

theorem reopen_above_mark:
  assumes ok: "wal_codec_ok codec" and clean: "list_all clean_event es"
    and w: "w = wal_run codec es (with_local_root root (wal_new fs []))" and bound: "w_next_lsn (w_state w) \<le> 2 ^ 64"
    and del: "\<forall>p. del p \<noteq> None"
  shows "\<exists>w1 n w2. truncate_before codec (read_object (w_objects w)) del mark w = (Inr (), w1) \<and>
    wal_initialize codec (read_object (w_objects w1)) (wal_new fs' (w_objects w1)) = (Inr n, w2) \<and>
    mark < w_next_lsn (ensure_lsn_above mark (w_state w2)) \<and>
    (\<forall>p\<in>fst ` set (w_objects w1). \<exists>lsn. parse_lsn_from_filename p = Some lsn \<and> mark < lsn \<and> lsn < w_next_lsn (ensure_lsn_above mark (w_state w2))) \<and>
    replay_segments_since codec enforces (read_object (w_objects w1)) mark (map fst (w_objects w1)) =
      replay_segments_since codec enforces (read_object (w_objects w)) mark (map fst (w_objects w))"
proof -
  obtain segs where inv: "wal_inv codec segs w" using wal_run_inv [OF wal_inv_new clean, of codec root fs] bound by (auto simp: w)
  note st = inv [unfolded wal_inv_def]
  have small: "list_all (\<lambda>s. seg_lsn s < 2 ^ 64) segs"
    using st bound by (auto simp: list_all_iff dest!: bspec intro: less_le_trans)
  have "sorted_wrt (<) (map fst (w_objects w))" using stored_names_sorted [of codec segs] st small by blast
  then have dist: "distinct (map fst (w_objects w))" by (simp add: strict_sorted_iff)
  let ?segs = "filter (\<lambda>s. mark < seg_lsn s) segs"
  define objs where "objs = filter (\<lambda>(n, _). n \<notin> fst ` set (map snd (filter (\<lambda>(s, _). seg_lsn s \<le> mark) (zip segs (w_objects w))))) (w_objects w)"
  define w1 where "w1 = w\<lparr>w_objects := objs\<rparr>"
  have trunc: "truncate_before codec (read_object (w_objects w)) del mark w = (Inr (), w1)"
    using truncate_paths_stored [of codec segs "w_objects w" del _ mark "w_objects w"] st small del
    by (simp add: truncate_before_def w1_def objs_def)
  have st1: "list_all2 (stored codec) ?segs objs" unfolding objs_def using kept_objects st dist by blast
  have small1: "list_all (\<lambda>s. seg_lsn s < 2 ^ 64) ?segs" using small by (auto simp: list_all_iff)
  define n where "n = foldl max 0 (map seg_lsn ?segs)"
  define w2 where "w2 = (wal_new fs' objs)\<lparr>w_state := (w_state (wal_new fs' objs))\<lparr>w_next_lsn := n + 1, w_flushed_lsn := n\<rparr>\<rparr>"
  have init: "wal_initialize codec (read_object (w_objects w1)) (wal_new fs' (w_objects w1)) = (Inr n, w2)"
    using find_max_lsn_stored [OF st1 small1, of _ 0] by (simp add: wal_initialize_def w1_def w2_def n_def wal_new_def)
  have next_lsn: "w_next_lsn (ensure_lsn_above mark (w_state w2)) = max (n + 1) (mark + 1)" by (simp add: ensure_lsn_above_def w2_def)
  have names: "\<exists>lsn. parse_lsn_from_filename p = Some lsn \<and> mark < lsn \<and> lsn < max (n + 1) (mark + 1)" if p: "p \<in> fst ` set objs" for p
  proof -
    obtain s obj where s: "s \<in> set ?segs" "stored codec s obj" "fst obj = p" using p list_all2_mem [OF st1] by blast
    then have "seg_lsn s \<le> n" using foldl_max_bound [of 0 "map seg_lsn ?segs"] by (simp add: n_def)
    moreover have "parse_lsn_from_filename p = Some (seg_lsn s)"
      using s small1 parse_segment_name by (auto simp: stored_def list_all_iff)
    ultimately show ?thesis using s(1) by auto
  qed
  have "sorted_wrt (<) (map seg_lsn ?segs)" using st by (simp add: sorted_wrt_map sorted_wrt_filter)
  then have inv1: "wal_inv codec ?segs w1" using st st1 by (auto simp: wal_inv_def w1_def list_all_iff)
  have "replay_segments_since codec enforces (read_object (w_objects w1)) mark (map fst (w_objects w1)) =
      replay_segments_since codec enforces (read_object (w_objects w)) mark (map fst (w_objects w))"
    using replay_stored [OF ok inv1, of _ enforces mark] replay_stored [OF ok inv, of _ enforces mark] bound
    by (simp add: w1_def conj_commute cong: conj_cong)
  then show ?thesis using trunc init next_lsn names by (auto simp: w1_def)
qed

theorem reopen_above_mark_witness:
  "let codec = codec_of [two_commits];
       es = [Ops [WCommit [DeleteVertex (Vid 1) []]], Flush False (flush_with (PutFailed False)) [WCommit [DeleteVertex (Vid 2) []]],
             Flush False (flush_with PutOk) []];
       w = wal_run codec es (with_local_root True (wal_new [] []))
   in \<exists>w1 n w2. truncate_before codec (read_object (w_objects w)) (\<lambda>_. Some True) 2 w = (Inr (), w1) \<and>
        wal_initialize codec (read_object (w_objects w1)) (wal_new [] (w_objects w1)) = (Inr n, w2) \<and>
        2 < w_next_lsn (ensure_lsn_above 2 (w_state w2))"
proof -
  let ?codec = "codec_of [two_commits]"
  let ?es = "[Ops [WCommit [DeleteVertex (Vid 1) []]], Flush False (flush_with (PutFailed False)) [WCommit [DeleteVertex (Vid 2) []]],
    Flush False (flush_with PutOk) []]"
  define w where "w = wal_run ?codec ?es (with_local_root True (wal_new [] []))"
  have ok: "wal_codec_ok ?codec" by (rule codec_of_ok) simp
  have clean: "list_all clean_event ?es" by (simp add: flush_with_def)
  have "w_next_lsn (w_state w) \<le> 3"
    by (simp add: w_def wal_run_def flush_inner_def Let_def with_local_root_def wal_new_def append_commit_def flush_with_def
        restore_unflushed_def split: sum.split)
  then have bound: "w_next_lsn (w_state w) \<le> 2 ^ 64" by simp
  show ?thesis
    using reopen_above_mark [OF ok clean w_def bound, of "\<lambda>_. Some True" 2 "[]"] by (simp add: Let_def w_def [symmetric]) blast
qed

end
