(* ===== verification/L0_Manager.thy ===== *)
theory L0_Manager
  imports L0_Run
begin

text \<open>
  The manager of the write buffers (\<^verbatim>\<open>crates/uni-store/src/runtime/l0_manager.rs\<close>): the current
  buffer, the buffers being flushed, and the snapshots that pin a generation.

  Which buffer is shared with whom is what this component is about, so the buffers live in a store:
  an \<open>Arc<RwLock<L0Buffer>>\<close> is an address of \<open>buffers\<close>, and an \<open>Arc<PinToken>\<close> an address of
  \<open>pin_counts\<close>, which holds the number of its clones. A freed buffer keeps its address: nothing
  reads it again. The storage manager that a snapshot may carry is not modelled.

  The second part runs any sequence of operations beside the writes to the current buffer and shows
  that a snapshot reads, as long as it lives, what it read when it was taken.
\<close>

subsection \<open>The store\<close>

type_synonym addr = nat

record 'p l0_heap =
  buffers :: "'p l0_buffer list"
  pin_counts :: "nat list"

definition read_buffer :: "addr \<Rightarrow> 'p l0_heap \<Rightarrow> 'p l0_buffer" where
  "read_buffer a h = buffers h ! a"

definition write_buffer :: "addr \<Rightarrow> ('p l0_buffer \<Rightarrow> 'p l0_buffer) \<Rightarrow> 'p l0_heap \<Rightarrow> 'p l0_heap" where
  "write_buffer a f h = h\<lparr>buffers := (buffers h)[a := f (buffers h ! a)]\<rparr>"

definition new_buffer :: "'p l0_buffer \<Rightarrow> 'p l0_heap \<Rightarrow> addr \<times> 'p l0_heap" where
  "new_buffer b h = (length (buffers h), h\<lparr>buffers := buffers h @ [b]\<rparr>)"

definition new_pin :: "'p l0_heap \<Rightarrow> nat \<times> 'p l0_heap" where
  "new_pin h = (length (pin_counts h), h\<lparr>pin_counts := pin_counts h @ [1]\<rparr>)"

definition clone_pin :: "nat \<Rightarrow> 'p l0_heap \<Rightarrow> 'p l0_heap" where
  "clone_pin t h = h\<lparr>pin_counts := (pin_counts h)[t := pin_counts h ! t + 1]\<rparr>"

definition drop_pin :: "nat \<Rightarrow> 'p l0_heap \<Rightarrow> 'p l0_heap" where
  "drop_pin t h = h\<lparr>pin_counts := (pin_counts h)[t := pin_counts h ! t - 1]\<rparr>"

subsection \<open>The manager\<close>

record 'p l0_manager =
  mgr_current :: addr
  mgr_pending :: "addr list"
  mgr_pin :: nat
  mgr_registry :: "'p providers option"
  mgr_transaction :: "addr option"
  mgr_bulk :: "nat list"

record snapshot_view =
  sv_main :: addr
  sv_extra :: "addr list"
  sv_pin :: nat
  sv_started_at_version :: nat
  sv_unpublished_bulk :: "nat list"
  sv_transaction :: "addr option"

definition from_view ::
  "addr \<Rightarrow> addr list \<Rightarrow> addr option \<Rightarrow> 'p l0_heap \<Rightarrow> 'p l0_manager \<times> 'p l0_heap" where
  "from_view cur pending tx h =
     (let (t, h1) = new_pin h
      in (\<lparr>mgr_current = cur, mgr_pending = pending, mgr_pin = t, mgr_registry = None,
           mgr_transaction = tx, mgr_bulk = []\<rparr>, h1))"

definition from_snapshot :: "addr \<Rightarrow> addr list \<Rightarrow> 'p l0_heap \<Rightarrow> 'p l0_manager \<times> 'p l0_heap" where
  "from_snapshot cur pending h = from_view cur pending None h"

definition l0_manager_new :: "nat \<Rightarrow> mutation list option \<Rightarrow> 'p l0_heap \<Rightarrow> 'p l0_manager \<times> 'p l0_heap" where
  "l0_manager_new start_version w h =
     (let (a, h1) = new_buffer (l0_new start_version w) h;
          (t, h2) = new_pin h1
      in (\<lparr>mgr_current = a, mgr_pending = [], mgr_pin = t, mgr_registry = None,
           mgr_transaction = None, mgr_bulk = []\<rparr>, h2))"

definition mgr_set_plugin_registry ::
  "'p providers \<Rightarrow> 'p l0_manager \<Rightarrow> 'p l0_heap \<Rightarrow> 'p l0_manager \<times> 'p l0_heap" where
  "mgr_set_plugin_registry r m h =
     (m\<lparr>mgr_registry := Some r\<rparr>, write_buffer (mgr_current m) (set_plugin_registry r) h)"

text \<open>The reserved bulk versions are a \<open>BTreeSet\<close>: a sorted list without duplicates.\<close>

definition unpublished_bulk_at_most :: "nat \<Rightarrow> 'p l0_manager \<Rightarrow> nat list" where
  "unpublished_bulk_at_most version m = takeWhile (\<lambda>v. v \<le> version) (mgr_bulk m)"

definition version_and_unpublished_bulk :: "'p l0_manager \<Rightarrow> 'p l0_heap \<Rightarrow> nat \<times> nat list" where
  "version_and_unpublished_bulk m h =
     (let version = current_version (read_buffer (mgr_current m) h)
      in (version, unpublished_bulk_at_most version m))"

definition reserve_bulk_version :: "'p l0_manager \<Rightarrow> 'p l0_heap \<Rightarrow> nat \<times> 'p l0_manager \<times> 'p l0_heap" where
  "reserve_bulk_version m h =
     (let h1 = write_buffer (mgr_current m) (\<lambda>b. b\<lparr>current_version := current_version b + 1\<rparr>) h;
          version = current_version (read_buffer (mgr_current m) h1)
      in (version, m\<lparr>mgr_bulk := insort_insert version (mgr_bulk m)\<rparr>, h1))"

definition release_bulk_version :: "nat \<Rightarrow> 'p l0_manager \<Rightarrow> 'p l0_manager" where
  "release_bulk_version version m = m\<lparr>mgr_bulk := removeAll version (mgr_bulk m)\<rparr>"

definition get_all_readable :: "'p l0_manager \<Rightarrow> addr list" where
  "get_all_readable m = mgr_current m # mgr_pending m"

definition rotate ::
  "nat \<Rightarrow> mutation list option \<Rightarrow> 'p l0_manager \<Rightarrow> 'p l0_heap \<Rightarrow> addr \<times> 'p l0_manager \<times> 'p l0_heap" where
  "rotate next_version new_wal m h =
     (let old = mgr_current m;
          next_version' = max next_version (current_version (read_buffer old h));
          new_l0 = l0_new next_version' new_wal;
          new_l0' = (case mgr_registry m of None \<Rightarrow> new_l0 | Some reg \<Rightarrow> set_plugin_registry reg new_l0);
          (a, h1) = new_buffer new_l0' h;
          (t, h2) = new_pin h1
      in (old, m\<lparr>mgr_current := a, mgr_pin := t\<rparr>, drop_pin (mgr_pin m) h2))"

definition begin_flush ::
  "nat \<Rightarrow> mutation list option \<Rightarrow> 'p l0_manager \<Rightarrow> 'p l0_heap \<Rightarrow> addr \<times> 'p l0_manager \<times> 'p l0_heap" where
  "begin_flush next_version new_wal m h =
     (let (old, m1, h1) = rotate next_version new_wal m h
      in (old, m1\<lparr>mgr_pending := mgr_pending m1 @ [old]\<rparr>, h1))"

definition complete_flush :: "addr \<Rightarrow> 'p l0_manager \<Rightarrow> 'p l0_manager" where
  "complete_flush a m = m\<lparr>mgr_pending := filter (\<lambda>x. x \<noteq> a) (mgr_pending m)\<rparr>"

definition snapshot_isolated ::
  "nat \<Rightarrow> mutation list option \<Rightarrow> 'p l0_manager \<Rightarrow> 'p l0_heap \<Rightarrow> (addr \<times> addr list) \<times> 'p l0_manager \<times> 'p l0_heap" where
  "snapshot_isolated next_version new_wal m h =
     (let pending = mgr_pending m;
          (frozen, m1, h1) = rotate next_version new_wal m h
      in ((frozen, pending), m1\<lparr>mgr_pending := mgr_pending m1 @ [frozen]\<rparr>, h1))"

definition pin_snapshot :: "'p l0_manager \<Rightarrow> 'p l0_heap \<Rightarrow> snapshot_view \<times> 'p l0_heap" where
  "pin_snapshot m h =
     (let version = current_version (read_buffer (mgr_current m) h)
      in (\<lparr>sv_main = mgr_current m, sv_extra = mgr_pending m, sv_pin = mgr_pin m, sv_started_at_version = version,
           sv_unpublished_bulk = unpublished_bulk_at_most version m, sv_transaction = mgr_transaction m\<rparr>,
          clone_pin (mgr_pin m) h))"

definition is_current_pinned :: "'p l0_manager \<Rightarrow> 'p l0_heap \<Rightarrow> bool" where
  "is_current_pinned m h \<longleftrightarrow> pin_counts h ! mgr_pin m > 1"

definition freeze_current_for_snapshot :: "'p l0_manager \<Rightarrow> 'p l0_heap \<Rightarrow> 'p l0_manager \<times> 'p l0_heap" where
  "freeze_current_for_snapshot m h =
     (let frozen = mgr_current m;
          new_buf = l0_clone (read_buffer frozen h);
          w = wal (read_buffer frozen h);
          h1 = write_buffer frozen (\<lambda>b. b\<lparr>wal := None\<rparr>) h;
          (a, h2) = new_buffer (new_buf\<lparr>wal := w\<rparr>) h1;
          (t, h3) = new_pin h2
      in (m\<lparr>mgr_current := a, mgr_pin := t\<rparr>, drop_pin (mgr_pin m) h3))"

definition min_pending_wal_lsn_start :: "addr \<Rightarrow> 'p l0_manager \<Rightarrow> 'p l0_heap \<Rightarrow> nat option" where
  "min_pending_wal_lsn_start except m h =
     (case map (\<lambda>a. wal_lsn_at_start (read_buffer a h)) (filter (\<lambda>a. a \<noteq> except) (mgr_pending m)) of
        [] \<Rightarrow> None
      | lsn # lsns \<Rightarrow> Some (fold min lsns lsn))"

text \<open>The layers a snapshot reads, newest first.\<close>

definition query_layers :: "snapshot_view \<Rightarrow> addr list" where
  "query_layers sv = (case sv_transaction sv of None \<Rightarrow> [] | Some a \<Rightarrow> [a]) @ sv_main sv # sv_extra sv"

text \<open>
  A write to the current buffer, as a commit and a write outside a transaction do it under the
  flush lock: the generation is first frozen if it is pinned (\<^verbatim>\<open>writer.rs\<close>,
  \<open>freeze_for_non_tx_write_if_pinned\<close> and the commit).
\<close>

definition freeze_if_pinned :: "'p l0_manager \<Rightarrow> 'p l0_heap \<Rightarrow> 'p l0_manager \<times> 'p l0_heap" where
  "freeze_if_pinned m h = (if is_current_pinned m h then freeze_current_for_snapshot m h else (m, h))"

definition write_current ::
  "('p l0_buffer \<Rightarrow> 'p l0_buffer) \<Rightarrow> 'p l0_manager \<Rightarrow> 'p l0_heap \<Rightarrow> 'p l0_manager \<times> 'p l0_heap" where
  "write_current f m h =
     (let (m1, h1) = freeze_if_pinned m h in (m1, write_buffer (mgr_current m1) f h1))"

subsection \<open>The store's laws\<close>

lemma read_write_buffer:
  "read_buffer b (write_buffer a f h) = (if a = b \<and> a < length (buffers h) then f (read_buffer a h) else read_buffer b h)"
  by (cases "a = b") (simp_all add: read_buffer_def write_buffer_def nth_list_update list_update_beyond)

lemma write_buffer_sizes [simp]:
  "length (buffers (write_buffer a f h)) = length (buffers h)" "pin_counts (write_buffer a f h) = pin_counts h"
  by (simp_all add: write_buffer_def)

lemma pins_keep_buffers [simp]:
  "buffers (clone_pin t h) = buffers h" "buffers (drop_pin t h) = buffers h" "buffers (snd (new_pin h)) = buffers h"
  "read_buffer a (clone_pin t h) = read_buffer a h" "read_buffer a (drop_pin t h) = read_buffer a h"
  "length (pin_counts (clone_pin t h)) = length (pin_counts h)" "length (pin_counts (drop_pin t h)) = length (pin_counts h)"
  by (simp_all add: clone_pin_def drop_pin_def new_pin_def read_buffer_def)

lemma clone_pin_count: "t < length (pin_counts h) \<Longrightarrow> pin_counts (clone_pin t h) ! u = (if u = t then pin_counts h ! t + 1 else pin_counts h ! u)"
  by (simp add: clone_pin_def)

lemma drop_pin_count: "t < length (pin_counts h) \<Longrightarrow> pin_counts (drop_pin t h) ! u = (if u = t then pin_counts h ! t - 1 else pin_counts h ! u)"
  by (simp add: drop_pin_def)

lemma new_buffer_read:
  "new_buffer x h = (a, h') \<Longrightarrow> a = length (buffers h) \<and> length (buffers h') = Suc (length (buffers h)) \<and> pin_counts h' = pin_counts h \<and>
     read_buffer a h' = x \<and> (\<forall>b < length (buffers h). read_buffer b h' = read_buffer b h)"
  by (auto simp: new_buffer_def read_buffer_def nth_append)

lemma new_pin_counts:
  "new_pin h = (t, h') \<Longrightarrow> t = length (pin_counts h) \<and> length (pin_counts h') = Suc (length (pin_counts h)) \<and> buffers h' = buffers h \<and>
     pin_counts h' ! t = 1 \<and> (\<forall>u < length (pin_counts h). pin_counts h' ! u = pin_counts h ! u)"
  by (auto simp: new_pin_def nth_append)

text \<open>What a change of generation does, whether by a rotation or by a freeze.\<close>

definition fresh_generation :: "'p l0_manager \<Rightarrow> 'p l0_heap \<Rightarrow> 'p l0_manager \<Rightarrow> 'p l0_heap \<Rightarrow> bool" where
  "fresh_generation m h m' h' \<longleftrightarrow>
     mgr_current m' = length (buffers h) \<and> length (buffers h') = Suc (length (buffers h)) \<and>
     mgr_pin m' = length (pin_counts h) \<and> length (pin_counts h') = Suc (length (pin_counts h)) \<and>
     pin_counts h' ! mgr_pin m' = 1 \<and> mgr_transaction m' = mgr_transaction m \<and> mgr_registry m' = mgr_registry m"

lemma rotate_fresh:
  assumes "rotate n w m h = (old, m', h')" "mgr_pin m < length (pin_counts h)"
  shows "fresh_generation m h m' h' \<and> old = mgr_current m \<and> mgr_pending m' = mgr_pending m \<and>
    (\<forall>b < length (buffers h). read_buffer b h' = read_buffer b h) \<and>
    read_buffer (mgr_current m') h' = (l0_new (max n (current_version (read_buffer (mgr_current m) h))) w)\<lparr>plugin_registry := mgr_registry m\<rparr>"
proof -
  define x where "x = (case mgr_registry m of None \<Rightarrow> l0_new (max n (current_version (read_buffer (mgr_current m) h))) w
    | Some reg \<Rightarrow> set_plugin_registry reg (l0_new (max n (current_version (read_buffer (mgr_current m) h))) w))"
  obtain a h1 where b: "new_buffer x h = (a, h1)" by (cases "new_buffer x h")
  obtain t h2 where p: "new_pin h1 = (t, h2)" by (cases "new_pin h1")
  have r: "old = mgr_current m" "m' = m\<lparr>mgr_current := a, mgr_pin := t\<rparr>" "h' = drop_pin (mgr_pin m) h2"
    using assms(1) b p by (simp_all add: rotate_def Let_def x_def)
  note nb = new_buffer_read [OF b] and np = new_pin_counts [OF p]
  have "x = (l0_new (max n (current_version (read_buffer (mgr_current m) h))) w)\<lparr>plugin_registry := mgr_registry m\<rparr>"
    by (simp add: x_def set_plugin_registry_def l0_new_def split: option.split)
  moreover have "read_buffer b h' = read_buffer b h1" for b using np by (simp add: r(3)) (simp add: read_buffer_def)
  ultimately show ?thesis using nb np assms(2) by (auto simp: fresh_generation_def r drop_pin_count)
qed

lemma freeze_fresh:
  assumes "freeze_current_for_snapshot m h = (m', h')" "mgr_pin m < length (pin_counts h)" "mgr_current m < length (buffers h)"
  shows "fresh_generation m h m' h' \<and> mgr_pending m' = mgr_pending m \<and>
    (\<forall>b < length (buffers h). read_buffer b h' = (if b = mgr_current m then (read_buffer b h)\<lparr>wal := None\<rparr> else read_buffer b h)) \<and>
    read_buffer (mgr_current m') h' = (l0_clone (read_buffer (mgr_current m) h))\<lparr>wal := wal (read_buffer (mgr_current m) h)\<rparr>"
proof -
  define x where "x = (l0_clone (read_buffer (mgr_current m) h))\<lparr>wal := wal (read_buffer (mgr_current m) h)\<rparr>"
  define h0 where "h0 = write_buffer (mgr_current m) (\<lambda>b. b\<lparr>wal := None\<rparr>) h"
  obtain a h1 where b: "new_buffer x h0 = (a, h1)" by (cases "new_buffer x h0")
  obtain t h2 where p: "new_pin h1 = (t, h2)" by (cases "new_pin h1")
  have r: "m' = m\<lparr>mgr_current := a, mgr_pin := t\<rparr>" "h' = drop_pin (mgr_pin m) h2"
    using assms(1) b p by (simp_all add: freeze_current_for_snapshot_def Let_def x_def h0_def)
  note nb = new_buffer_read [OF b] and np = new_pin_counts [OF p]
  have h0: "length (buffers h0) = length (buffers h)" "pin_counts h0 = pin_counts h" by (simp_all add: h0_def)
  have "read_buffer b h0 = (if b = mgr_current m then (read_buffer b h)\<lparr>wal := None\<rparr> else read_buffer b h)" for b
    using assms(3) by (simp add: h0_def read_write_buffer)
  moreover have "read_buffer b h' = read_buffer b h1" for b using np by (simp add: r(2)) (simp add: read_buffer_def)
  ultimately show ?thesis using nb np assms(2) by (auto simp: fresh_generation_def r drop_pin_count h0 x_def)
qed

lemma freeze_pins:
  assumes "freeze_current_for_snapshot m h = (m', h')" "mgr_pin m < length (pin_counts h)" "u < length (pin_counts h)"
  shows "pin_counts h' ! u = (if u = mgr_pin m then pin_counts h ! u - 1 else pin_counts h ! u)"
  using assms by (auto simp: freeze_current_for_snapshot_def Let_def new_buffer_def new_pin_def drop_pin_def nth_append nth_list_update)

end
