(* ===== verification/L0_Snapshots.thy ===== *)
theory L0_Snapshots
  imports L0_Manager
begin

text \<open>
  Snapshot isolation of the buffers. A run is any interleaving of pins, clones and drops of
  snapshots, writes to the current buffer, rotations, completed flushes and bulk reservations; each
  snapshot carries what it read when it was taken.
\<close>

subsection \<open>Sources of stable reads\<close>

text \<open>
  A state holds views, each with the contents recorded when it was taken. If no step changes what a
  surviving view reads, every view reads its record in every later state.
\<close>

locale snapshot_source =
  fixes inv :: "'s \<Rightarrow> bool" and views :: "'s \<Rightarrow> ('v \<times> 'c) list" and reads :: "'s \<Rightarrow> 'v \<Rightarrow> 'c" and step :: "'e \<Rightarrow> 's \<Rightarrow> 's"
  assumes step_inv: "inv s \<Longrightarrow> inv (step e s)"
    and old_or_new: "inv s \<Longrightarrow> x \<in> set (views (step e s)) \<Longrightarrow> x \<in> set (views s) \<or> snd x = reads (step e s) (fst x)"
    and reads_kept: "inv s \<Longrightarrow> x \<in> set (views s) \<Longrightarrow> x \<in> set (views (step e s)) \<Longrightarrow> reads (step e s) (fst x) = reads s (fst x)"
begin

definition faithful :: "'s \<Rightarrow> bool" where
  "faithful s \<longleftrightarrow> (\<forall>x\<in>set (views s). reads s (fst x) = snd x)"

lemma step_faithful:
  assumes "inv s" "faithful s"
  shows "faithful (step e s)"
  unfolding faithful_def
proof
  fix x
  assume x: "x \<in> set (views (step e s))"
  then show "reads (step e s) (fst x) = snd x"
    using old_or_new [OF assms(1) x] reads_kept [OF assms(1) _ x] assms(2) by (auto simp: faithful_def)
qed

lemma run_faithful: "inv s \<Longrightarrow> faithful s \<Longrightarrow> inv (fold step es s) \<and> faithful (fold step es s)"
  by (induction es arbitrary: s) (simp_all add: step_inv step_faithful)

end

subsection \<open>Runs\<close>

record 'p sessions =
  ss_mgr :: "'p l0_manager"
  ss_heap :: "'p l0_heap"
  ss_views :: "(snapshot_view \<times> 'p l0_buffer list) list"

datatype 'p mgr_event =
    PinView
  | CloneView nat
  | DropView nat
  | WriteCurrent "'p l0_buffer \<Rightarrow> 'p l0_buffer"
  | BeginFlush nat "mutation list option"
  | CompleteFlush addr
  | ReserveBulk
  | ReleaseBulk nat

text \<open>
  The rows of a buffer: all but its log handle and the counters of the flush, which a freeze, a bulk
  reservation and a rotation write.
\<close>

definition rows :: "'p l0_buffer \<Rightarrow> 'p l0_buffer" where
  "rows b = b\<lparr>wal := None, current_version := 0, wal_lsn_at_flush := 0, unpublished_bulk_at_rotation := []\<rparr>"

definition view_reads :: "'p l0_heap \<Rightarrow> snapshot_view \<Rightarrow> 'p l0_buffer list" where
  "view_reads h sv = map (\<lambda>a. rows (read_buffer a h)) (query_layers sv)"

fun mgr_step :: "'p mgr_event \<Rightarrow> 'p sessions \<Rightarrow> 'p sessions" where
  "mgr_step PinView s =
     (let (sv, h) = pin_snapshot (ss_mgr s) (ss_heap s)
      in s\<lparr>ss_heap := h, ss_views := ss_views s @ [(sv, view_reads h sv)]\<rparr>)"
| "mgr_step (CloneView k) s =
     (if k < length (ss_views s)
      then s\<lparr>ss_heap := clone_pin (sv_pin (fst (ss_views s ! k))) (ss_heap s), ss_views := ss_views s @ [ss_views s ! k]\<rparr>
      else s)"
| "mgr_step (DropView k) s =
     (if k < length (ss_views s)
      then s\<lparr>ss_heap := drop_pin (sv_pin (fst (ss_views s ! k))) (ss_heap s),
             ss_views := take k (ss_views s) @ drop (Suc k) (ss_views s)\<rparr>
      else s)"
| "mgr_step (WriteCurrent f) s =
     (let (m, h) = write_current f (ss_mgr s) (ss_heap s) in s\<lparr>ss_mgr := m, ss_heap := h\<rparr>)"
| "mgr_step (BeginFlush n w) s =
     (let (old, m, h) = begin_flush n w (ss_mgr s) (ss_heap s) in s\<lparr>ss_mgr := m, ss_heap := h\<rparr>)"
| "mgr_step (CompleteFlush a) s = s\<lparr>ss_mgr := complete_flush a (ss_mgr s)\<rparr>"
| "mgr_step ReserveBulk s =
     (let (v, m, h) = reserve_bulk_version (ss_mgr s) (ss_heap s) in s\<lparr>ss_mgr := m, ss_heap := h\<rparr>)"
| "mgr_step (ReleaseBulk v) s = s\<lparr>ss_mgr := release_bulk_version v (ss_mgr s)\<rparr>"

definition sessions_new :: "nat \<Rightarrow> mutation list option \<Rightarrow> 'p sessions" where
  "sessions_new n w =
     (let (m, h) = l0_manager_new n w \<lparr>buffers = [], pin_counts = []\<rparr> in \<lparr>ss_mgr = m, ss_heap = h, ss_views = []\<rparr>)"

subsection \<open>The invariant\<close>

definition pins_of :: "nat \<Rightarrow> (snapshot_view \<times> 'c) list \<Rightarrow> nat" where
  "pins_of t vs = length (filter (\<lambda>x. sv_pin (fst x) = t) vs)"

definition mgr_ok :: "'p l0_manager \<Rightarrow> 'p l0_heap \<Rightarrow> bool" where
  "mgr_ok m h \<longleftrightarrow> mgr_current m < length (buffers h) \<and> mgr_pin m < length (pin_counts h) \<and>
     (\<forall>a\<in>set (mgr_pending m). a < length (buffers h) \<and> a \<noteq> mgr_current m) \<and> mgr_transaction m = None"

definition view_ok :: "'p l0_manager \<Rightarrow> 'p l0_heap \<Rightarrow> snapshot_view \<Rightarrow> bool" where
  "view_ok m h sv \<longleftrightarrow> sv_pin sv < length (pin_counts h) \<and> sv_transaction sv = None \<and>
     sv_main sv < length (buffers h) \<and> (\<forall>a\<in>set (sv_extra sv). a < length (buffers h) \<and> a \<noteq> mgr_current m) \<and>
     (sv_main sv = mgr_current m \<longrightarrow> sv_pin sv = mgr_pin m)"

definition sessions_ok :: "'p sessions \<Rightarrow> bool" where
  "sessions_ok s \<longleftrightarrow> mgr_ok (ss_mgr s) (ss_heap s) \<and> (\<forall>x\<in>set (ss_views s). view_ok (ss_mgr s) (ss_heap s) (fst x)) \<and>
     pin_counts (ss_heap s) ! mgr_pin (ss_mgr s) = 1 + pins_of (mgr_pin (ss_mgr s)) (ss_views s)"

lemma sessions_ok_new: "sessions_ok (sessions_new n w) \<and> ss_views (sessions_new n w) = []"
  by (simp add: sessions_new_def l0_manager_new_def new_buffer_def new_pin_def Let_def sessions_ok_def mgr_ok_def pins_of_def)

text \<open>After a change of generation no view pins the new one.\<close>

lemma fresh_generation_ok:
  assumes ok: "sessions_ok s" and fresh: "fresh_generation (ss_mgr s) (ss_heap s) m h"
    and pending: "set (mgr_pending m) \<subseteq> insert (mgr_current (ss_mgr s)) (set (mgr_pending (ss_mgr s)))"
  shows "sessions_ok (s\<lparr>ss_mgr := m, ss_heap := h\<rparr>)"
proof -
  note f = fresh [unfolded fresh_generation_def]
  have mgr: "mgr_ok (ss_mgr s) (ss_heap s)" and views: "\<forall>x\<in>set (ss_views s). view_ok (ss_mgr s) (ss_heap s) (fst x)"
    using ok by (simp_all add: sessions_ok_def)
  have "mgr_ok m h" using mgr f pending by (fastforce simp: mgr_ok_def)
  moreover have "view_ok m h (fst x)" if "x \<in> set (ss_views s)" for x
    using bspec [OF views that] f by (auto simp: view_ok_def)
  moreover have "pins_of (mgr_pin m) (ss_views s) = 0"
    using views f by (auto simp: pins_of_def view_ok_def filter_empty_conv)
  moreover have "pin_counts h ! mgr_pin m = 1" using f by blast
  ultimately show ?thesis unfolding sessions_ok_def by simp
qed

lemma query_layers_plain: "view_ok m h sv \<Longrightarrow> query_layers sv = sv_main sv # sv_extra sv"
  by (simp add: view_ok_def query_layers_def)

lemma rows_idem [simp]: "rows (b\<lparr>wal := x\<rparr>) = rows b" "rows (b\<lparr>current_version := n\<rparr>) = rows b"
  by (simp_all add: rows_def)

lemma view_reads_cong:
  assumes "view_ok m h sv" "\<And>a. a < length (buffers h) \<Longrightarrow> a = sv_main sv \<or> a \<noteq> mgr_current m \<Longrightarrow> rows (read_buffer a h') = rows (read_buffer a h)"
  shows "view_reads h' sv = view_reads h sv"
  using assms by (auto simp: view_reads_def query_layers_plain [OF assms(1)] view_ok_def)

lemma view_ok_pins:
  "length (buffers h') = length (buffers h) \<Longrightarrow> length (pin_counts h') = length (pin_counts h) \<Longrightarrow> view_ok m h' sv = view_ok m h sv"
  "length (buffers h') = length (buffers h) \<Longrightarrow> length (pin_counts h') = length (pin_counts h) \<Longrightarrow> mgr_ok m h' = mgr_ok m h"
  by (simp_all add: view_ok_def mgr_ok_def)

text \<open>An unpinned generation is no view's main buffer.\<close>

lemma unpinned_unread:
  assumes "sessions_ok s" "\<not> is_current_pinned (ss_mgr s) (ss_heap s)" "x \<in> set (ss_views s)"
  shows "sv_main (fst x) \<noteq> mgr_current (ss_mgr s)"
proof
  assume "sv_main (fst x) = mgr_current (ss_mgr s)"
  then have "sv_pin (fst x) = mgr_pin (ss_mgr s)" using assms(1,3) by (auto simp: sessions_ok_def view_ok_def)
  then have "pins_of (mgr_pin (ss_mgr s)) (ss_views s) > 0"
    using assms(3) by (auto simp: pins_of_def filter_empty_conv)
  then show False using assms(1,2) by (simp add: sessions_ok_def is_current_pinned_def)
qed

lemma sessions_write_ok:
  assumes "sessions_ok s" "mgr_current (ss_mgr s) = a"
  shows "sessions_ok (s\<lparr>ss_heap := write_buffer a f (ss_heap s)\<rparr>)"
  using assms view_ok_pins [of "write_buffer a f (ss_heap s)" "ss_heap s"] by (simp add: sessions_ok_def)

lemma write_current_ok:
  assumes ok: "sessions_ok s" and run: "write_current f (ss_mgr s) (ss_heap s) = (m, h)"
  shows "sessions_ok (s\<lparr>ss_mgr := m, ss_heap := h\<rparr>) \<and> (\<forall>x\<in>set (ss_views s). view_reads h (fst x) = view_reads (ss_heap s) (fst x))"
proof (cases "is_current_pinned (ss_mgr s) (ss_heap s)")
  case True
  obtain m1 h1 where fr: "freeze_current_for_snapshot (ss_mgr s) (ss_heap s) = (m1, h1)"
    by (cases "freeze_current_for_snapshot (ss_mgr s) (ss_heap s)")
  have r: "m = m1" "h = write_buffer (mgr_current m1) f h1" using run True fr by (auto simp: write_current_def freeze_if_pinned_def)
  have mgr: "mgr_ok (ss_mgr s) (ss_heap s)" and views: "\<forall>x\<in>set (ss_views s). view_ok (ss_mgr s) (ss_heap s) (fst x)"
    using ok by (simp_all add: sessions_ok_def)
  have new: "fresh_generation (ss_mgr s) (ss_heap s) m1 h1" "mgr_pending m1 = mgr_pending (ss_mgr s)"
    "\<And>b. b < length (buffers (ss_heap s)) \<Longrightarrow> rows (read_buffer b h1) = rows (read_buffer b (ss_heap s))"
    using freeze_fresh [OF fr] mgr by (auto simp: mgr_ok_def)
  have "sessions_ok (s\<lparr>ss_mgr := m1, ss_heap := h1\<rparr>)" by (rule fresh_generation_ok [OF ok new(1)]) (auto simp: new(2))
  then have "sessions_ok (s\<lparr>ss_mgr := m, ss_heap := h\<rparr>)"
    using sessions_write_ok [of "s\<lparr>ss_mgr := m1, ss_heap := h1\<rparr>" "mgr_current m1" f] by (simp add: r)
  moreover have "view_reads h (fst x) = view_reads (ss_heap s) (fst x)" if "x \<in> set (ss_views s)" for x
    by (rule view_reads_cong [OF bspec [OF views that]])
      (use new in \<open>simp add: r read_write_buffer fresh_generation_def\<close>)
  ultimately show ?thesis by blast
next
  case False
  then have r: "m = ss_mgr s" "h = write_buffer (mgr_current m) f (ss_heap s)"
    using run by (auto simp: write_current_def freeze_if_pinned_def)
  have "view_reads h (fst x) = view_reads (ss_heap s) (fst x)" if x: "x \<in> set (ss_views s)" for x
  proof (rule view_reads_cong)
    show "view_ok (ss_mgr s) (ss_heap s) (fst x)" using ok x by (simp add: sessions_ok_def)
  next
    fix a
    assume "a < length (buffers (ss_heap s))" "a = sv_main (fst x) \<or> a \<noteq> mgr_current (ss_mgr s)"
    then have "a \<noteq> mgr_current m" using unpinned_unread [OF ok False x] r(1) by auto
    then show "rows (read_buffer a h) = rows (read_buffer a (ss_heap s))" by (simp add: r(2) read_write_buffer)
  qed
  then show ?thesis using sessions_write_ok [OF ok refl, of f] by (simp add: r)
qed

lemma begin_flush_ok:
  assumes ok: "sessions_ok s" and run: "begin_flush n w (ss_mgr s) (ss_heap s) = (old, m, h)"
  shows "sessions_ok (s\<lparr>ss_mgr := m, ss_heap := h\<rparr>) \<and> (\<forall>x\<in>set (ss_views s). view_reads h (fst x) = view_reads (ss_heap s) (fst x))"
proof -
  obtain m1 where ro: "rotate n w (ss_mgr s) (ss_heap s) = (old, m1, h)" and m: "m = m1\<lparr>mgr_pending := mgr_pending m1 @ [old]\<rparr>"
    using run by (auto simp: begin_flush_def Let_def split: prod.splits)
  have mgr: "mgr_ok (ss_mgr s) (ss_heap s)" and views: "\<forall>x\<in>set (ss_views s). view_ok (ss_mgr s) (ss_heap s) (fst x)"
    using ok by (simp_all add: sessions_ok_def)
  have new: "fresh_generation (ss_mgr s) (ss_heap s) m h" "old = mgr_current (ss_mgr s)" "mgr_pending m1 = mgr_pending (ss_mgr s)"
    "\<And>b. b < length (buffers (ss_heap s)) \<Longrightarrow> read_buffer b h = read_buffer b (ss_heap s)"
    using rotate_fresh [OF ro] mgr by (auto simp: mgr_ok_def m fresh_generation_def)
  have "sessions_ok (s\<lparr>ss_mgr := m, ss_heap := h\<rparr>)"
    by (rule fresh_generation_ok [OF ok new(1)]) (auto simp: m new(2,3))
  moreover have "view_reads h (fst x) = view_reads (ss_heap s) (fst x)" if "x \<in> set (ss_views s)" for x
    by (rule view_reads_cong [OF bspec [OF views that]]) (simp add: new(4))
  ultimately show ?thesis by blast
qed

lemma pins_of_append [simp]: "pins_of t (vs @ ws) = pins_of t vs + pins_of t ws" "pins_of t [x] = (if sv_pin (fst x) = t then 1 else 0)"
  by (simp_all add: pins_of_def)

lemma pins_of_drop:
  "k < length vs \<Longrightarrow> pins_of t vs = pins_of t (take k vs @ drop (Suc k) vs) + (if sv_pin (fst (vs ! k)) = t then 1 else 0)"
  by (subst id_take_nth_drop, assumption) (simp add: pins_of_def)

lemma set_take_drop: "set (take k vs @ drop (Suc k) vs) \<subseteq> set vs"
  by (auto dest: in_set_takeD in_set_dropD)

definition stays :: "'p sessions \<Rightarrow> 'p sessions \<Rightarrow> bool" where
  "stays s s' \<longleftrightarrow> sessions_ok s' \<and> (\<forall>x\<in>set (ss_views s). view_reads (ss_heap s') (fst x) = view_reads (ss_heap s) (fst x)) \<and>
     (\<forall>x\<in>set (ss_views s'). x \<in> set (ss_views s) \<or> snd x = view_reads (ss_heap s') (fst x))"

lemma pin_stays:
  assumes ok: "sessions_ok s"
  shows "stays s (mgr_step PinView s)"
proof -
  obtain sv h where p: "pin_snapshot (ss_mgr s) (ss_heap s) = (sv, h)" by (cases "pin_snapshot (ss_mgr s) (ss_heap s)")
  have h: "h = clone_pin (mgr_pin (ss_mgr s)) (ss_heap s)" and sv: "sv_main sv = mgr_current (ss_mgr s)" "sv_extra sv = mgr_pending (ss_mgr s)"
    "sv_pin sv = mgr_pin (ss_mgr s)" "sv_transaction sv = mgr_transaction (ss_mgr s)"
    using p by (auto simp: pin_snapshot_def Let_def)
  have sizes: "length (buffers h) = length (buffers (ss_heap s))" "length (pin_counts h) = length (pin_counts (ss_heap s))" by (simp_all add: h)
  have "view_ok (ss_mgr s) (ss_heap s) sv" using ok by (auto simp: sessions_ok_def mgr_ok_def view_ok_def sv)
  then have "sessions_ok (s\<lparr>ss_heap := h, ss_views := ss_views s @ [(sv, c)]\<rparr>)" for c
    using ok view_ok_pins [OF sizes] by (auto simp: sessions_ok_def sv h clone_pin_count mgr_ok_def)
  then show ?thesis by (auto simp: stays_def p view_reads_def h)
qed

lemma clone_stays:
  assumes ok: "sessions_ok s"
  shows "stays s (mgr_step (CloneView k) s)"
proof (cases "k < length (ss_views s)")
  case True
  let ?x = "ss_views s ! k"
  define h where "h = clone_pin (sv_pin (fst ?x)) (ss_heap s)"
  have sizes: "length (buffers h) = length (buffers (ss_heap s))" "length (pin_counts h) = length (pin_counts (ss_heap s))" by (simp_all add: h_def)
  have x: "view_ok (ss_mgr s) (ss_heap s) (fst ?x)" "?x \<in> set (ss_views s)" using ok True by (simp_all add: sessions_ok_def)
  have "sv_pin (fst ?x) < length (pin_counts (ss_heap s))" using x(1) by (simp add: view_ok_def)
  then have "pin_counts h ! mgr_pin (ss_mgr s) = 1 + pins_of (mgr_pin (ss_mgr s)) (ss_views s @ [?x])"
    using ok by (auto simp: sessions_ok_def h_def clone_pin_count)
  moreover have "\<forall>x\<in>set (ss_views s @ [?x]). view_ok (ss_mgr s) h (fst x)"
    using ok x view_ok_pins(1) [OF sizes] by (auto simp: sessions_ok_def)
  moreover have "mgr_ok (ss_mgr s) h" using ok view_ok_pins(2) [OF sizes] by (simp add: sessions_ok_def)
  ultimately have "sessions_ok (s\<lparr>ss_heap := h, ss_views := ss_views s @ [?x]\<rparr>)" by (simp add: sessions_ok_def)
  then show ?thesis using True x(2) by (auto simp: stays_def view_reads_def h_def)
qed (simp add: stays_def ok)

lemma drop_stays:
  assumes ok: "sessions_ok s"
  shows "stays s (mgr_step (DropView k) s)"
proof (cases "k < length (ss_views s)")
  case True
  let ?x = "ss_views s ! k" and ?vs = "take k (ss_views s) @ drop (Suc k) (ss_views s)"
  define h where "h = drop_pin (sv_pin (fst ?x)) (ss_heap s)"
  have sizes: "length (buffers h) = length (buffers (ss_heap s))" "length (pin_counts h) = length (pin_counts (ss_heap s))" by (simp_all add: h_def)
  have x: "sv_pin (fst ?x) < length (pin_counts (ss_heap s))" using ok True by (simp add: sessions_ok_def view_ok_def)
  have sub: "set ?vs \<subseteq> set (ss_views s)" by (rule set_take_drop)
  have "pin_counts h ! mgr_pin (ss_mgr s) = 1 + pins_of (mgr_pin (ss_mgr s)) ?vs"
    using ok x pins_of_drop [OF True, of "mgr_pin (ss_mgr s)"] by (auto simp: sessions_ok_def h_def drop_pin_count)
  moreover have "\<forall>x\<in>set ?vs. view_ok (ss_mgr s) h (fst x)" using ok sub view_ok_pins(1) [OF sizes] by (auto simp: sessions_ok_def)
  moreover have "mgr_ok (ss_mgr s) h" using ok view_ok_pins(2) [OF sizes] by (simp add: sessions_ok_def)
  ultimately have "sessions_ok (s\<lparr>ss_heap := h, ss_views := ?vs\<rparr>)" by (simp add: sessions_ok_def)
  then show ?thesis using True sub by (auto simp: stays_def view_reads_def h_def)
qed (simp add: stays_def ok)

lemma reserve_stays:
  assumes ok: "sessions_ok s"
  shows "stays s (mgr_step ReserveBulk s)"
proof -
  let ?a = "mgr_current (ss_mgr s)"
  define h where "h = write_buffer ?a (\<lambda>b. b\<lparr>current_version := current_version b + 1\<rparr>) (ss_heap s)"
  obtain v m where r: "reserve_bulk_version (ss_mgr s) (ss_heap s) = (v, m, h)" and
    m: "mgr_current m = ?a" "mgr_pending m = mgr_pending (ss_mgr s)" "mgr_pin m = mgr_pin (ss_mgr s)" "mgr_transaction m = mgr_transaction (ss_mgr s)"
    by (simp add: reserve_bulk_version_def Let_def h_def)
  have "rows (read_buffer a h) = rows (read_buffer a (ss_heap s))" for a by (simp add: h_def read_write_buffer)
  then have "view_reads h sv = view_reads (ss_heap s) sv" for sv by (simp add: view_reads_def)
  moreover have "sessions_ok (s\<lparr>ss_mgr := m, ss_heap := h\<rparr>)"
    using sessions_write_ok [OF ok refl, of "\<lambda>b. b\<lparr>current_version := current_version b + 1\<rparr>"] m
    by (simp add: sessions_ok_def h_def mgr_ok_def view_ok_def)
  ultimately show ?thesis by (simp add: stays_def r)
qed

lemma mgr_step_stays:
  assumes ok: "sessions_ok s"
  shows "stays s (mgr_step e s)"
proof (cases e)
  case PinView
  then show ?thesis using pin_stays [OF ok] by simp
next
  case (CloneView k)
  then show ?thesis using clone_stays [OF ok, of k] by simp
next
  case (DropView k)
  then show ?thesis using drop_stays [OF ok, of k] by simp
next
  case (WriteCurrent f)
  obtain m h where "write_current f (ss_mgr s) (ss_heap s) = (m, h)" by (cases "write_current f (ss_mgr s) (ss_heap s)")
  then show ?thesis using write_current_ok [OF ok] WriteCurrent by (simp add: stays_def)
next
  case (BeginFlush n w)
  obtain old m h where "begin_flush n w (ss_mgr s) (ss_heap s) = (old, m, h)" by (cases "begin_flush n w (ss_mgr s) (ss_heap s)")
  then show ?thesis using begin_flush_ok [OF ok] BeginFlush by (simp add: stays_def)
next
  case ReserveBulk
  then show ?thesis using reserve_stays [OF ok] by simp
qed (use ok in \<open>auto simp: stays_def sessions_ok_def mgr_ok_def view_ok_def complete_flush_def release_bulk_version_def\<close>)

interpretation snap: snapshot_source sessions_ok ss_views "\<lambda>s. view_reads (ss_heap s)" mgr_step
proof
  fix s :: "'p sessions" and e
  assume ok: "sessions_ok s"
  show "sessions_ok (mgr_step e s)" using mgr_step_stays [OF ok, of e] by (simp add: stays_def)
  fix x
  show "x \<in> set (ss_views (mgr_step e s)) \<Longrightarrow> x \<in> set (ss_views s) \<or> snd x = view_reads (ss_heap (mgr_step e s)) (fst x)"
    using mgr_step_stays [OF ok, of e] by (simp add: stays_def)
  show "x \<in> set (ss_views s) \<Longrightarrow> x \<in> set (ss_views (mgr_step e s)) \<Longrightarrow>
      view_reads (ss_heap (mgr_step e s)) (fst x) = view_reads (ss_heap s) (fst x)"
    using mgr_step_stays [OF ok, of e] by (simp add: stays_def)
qed



text \<open>
  C24 (\<open>pin_race\<close>). Snapshots are pinned without the flush lock. One that is pinned after a commit has found
  the generation unpinned and before it writes is not isolated: what it reads changes under it to
  what the commit writes, whatever that is.
\<close>

theorem pin_race:
  assumes "mgr_ok m h" "\<not> is_current_pinned m h"
    and check: "freeze_if_pinned m h = (m1, h1)" and pin: "pin_snapshot m1 h1 = (sv, h2)"
  shows "view_reads h2 sv = rows (read_buffer (mgr_current m) h) # map (\<lambda>a. rows (read_buffer a h)) (mgr_pending m) \<and>
    view_reads (write_buffer (mgr_current m1) f h2) sv =
      rows (f (read_buffer (mgr_current m) h)) # map (\<lambda>a. rows (read_buffer a h)) (mgr_pending m)"
proof -
  have r: "m1 = m" "h1 = h" using assms(2) check by (simp_all add: freeze_if_pinned_def)
  have sv: "sv_main sv = mgr_current m" "sv_extra sv = mgr_pending m" "sv_transaction sv = None" "h2 = clone_pin (mgr_pin m) h"
    using pin assms(1) by (auto simp: pin_snapshot_def Let_def r mgr_ok_def)
  then show ?thesis using assms(1) by (auto simp: view_reads_def query_layers_def r read_write_buffer mgr_ok_def)
qed

theorem pin_race_witness:
  "\<exists>m h m1 h1 sv h2. l0_manager_new 0 None \<lparr>buffers = [], pin_counts = []\<rparr> = (m, h :: unit l0_heap) \<and>
     freeze_if_pinned m h = (m1, h1) \<and> pin_snapshot m1 h1 = (sv, h2) \<and> map mutation_count (view_reads h2 sv) = [0] \<and>
     map mutation_count (view_reads (write_buffer (mgr_current m1) (\<lambda>b. b\<lparr>mutation_count := 7\<rparr>) h2) sv) = [7]"
proof -
  obtain m h where new: "l0_manager_new 0 None \<lparr>buffers = [], pin_counts = []\<rparr> = (m, h :: unit l0_heap)"
    by (cases "l0_manager_new 0 None \<lparr>buffers = [], pin_counts = []\<rparr> :: unit l0_manager \<times> unit l0_heap")
  have mh: "mgr_ok m h" "\<not> is_current_pinned m h" "mgr_pending m = []" "read_buffer (mgr_current m) h = l0_new 0 None"
    using new by (auto simp: l0_manager_new_def new_buffer_def new_pin_def mgr_ok_def is_current_pinned_def read_buffer_def)
  obtain m1 h1 where c: "freeze_if_pinned m h = (m1, h1)" by (cases "freeze_if_pinned m h")
  obtain sv h2 where p: "pin_snapshot m1 h1 = (sv, h2)" by (cases "pin_snapshot m1 h1")
  show ?thesis
    using new c p pin_race [OF mh(1,2) c p, of "\<lambda>b. b\<lparr>mutation_count := 7\<rparr>"] mh(3,4) by (auto simp: rows_def l0_new_def)
qed

end
