(* ===== verification/Commit.thy ===== *)
theory Commit
  imports Occ_L0 Commit_Log Wal_Reopen L0_Snapshots
begin

text \<open>
  The commit of a transaction (\<^verbatim>\<open>crates/uni-store/src/runtime/writer.rs\<close>,
  \<open>commit_transaction_l0_sequenced\<close> and what it calls), from the conflict check to the registration of
  its write-set, over the manager of the buffers, the write-ahead log and the commit registry.

  A commit holds the flush lock throughout, so it is one step; what other threads may do meanwhile -
  pin a snapshot, append to the log while it is being written - is the subject of the theories on
  those components. The transaction's buffer is private to it and is passed and returned. The
  schema, the conversion of values to declared types and the edge type names are parameters. The
  adjacency overlay is the list of calls made to it, and the publish sequencer the list of LSNs for
  which a ticket was issued. Metrics and fail points are left out.
\<close>

subsection \<open>The writer\<close>

datatype adjacency_call =
    AddTombstone eid vid vid u32 nat
  | AdjInsertEdge vid vid eid u32 nat

record 'p writer =
  wr_mgr :: "'p l0_manager"
  wr_heap :: "'p l0_heap"
  wr_wal :: write_ahead_log
  wr_registry :: commit_registry
  wr_sequence :: nat
  wr_ssi :: bool
  wr_adjacency :: "adjacency_call list"
  wr_tickets :: "nat list"

record ('j, 'p, 'd) commit_env =
  ce_l0 :: "('j, 'p) l0_env"
  ce_clock :: "nat \<Rightarrow> int"
  ce_codec :: wal_codec
  edge_type_name_by_id :: "u32 \<Rightarrow> string option"
  schema_version :: u32
  schema_property :: "string \<Rightarrow> string \<Rightarrow> 'd option"
  accepts :: "'d \<Rightarrow> val \<Rightarrow> bool"
  coerce :: "string \<Rightarrow> 'd \<Rightarrow> val \<Rightarrow> string + val"

definition wr_current :: "'p writer \<Rightarrow> 'p l0_buffer" where
  "wr_current w = read_buffer (mgr_current (wr_mgr w)) (wr_heap w)"

definition wr_chain :: "'p writer \<Rightarrow> 'p l0_buffer list" where
  "wr_chain w = map (\<lambda>a. read_buffer a (wr_heap w)) (mgr_pending (wr_mgr w))"

definition create_transaction_l0 :: "('j, 'p, 'd) commit_env \<Rightarrow> 'p writer \<Rightarrow> 'p l0_buffer" where
  "create_transaction_l0 env w =
     (let buf = (l0_new (current_version (wr_current w)) None)\<lparr>validated_schema_version := Some (schema_version env)\<rparr>
      in if wr_ssi w
         then buf\<lparr>occ_read_seq := wr_sequence w, l0_read_set := Some \<lparr>rs_vertices = {}, rs_edges = {}\<rparr>\<rparr>
         else buf)"

subsection \<open>Conflicts\<close>

datatype commit_error =
    CommitTimeout
  | ConflictFound conflict
  | KeyTaken key_kind
  | ExtIdTaken string
  | CarveoutOverwrite vid string
  | EndpointDeleted merge_error
  | TypeRefused string
  | LogFailed flush_error
  | MergeFailed merge_error

definition key_taken :: "('b \<Rightarrow> 'k \<Rightarrow> 'o \<Rightarrow> bool) \<Rightarrow> 'b list \<Rightarrow> ('k \<times> 'o) list \<Rightarrow> bool" where
  "key_taken taken overlay index \<longleftrightarrow> list_ex (\<lambda>(key, owner). list_ex (\<lambda>b. taken b key owner) overlay) index"

definition extid_taken :: "'p l0_buffer \<Rightarrow> string \<Rightarrow> vid \<Rightarrow> bool" where
  "extid_taken b ext_id vid \<longleftrightarrow> (case hget (extid_index b) ext_id of None \<Rightarrow> False | Some owner \<Rightarrow> owner \<noteq> vid)"

fun first_carveout_overwrite ::
  "('j, 'p) l0_env \<Rightarrow> 'p l0_buffer \<Rightarrow> 'p l0_buffer list \<Rightarrow> (vid \<times> string) option" where
  "first_carveout_overwrite env tx_l0 [] = None"
| "first_carveout_overwrite env tx_l0 (buf # bufs) =
     (case crdt_carveout_overwrite env tx_l0 buf of
        Some conflict \<Rightarrow> Some conflict
      | None \<Rightarrow> first_carveout_overwrite env tx_l0 bufs)"

definition validate_overlay ::
  "('j, 'p) l0_env \<Rightarrow> 'p l0_buffer \<Rightarrow> 'p l0_buffer list \<Rightarrow> commit_error + unit" where
  "validate_overlay env tx_l0 overlay =
     (if key_taken has_constraint_key overlay (constraint_index tx_l0) then Inl (KeyTaken VertexConstraint)
      else if key_taken has_edge_constraint_key overlay (edge_constraint_index tx_l0) then Inl (KeyTaken EdgeConstraint)
      else if key_taken has_merge_guard_key overlay (merge_guard_index tx_l0) then Inl (KeyTaken MergeKey)
      else case List.find (\<lambda>(ext_id, vid). list_ex (\<lambda>b. extid_taken b ext_id vid) overlay) (extid_index tx_l0) of
             Some (ext_id, _) \<Rightarrow> Inl (ExtIdTaken ext_id)
           | None \<Rightarrow>
               (case first_carveout_overwrite env tx_l0 overlay of
                  Some (vid, property) \<Rightarrow> Inl (CarveoutOverwrite vid property)
                | None \<Rightarrow> Inr ()))"

text \<open>The read-set is consulted for writing transactions only.\<close>

definition occ_validate ::
  "('j, 'p) l0_env \<Rightarrow> 'p l0_buffer \<Rightarrow> 'p writer \<Rightarrow> commit_error + write_set option" where
  "occ_validate env tx_l0 w =
     (if \<not> wr_ssi w then Inr None
      else
        let write_set = from_l0 env tx_l0;
            conflict = (if ws_is_empty write_set then None
                        else registry_check (wr_registry w) (occ_read_seq tx_l0) write_set (l0_read_set tx_l0))
        in case conflict of
             Some c \<Rightarrow> Inl (ConflictFound c)
           | None \<Rightarrow>
               bind_sum (validate_overlay env tx_l0 (wr_current w # wr_chain w)) (\<lambda>_. Inr (Some write_set)))"

subsection \<open>Endpoints\<close>

text \<open>The first buffer, newest first, that knows the vertex decides.\<close>

fun known_deleted :: "'p l0_buffer list \<Rightarrow> vid \<Rightarrow> bool" where
  "known_deleted [] vid = False"
| "known_deleted (b # bs) vid =
     (if hget (vertex_properties b) vid \<noteq> None then False
      else if vid \<in> set (vertex_tombstones b) then True
      else known_deleted bs vid)"

fun validate_overlay_edges ::
  "'p l0_buffer list \<Rightarrow> 'p l0_buffer \<Rightarrow> (eid \<times> vid \<times> vid \<times> u32) list \<Rightarrow> merge_error + unit" where
  "validate_overlay_edges layers tx_l0 [] = Inr ()"
| "validate_overlay_edges layers tx_l0 ((eid, src, dst, etype) # edges) =
     (if hget (tombstones tx_l0) eid \<noteq> None then validate_overlay_edges layers tx_l0 edges
      else if known_deleted layers src then Inl (EdgeSourceDeleted eid src)
      else if known_deleted layers dst then Inl (EdgeDestinationDeleted eid dst)
      else validate_overlay_edges layers tx_l0 edges)"

definition validate_edge_endpoints_overlay :: "'p l0_buffer \<Rightarrow> 'p writer \<Rightarrow> merge_error + unit" where
  "validate_edge_endpoints_overlay tx_l0 w =
     validate_overlay_edges (tx_l0 # wr_current w # rev (wr_chain w)) tx_l0 (edge_endpoints tx_l0)"

subsection \<open>Declared properties\<close>

text \<open>The loops change the values in place and stop at the first that does not fit.\<close>

fun revalidate_props ::
  "('d \<Rightarrow> val \<Rightarrow> bool) \<Rightarrow> (string \<Rightarrow> 'd \<Rightarrow> val \<Rightarrow> string + val) \<Rightarrow> (string \<Rightarrow> 'd option) \<Rightarrow> (string \<times> val) list \<Rightarrow>
   (string + unit) \<times> (string \<times> val) list" where
  "revalidate_props fits conv declared [] = (Inr (), [])"
| "revalidate_props fits conv declared ((name, value) # rest) =
     (case (case declared name of
              None \<Rightarrow> Inr value
            | Some d \<Rightarrow> if fits d value then Inr value else conv name d value) of
        Inl e \<Rightarrow> (Inl e, (name, value) # rest)
      | Inr value' \<Rightarrow>
          (case revalidate_props fits conv declared rest of (r, rest') \<Rightarrow> (r, (name, value') # rest')))"

fun revalidate_entries ::
  "('d \<Rightarrow> val \<Rightarrow> bool) \<Rightarrow> (string \<Rightarrow> 'd \<Rightarrow> val \<Rightarrow> string + val) \<Rightarrow> ('k \<Rightarrow> (string \<Rightarrow> 'd option) option) \<Rightarrow> ('k \<times> properties) list \<Rightarrow>
   (string + unit) \<times> ('k \<times> properties) list" where
  "revalidate_entries fits conv declared [] = (Inr (), [])"
| "revalidate_entries fits conv declared ((k, props) # rest) =
     (case (case declared k of None \<Rightarrow> (Inr (), props) | Some ds \<Rightarrow> revalidate_props fits conv ds props) of
        (Inl e, props') \<Rightarrow> (Inl e, (k, props') # rest)
      | (Inr _, props') \<Rightarrow>
          (case revalidate_entries fits conv declared rest of (r, rest') \<Rightarrow> (r, (k, props') # rest')))"

text \<open>\<open>find_map\<close> over the labels.\<close>

fun declared_by_labels :: "(string \<Rightarrow> string \<Rightarrow> 'd option) \<Rightarrow> string list \<Rightarrow> string \<Rightarrow> 'd option" where
  "declared_by_labels schema [] name = None"
| "declared_by_labels schema (l # ls) name =
     (case schema l name of Some d \<Rightarrow> Some d | None \<Rightarrow> declared_by_labels schema ls name)"

definition revalidate_declared_properties ::
  "('j, 'p, 'd) commit_env \<Rightarrow> 'p l0_buffer \<Rightarrow> (string + unit) \<times> 'p l0_buffer" where
  "revalidate_declared_properties env tx_l0 =
     (let vertex_decl = (\<lambda>vid. if vid \<in> set (vertex_tombstones tx_l0) then None
            else map_option (declared_by_labels (schema_property env)) (hget (vertex_labels tx_l0) vid));
          edge_decl = (\<lambda>eid. if hget (tombstones tx_l0) eid \<noteq> None then None
            else
              let type_name = (case hget (edge_types tx_l0) eid of
                    Some t \<Rightarrow> Some t
                  | None \<Rightarrow> Option.bind (hget (edge_endpoints tx_l0) eid) (\<lambda>(_, _, t). edge_type_name_by_id env t))
              in map_option (schema_property env) type_name)
      in case revalidate_entries (accepts env) (coerce env) vertex_decl (vertex_properties tx_l0) of
           (Inl e, vps) \<Rightarrow> (Inl e, tx_l0\<lparr>vertex_properties := vps\<rparr>)
         | (Inr _, vps) \<Rightarrow>
             (case revalidate_entries (accepts env) (coerce env) edge_decl (edge_properties tx_l0) of
                (r, eps) \<Rightarrow> (r, tx_l0\<lparr>vertex_properties := vps, edge_properties := eps\<rparr>)))"

definition revalidate_if_stale ::
  "('j, 'p, 'd) commit_env \<Rightarrow> 'p l0_buffer \<Rightarrow> (string + unit) \<times> 'p l0_buffer" where
  "revalidate_if_stale env tx_l0 =
     (if (case validated_schema_version tx_l0 of None \<Rightarrow> False | Some v \<Rightarrow> v \<noteq> schema_version env)
      then case revalidate_declared_properties env tx_l0 of
             (Inl e, tx1) \<Rightarrow> (Inl e, tx1)
           | (Inr _, tx1) \<Rightarrow> (Inr (), tx1\<lparr>validated_schema_version := Some (schema_version env)\<rparr>)
      else (Inr (), tx_l0))"

subsection \<open>The log\<close>

text \<open>The current buffer's handle tells whether there is a log.\<close>

definition log_commit :: "('j, 'p, 'd) commit_env \<Rightarrow> 'p l0_buffer \<Rightarrow> 'p writer \<Rightarrow> 'p writer" where
  "log_commit env tx_l0 w =
     (if wal (wr_current w) = None then w
      else w\<lparr>wr_wal := (wr_wal w)\<lparr>w_state :=
             append_commit (commit_mutations (edge_type_name_by_id env) tx_l0) (w_state (wr_wal w))\<rparr>\<rparr>)"

definition flush_wal ::
  "('j, 'p, 'd) commit_env \<Rightarrow> flush_io \<Rightarrow> (wal_state \<Rightarrow> wal_state) \<Rightarrow> 'p writer \<Rightarrow> (flush_error + nat) \<times> 'p writer" where
  "flush_wal env io between w =
     (if wal (wr_current w) = None then (Inr 0, w)
      else case wal_flush (ce_codec env) io between (wr_wal w) of (r, log) \<Rightarrow> (r, w\<lparr>wr_wal := log\<rparr>))"

subsection \<open>Seeding CRDT state\<close>

text \<open>The generations newest first: the first that has the property.\<close>

fun newest_prop :: "'p l0_buffer list \<Rightarrow> vid \<Rightarrow> string \<Rightarrow> val option" where
  "newest_prop [] vid key = None"
| "newest_prop (g # gs) vid key =
     (case Option.bind (hget (vertex_properties g) vid) (\<lambda>p. hget p key) of
        Some v \<Rightarrow> Some v
      | None \<Rightarrow> newest_prop gs vid key)"

definition seed_crdt_prop ::
  "('j, 'p) l0_env \<Rightarrow> 'p l0_buffer list \<Rightarrow> vid \<Rightarrow> string \<times> val \<Rightarrow> 'p l0_buffer \<Rightarrow> 'p l0_buffer" where
  "seed_crdt_prop env chain vid kv target =
     (case kv of (key, value) \<Rightarrow>
        if try_as_crdt env value = None then target
        else if (case hget (vertex_properties target) vid of None \<Rightarrow> False | Some p \<Rightarrow> hget p key \<noteq> None) then target
        else case newest_prop (rev chain) vid key of
               None \<Rightarrow> target
             | Some v \<Rightarrow>
                 if try_as_crdt env v \<noteq> None
                 then target\<lparr>vertex_properties :=
                        hput vid (hput key v (hget_or [] (vertex_properties target) vid)) (vertex_properties target)\<rparr>
                 else target)"

definition seed_crdt_props ::
  "('j, 'p) l0_env \<Rightarrow> 'p l0_buffer list \<Rightarrow> vid \<Rightarrow> properties \<Rightarrow> 'p l0_buffer \<Rightarrow> 'p l0_buffer" where
  "seed_crdt_props env chain vid props target = fold (seed_crdt_prop env chain vid) props target"

definition seed_crdt_state_from_chain ::
  "('j, 'p) l0_env \<Rightarrow> 'p l0_buffer list \<Rightarrow> 'p l0_buffer \<Rightarrow> 'p l0_buffer \<Rightarrow> 'p l0_buffer" where
  "seed_crdt_state_from_chain env chain tx_l0 main_l0 =
     (if chain = [] then main_l0
      else fold (\<lambda>(vid, props). seed_crdt_props env chain vid props) (vertex_properties tx_l0) main_l0)"

subsection \<open>Mirroring\<close>

definition mirror_cascaded_tombstones :: "tombstone_entry list \<Rightarrow> 'p l0_buffer \<Rightarrow> adjacency_call list" where
  "mirror_cascaded_tombstones cascaded source =
     map (\<lambda>entry. AddTombstone (te_eid entry) (te_src entry) (te_dst entry) (te_type entry)
            (hget_or (current_version source) (edge_versions source) (te_eid entry))) cascaded"

definition mirror_edges_into_adjacency :: "'p l0_buffer \<Rightarrow> 'p l0_buffer \<Rightarrow> nat \<Rightarrow> adjacency_call list" where
  "mirror_edges_into_adjacency source versions fallback_version =
     map (\<lambda>(eid, src, dst, etype).
            let edge_version = hget_or fallback_version (edge_versions versions) eid
            in if hget (tombstones source) eid \<noteq> None then AddTombstone eid src dst etype edge_version
               else AdjInsertEdge src dst eid etype edge_version) (edge_endpoints source) @
     map (\<lambda>(eid, t). AddTombstone eid (te_src t) (te_dst t) (te_type t) (hget_or fallback_version (edge_versions versions) eid))
       (filter (\<lambda>(eid, _). hget (edge_endpoints source) eid = None) (tombstones source))"

subsection \<open>The commit\<close>

record committed_tx =
  ct_wal_lsn :: nat
  ct_version :: nat

type_synonym 'p commit_result = "((commit_error + committed_tx) \<times> 'p l0_buffer \<times> 'p writer) option"

text \<open>From the durable log on: freeze, seed, merge, mirror, ticket, registration.\<close>

definition apply_commit ::
  "('j, 'p, 'd) commit_env \<Rightarrow> write_set option \<Rightarrow> nat \<Rightarrow> 'p l0_buffer \<Rightarrow> 'p writer \<Rightarrow> 'p commit_result" where
  "apply_commit env occ_write_set wal_lsn tx_l0 w =
     (case freeze_if_pinned (wr_mgr w) (wr_heap w) of (m, h) \<Rightarrow>
        let w1 = w\<lparr>wr_mgr := m, wr_heap := h\<rparr>;
            seeded = seed_crdt_state_from_chain (ce_l0 env) (wr_chain w1) tx_l0 (wr_current w1);
            put_main = (\<lambda>main. w1\<lparr>wr_heap := write_buffer (mgr_current m) (\<lambda>_. main) h\<rparr>)
        in case merge_take (ce_l0 env) (ce_clock env) tx_l0 seeded of
             None \<Rightarrow> None
           | Some (Inl e, tx2, main) \<Rightarrow> Some (Inl (MergeFailed e), tx2, put_main main)
           | Some (Inr cascaded, tx2, main) \<Rightarrow>
               let w2 = (put_main main)\<lparr>
                     wr_adjacency := wr_adjacency w1 @ mirror_cascaded_tombstones cascaded main @
                       mirror_edges_into_adjacency tx2 main (current_version main),
                     wr_tickets := wr_tickets w1 @ [wal_lsn]\<rparr>;
                   w3 = (case occ_write_set of
                       None \<Rightarrow> w2
                     | Some ws \<Rightarrow>
                         if ws_is_empty ws then w2
                         else case registry_commit (wr_registry w2) (wr_sequence w2) ws of
                                (seq, reg) \<Rightarrow> w2\<lparr>wr_sequence := seq, wr_registry := reg\<rparr>)
               in Some (Inr \<lparr>ct_wal_lsn = wal_lsn, ct_version = current_version main\<rparr>, tx2, w3))"

definition commit_transaction_l0_sequenced ::
  "('j, 'p, 'd) commit_env \<Rightarrow> bool \<Rightarrow> flush_io \<Rightarrow> (wal_state \<Rightarrow> wal_state) \<Rightarrow> 'p l0_buffer \<Rightarrow> 'p writer \<Rightarrow> 'p commit_result" where
  "commit_transaction_l0_sequenced env lock_acquired io between tx_l0 w =
     (if \<not> lock_acquired then Some (Inl CommitTimeout, tx_l0, w)
      else case occ_validate (ce_l0 env) tx_l0 w of
             Inl e \<Rightarrow> Some (Inl e, tx_l0, w)
           | Inr occ_write_set \<Rightarrow>
               (case validate_edge_endpoints_overlay tx_l0 w of
                  Inl e \<Rightarrow> Some (Inl (EndpointDeleted e), tx_l0, w)
                | Inr _ \<Rightarrow>
                    (case revalidate_if_stale env tx_l0 of
                       (Inl e, tx1) \<Rightarrow> Some (Inl (TypeRefused e), tx1, w)
                     | (Inr _, tx1) \<Rightarrow>
                         (case flush_wal env io between (log_commit env tx1 w) of
                            (Inl e, w1) \<Rightarrow> Some (Inl (LogFailed e), tx1, w1)
                          | (Inr wal_lsn, w1) \<Rightarrow> apply_commit env occ_write_set wal_lsn tx1 w1))))"

end
