(* ===== verification/Commit_Safety.thy ===== *)
theory Commit_Safety
  imports Commit
begin

text \<open>
  What a commit guarantees: whatever makes it fail before its log record is durable leaves the
  writer as it was, and once the record is durable the commit cannot fail any more. The check of
  the edge endpoints against all unflushed buffers makes the merge's own check succeed.
\<close>

subsection \<open>The merge that takes\<close>

lemma merge_drained_phases:
  fixes other :: "'p l0_buffer"
  defines "o' \<equiv> other\<lparr>vertex_properties := [], edge_properties := []\<rparr>"
  shows "merge_vertices env clock o' ps l = merge_vertices env clock other ps l"
    "merge_overwrites o' vs l = merge_overwrites other vs l"
    "merge_edges env clock o' es ep l = merge_edges env clock other es ep l"
    "merge_tombstones clock o' ts l = merge_tombstones clock other ts l" "merge_rest o' l = merge_rest other l"
proof -
  show "merge_vertices env clock o' ps l = merge_vertices env clock other ps l"
    by (induction ps arbitrary: l) (auto simp: o'_def)
  show "merge_overwrites o' vs l = merge_overwrites other vs l" by (induction vs arbitrary: l) (simp_all add: o'_def)
  show "merge_edges env clock o' es ep l = merge_edges env clock other es ep l"
  proof (induction es arbitrary: ep l)
    case (Cons e es)
    then show ?case by (cases e) (simp add: o'_def split: option.split sum.split)
  qed simp
  show "merge_tombstones clock o' ts l = merge_tombstones clock other ts l"
  proof (induction ts arbitrary: l)
    case (Cons t ts)
    then have "merge_tombstones clock o' ts = merge_tombstones clock other ts" by blast
    then show ?case by (cases t) (simp add: o'_def)
  qed simp
  show "merge_rest o' l = merge_rest other l" by (simp add: merge_rest_def o'_def)
qed

lemma merge_validated_drained:
  "merge_validated env clock (other\<lparr>vertex_properties := [], edge_properties := []\<rparr>) vp ep l = merge_validated env clock other vp ep l"
proof -
  let ?o = "other\<lparr>vertex_properties := [], edge_properties := []\<rparr>"
  have "vertex_tombstones ?o = vertex_tombstones other" "vertex_labels ?o = vertex_labels other" "tombstones ?o = tombstones other"
    "vertex_label_overwrites ?o = vertex_label_overwrites other" "edge_endpoints ?o = edge_endpoints other" by simp_all
  then show ?thesis unfolding merge_validated_def merge_drained_phases by presburger
qed

lemma merge_take_eq:
  assumes "merge env clock other l = Some (Inr cascaded, l')"
  shows "merge_take env clock other l = Some (Inr cascaded, other\<lparr>vertex_properties := [], edge_properties := []\<rparr>, l')"
  using assms by (auto simp: merge_def merge_take_def merge_validated_drained Let_def split: sum.splits)

subsection \<open>Revalidation keeps the keys\<close>

definition same_keys :: "('k \<times> properties) list \<Rightarrow> ('k \<times> properties) list \<Rightarrow> bool" where
  "same_keys xs ys \<longleftrightarrow> list_all2 (\<lambda>x y. fst x = fst y \<and> map fst (snd x) = map fst (snd y)) xs ys"

lemma same_keys_refl [simp]: "same_keys xs xs"
  by (simp add: same_keys_def list_all2_refl)

lemma same_keys_fst: "same_keys xs ys \<Longrightarrow> map fst ys = map fst xs"
  unfolding same_keys_def by (induction xs ys rule: list_all2_induct) simp_all

lemma same_keys_none: "same_keys xs ys \<Longrightarrow> hget ys k = None \<longleftrightarrow> hget xs k = None"
  using same_keys_fst [of xs ys] by (metis list.set_map map_of_eq_None_iff)

lemma same_keys_inner:
  assumes "same_keys xs ys" "hmap_ok xs" "\<forall>k p. hget xs k = Some p \<longrightarrow> hmap_ok p"
  shows "hmap_ok ys \<and> (\<forall>k p. hget ys k = Some p \<longrightarrow> hmap_ok p)"
proof -
  have ys: "hmap_ok ys" using assms(1,2) same_keys_fst [of xs ys] by (simp add: hmap_ok_def)
  moreover have "hmap_ok p" if k: "hget ys k = Some p" for k p
  proof -
    obtain x where x: "x \<in> set xs" "fst x = k" "map fst (snd x) = map fst p"
      using list_all2_mem [OF assms(1) [unfolded same_keys_def] map_of_SomeD [OF k]] by auto
    then have "hget xs k = Some (snd x)" using assms(2) by (metis hmap_ok_def map_of_is_SomeI prod.collapse)
    then have "hmap_ok (snd x)" using assms(3) by blast
    then show ?thesis using x(3) by (simp add: hmap_ok_def)
  qed
  ultimately show ?thesis by blast
qed

lemma revalidate_props_keys: "map fst (snd (revalidate_props fits conv declared ps)) = map fst ps"
  by (induction ps) (auto split: sum.split prod.split option.split simp: prod_eq_iff)

lemma revalidate_entries_keys: "same_keys es (snd (revalidate_entries fits conv declared es))"
proof (induction es)
  case (Cons e es)
  obtain k ps where e: "e = (k, ps)" by (cases e)
  obtain r ps' where q: "(case declared k of None \<Rightarrow> (Inr (), ps) | Some ds \<Rightarrow> revalidate_props fits conv ds ps) = (r, ps')"
    by (cases "case declared k of None \<Rightarrow> (Inr (), ps) | Some ds \<Rightarrow> revalidate_props fits conv ds ps")
  have "map fst (snd (r, ps')) = map fst ps" unfolding q [symmetric] by (simp add: revalidate_props_keys split: option.split)
  moreover have "snd (revalidate_entries fits conv declared (e # es)) =
      (k, ps') # (case r of Inl _ \<Rightarrow> es | Inr _ \<Rightarrow> snd (revalidate_entries fits conv declared es))"
    unfolding e revalidate_entries.simps q by (cases r) (simp_all add: split_beta)
  ultimately show ?case using Cons.IH by (cases r) (simp_all add: e same_keys_def list_all2_refl)
qed (simp add: same_keys_def)

lemma revalidate_keeps:
  assumes "revalidate_if_stale env tx = (r, tx1)"
  shows "\<exists>vps eps v. tx1 = tx\<lparr>vertex_properties := vps, edge_properties := eps, validated_schema_version := v\<rparr> \<and>
    same_keys (vertex_properties tx) vps \<and> same_keys (edge_properties tx) eps"
proof -
  have self: "tx = tx\<lparr>vertex_properties := vertex_properties tx, edge_properties := edge_properties tx,
    validated_schema_version := validated_schema_version tx\<rparr>" by simp
  have inner: "\<exists>vps eps. snd (revalidate_declared_properties env tx) = tx\<lparr>vertex_properties := vps, edge_properties := eps\<rparr> \<and>
      same_keys (vertex_properties tx) vps \<and> same_keys (edge_properties tx) eps"
  proof -
    define vr where "vr = revalidate_entries (accepts env) (coerce env) (\<lambda>vid. if vid \<in> set (vertex_tombstones tx) then None
      else map_option (declared_by_labels (schema_property env)) (hget (vertex_labels tx) vid)) (vertex_properties tx)"
    have v: "same_keys (vertex_properties tx) (snd vr)" unfolding vr_def by (rule revalidate_entries_keys)
    show ?thesis
    proof (cases "fst vr")
      case (Inl e)
      then obtain vps where vps: "vr = (Inl e, vps)" by (cases vr) auto
      have "snd (revalidate_declared_properties env tx) = tx\<lparr>vertex_properties := vps, edge_properties := edge_properties tx\<rparr>"
        unfolding revalidate_declared_properties_def Let_def vr_def [symmetric] vps by simp
      then show ?thesis using v same_keys_refl unfolding vps snd_conv by blast
    next
      case (Inr u)
      then obtain vps where vps: "vr = (Inr u, vps)" by (cases vr) auto
      show ?thesis
        using v unfolding revalidate_declared_properties_def Let_def vr_def [symmetric] vps
        by (auto simp: split_beta intro!: exI [of _ vps] revalidate_entries_keys)
    qed
  qed
  show ?thesis
  proof (cases "case validated_schema_version tx of None \<Rightarrow> False | Some v \<Rightarrow> v \<noteq> schema_version env")
    case True
    obtain q tx2 where q: "revalidate_declared_properties env tx = (q, tx2)" by (cases "revalidate_declared_properties env tx")
    obtain vps eps where tx2: "tx2 = tx\<lparr>vertex_properties := vps, edge_properties := eps\<rparr>"
      "same_keys (vertex_properties tx) vps" "same_keys (edge_properties tx) eps" using inner q by auto
    have "tx1 = tx2 \<or> tx1 = tx2\<lparr>validated_schema_version := Some (schema_version env)\<rparr>"
      using assms True q by (auto simp: revalidate_if_stale_def split: sum.splits)
    then have "tx1 = tx\<lparr>vertex_properties := vps, edge_properties := eps, validated_schema_version := validated_schema_version tx1\<rparr>"
      by (auto simp: tx2(1))
    then show ?thesis using tx2(2,3) by blast
  next
    case False
    then have "tx1 = tx" using assms by (simp add: revalidate_if_stale_def)
    then show ?thesis using self same_keys_refl by metis
  qed
qed

lemma tx_ok_revalidated:
  assumes "tx_ok tx" "revalidate_if_stale env tx = (r, tx1)"
  shows "tx_ok tx1 \<and> (labels_covered tx \<longrightarrow> labels_covered tx1) \<and> merge_writes tx1 = merge_writes tx \<and>
    validate_merge_edge_endpoints l tx1 = validate_merge_edge_endpoints l tx"
proof -
  obtain vps eps v where tx1: "tx1 = tx\<lparr>vertex_properties := vps, edge_properties := eps, validated_schema_version := v\<rparr>"
    and k: "same_keys (vertex_properties tx) vps" "same_keys (edge_properties tx) eps" using revalidate_keeps [OF assms(2)] by blast
  have m: "maps_ok tx" using assms(1) by (simp add: tx_ok_def)
  have "maps_ok tx1"
    using m same_keys_inner [OF k(1)] same_keys_inner [OF k(2)] by (auto simp: maps_ok_def tx1)
  moreover have "set (map fst vps) = set (map fst (vertex_properties tx))" using same_keys_fst [OF k(1)] by simp
  ultimately have "tx_ok tx1" using assms(1) by (auto simp: tx_ok_def tx1)
  moreover have "labels_covered tx \<longrightarrow> labels_covered tx1" using same_keys_none [OF k(1)] by (auto simp: labels_covered_def tx1)
  moreover have "length vps = length (vertex_properties tx)" using same_keys_fst [OF k(1)] by (metis length_map)
  moreover have "validate_edges l tx1 es = validate_edges l tx es" for es
  proof (induction es)
    case (Cons e es)
    have "effectively_deleted l tx1 v = effectively_deleted l tx v" for v
      using same_keys_none [OF k(1), of v] by (simp add: effectively_deleted_def tx1)
    then show ?case using Cons.IH by (cases e) (simp add: tx1)
  qed simp
  ultimately show ?thesis by (simp add: merge_writes_def tx1 validate_merge_edge_endpoints_def)
qed

subsection \<open>Endpoints\<close>

text \<open>
  A buffer's properties belong to live vertices, so a vertex the merge would find deleted is one the
  layers know as deleted.
\<close>

definition buf_ok :: "'p l0_buffer \<Rightarrow> bool" where
  "buf_ok b \<longleftrightarrow> l0_ok b \<and> props_placed b"

lemma overlay_endpoints:
  assumes "buf_ok cur" "validate_overlay_edges (tx # cur # rest) tx es = Inr ()"
  shows "validate_edges cur tx es = Inr ()"
  using assms(2)
proof (induction es)
  case (Cons e es)
  have "known_deleted (tx # cur # rest) v" if "effectively_deleted cur tx v" for v
    using that props_not_deleted [of cur v] assms(1) by (auto simp: effectively_deleted_def buf_ok_def)
  then show ?case using Cons by (cases e) (auto simp del: known_deleted.simps split: if_splits)
qed simp

subsection \<open>Seeding\<close>

definition prop_at :: "'p l0_buffer \<Rightarrow> vid \<Rightarrow> string \<Rightarrow> val option" where
  "prop_at l v k = Option.bind (hget (vertex_properties l) v) (\<lambda>p. hget p k)"

definition crdt_only :: "('j, 'p) l0_env \<Rightarrow> val option \<Rightarrow> val option" where
  "crdt_only env x = (if Option.bind x (try_as_crdt env) = None then None else x)"

text \<open>Seeding changes property maps only, keeps the invariant, and adds entries of \<open>vs\<close> only.\<close>

definition seeded_within :: "vid set \<Rightarrow> 'p l0_buffer \<Rightarrow> 'p l0_buffer \<Rightarrow> bool" where
  "seeded_within vs l l' \<longleftrightarrow> l' = l\<lparr>vertex_properties := vertex_properties l'\<rparr> \<and> (l0_ok l \<longrightarrow> l0_ok l') \<and>
     fst ` set (vertex_properties l') \<subseteq> fst ` set (vertex_properties l) \<union> vs"

lemma seeded_within_refl [simp]: "seeded_within vs l l"
  by (simp add: seeded_within_def)

lemma seeded_within_trans:
  assumes "seeded_within vs l l1" "seeded_within vs l1 l2"
  shows "seeded_within vs l l2"
proof -
  note a = assms(1) [unfolded seeded_within_def] and b = assms(2) [unfolded seeded_within_def]
  have "l1\<lparr>vertex_properties := y\<rparr> = l\<lparr>vertex_properties := y\<rparr>" for y by (subst conjunct1 [OF a]) simp
  then have "l2 = l\<lparr>vertex_properties := vertex_properties l2\<rparr>" by (rule trans [OF conjunct1 [OF b]])
  then show ?thesis using conjunct2 [OF a] conjunct2 [OF b] unfolding seeded_within_def by blast
qed

lemma seeded_within_mono: "seeded_within vs l l' \<Longrightarrow> vs \<subseteq> vs' \<Longrightarrow> seeded_within vs' l l'"
  unfolding seeded_within_def by (elim conjE, intro conjI) blast+

lemma put_prop_ok:
  assumes "l0_ok l" "prop_at l v k = None"
  shows "l0_ok (l\<lparr>vertex_properties := hput v (hput k x (hget_or [] (vertex_properties l) v)) (vertex_properties l)\<rparr>)"
proof -
  let ?p = "hget_or [] (vertex_properties l) v"
  let ?l = "l\<lparr>vertex_properties := hput v (hput k x ?p) (vertex_properties l)\<rparr>"
  note parts = l0_okD [OF assms(1)]
  have "hmap_ok ?p" using parts(2) by (auto simp: maps_ok_def hget_or_def split: option.split)
  then have "maps_ok ?l" using parts(2) by (auto simp: maps_ok_def)
  moreover have "extid_sound ?l"
    unfolding extid_sound_def
  proof (intro allI impI)
    fix y u
    assume "hget (extid_index ?l) y = Some u"
    then have "Option.bind (hget (vertex_properties l) u) extid_of = Some y" using parts(3) by (simp add: extid_sound_def)
    then obtain p where p: "hget (vertex_properties l) u = Some p" "extid_of p = Some y" by (cases "hget (vertex_properties l) u") auto
    have "u = v \<Longrightarrow> k \<noteq> ''ext_id''" using p assms(2) by (auto simp: prop_at_def extid_of_def)
    then show "Option.bind (hget (vertex_properties ?l) u) extid_of = Some y" using p by (auto simp: hget_or_def extid_of_def)
  qed
  moreover have "topo_ok ?l" by (rule iffD1 [OF topo_ok_cong parts(1)]) simp_all
  ultimately show ?thesis using parts(4,5) by (simp add: l0_ok_def keys_ok_def labels_sound_def vids_for_label_def)
qed

lemma seed_prop_effect:
  "seeded_within {v} l (seed_crdt_prop env chain v (k, x) l) \<and>
   prop_at (seed_crdt_prop env chain v (k, x) l) v' k' =
     (if v' = v \<and> k' = k \<and> prop_at l v k = None \<and> try_as_crdt env x \<noteq> None then crdt_only env (newest_prop (rev chain) v k)
      else prop_at l v' k')"
proof (cases "try_as_crdt env x = None \<or> prop_at l v k \<noteq> None \<or> crdt_only env (newest_prop (rev chain) v k) = None")
  case True
  then have "seed_crdt_prop env chain v (k, x) l = l"
    by (auto simp: seed_crdt_prop_def prop_at_def crdt_only_def split: option.splits if_splits)
  then show ?thesis using True by auto
next
  case False
  then obtain y where y: "newest_prop (rev chain) v k = Some y" "try_as_crdt env y \<noteq> None"
    by (auto simp: crdt_only_def split: if_splits)
  let ?l = "l\<lparr>vertex_properties := hput v (hput k y (hget_or [] (vertex_properties l) v)) (vertex_properties l)\<rparr>"
  have eq: "seed_crdt_prop env chain v (k, x) l = ?l"
    using False y by (auto simp: seed_crdt_prop_def prop_at_def split: option.split)
  have "fst ` set (hput v q m) \<subseteq> fst ` set m \<union> {v}" for q and m :: "(vid, properties) hmap"
    by (simp add: dom_map_of_conv_image_fst [symmetric])
  then have "seeded_within {v} l ?l" using put_prop_ok [of l v k y] False by (auto simp: seeded_within_def)
  moreover have "prop_at ?l v' k' = (if v' = v \<and> k' = k then Some y else prop_at l v' k')"
    by (auto simp: prop_at_def hget_or_def split: option.split)
  ultimately show ?thesis using False y by (auto simp: eq crdt_only_def)
qed

lemma seed_props_effect:
  "seeded_within {v} l (seed_crdt_props env chain v ps l) \<and>
   prop_at (seed_crdt_props env chain v ps l) v' k' =
     (if v' = v \<and> prop_at l v' k' = None \<and> (\<exists>x. (k', x) \<in> set ps \<and> try_as_crdt env x \<noteq> None)
      then crdt_only env (newest_prop (rev chain) v' k') else prop_at l v' k')"
  unfolding seed_crdt_props_def
proof (induction ps arbitrary: l)
  case (Cons kx ps)
  obtain k x where kx: "kx = (k, x)" by (cases kx)
  let ?l = "seed_crdt_prop env chain v (k, x) l"
  have "seeded_within {v} l (fold (seed_crdt_prop env chain v) ps ?l)"
    using seeded_within_trans Cons.IH [of ?l] seed_prop_effect by blast
  moreover note one = conjunct2 [OF seed_prop_effect [of v l env chain k x v' k']]
  ultimately show ?case using Cons.IH [of ?l] unfolding kx fold_simps one by auto
qed simp

definition writes_crdt :: "('j, 'p) l0_env \<Rightarrow> (vid \<times> properties) list \<Rightarrow> vid \<Rightarrow> string \<Rightarrow> bool" where
  "writes_crdt env es v k \<longleftrightarrow> list_ex (\<lambda>(u, ps). u = v \<and> list_ex (\<lambda>(key, x). key = k \<and> try_as_crdt env x \<noteq> None) ps) es"

lemma seed_all_effect:
  "seeded_within (fst ` set es) l (fold (\<lambda>(v, ps). seed_crdt_props env chain v ps) es l) \<and>
   prop_at (fold (\<lambda>(v, ps). seed_crdt_props env chain v ps) es l) v k =
     (if prop_at l v k = None \<and> writes_crdt env es v k then crdt_only env (newest_prop (rev chain) v k) else prop_at l v k)"
proof (induction es arbitrary: l)
  case Nil
  then show ?case by (simp add: writes_crdt_def)
next
  case (Cons e es)
  obtain u ps where e: "e = (u, ps)" by (cases e)
  let ?l = "seed_crdt_props env chain u ps l" and ?f = "\<lambda>(v, ps). seed_crdt_props env chain v ps"
  have "seeded_within (fst ` set (e # es)) l (fold ?f es ?l)"
    by (rule seeded_within_trans [OF seeded_within_mono [OF conjunct1 [OF seed_props_effect]] seeded_within_mono [OF conjunct1 [OF Cons.IH]]])
      (auto simp: e)
  moreover have "writes_crdt env (e # es) v k \<longleftrightarrow> v = u \<and> (\<exists>x. (k, x) \<in> set ps \<and> try_as_crdt env x \<noteq> None) \<or> writes_crdt env es v k"
    by (auto simp: writes_crdt_def e list_ex_iff)
  moreover have "prop_at ?l v k = (if v = u \<and> prop_at l v k = None \<and> (\<exists>x. (k, x) \<in> set ps \<and> try_as_crdt env x \<noteq> None)
      then crdt_only env (newest_prop (rev chain) v k) else prop_at l v k)"
    by (rule conjunct2 [OF seed_props_effect])
  moreover have "prop_at (fold ?f es ?l) v k = (if prop_at ?l v k = None \<and> writes_crdt env es v k
      then crdt_only env (newest_prop (rev chain) v k) else prop_at ?l v k)"
    by (rule conjunct2 [OF Cons.IH])
  moreover have "fold ?f (e # es) l = fold ?f es ?l" by (simp add: e)
  ultimately show ?case
    by (cases "\<exists>x. (k, x) \<in> set ps \<and> try_as_crdt env x \<noteq> None"; cases "v = u"; cases "prop_at l v k = None") (simp_all only: simp_thms if_True if_False if_cancel split: if_split)
qed

lemma seed_effect:
  "seeded_within (fst ` set (vertex_properties tx)) l (seed_crdt_state_from_chain env chain tx l) \<and>
   prop_at (seed_crdt_state_from_chain env chain tx l) v k =
     (if prop_at l v k = None \<and> writes_crdt env (vertex_properties tx) v k
      then crdt_only env (newest_prop (rev chain) v k) else prop_at l v k)"
proof (cases "chain = []")
  case True
  then show ?thesis by (simp add: seed_crdt_state_from_chain_def crdt_only_def)
next
  case False
  show ?thesis unfolding seed_crdt_state_from_chain_def if_not_P [OF False] by (rule seed_all_effect)
qed

subsection \<open>Applying a durable commit\<close>

definition writer_ok :: "'p writer \<Rightarrow> bool" where
  "writer_ok w \<longleftrightarrow> mgr_ok (wr_mgr w) (wr_heap w) \<and> buf_ok (wr_current w) \<and> list_all buf_ok (wr_chain w)"

lemma a_placed_merge:
  assumes "maps_ok tx" "dom (a_vprops a) \<subseteq> a_verts a \<union> fst ` set (vertex_properties tx)"
  shows "a_placed (a_merge env reg tx a)"
proof -
  let ?D = "set (vertex_tombstones tx)"
  define b where "b = fold (a_put_vertex env reg tx) (vertex_properties tx) (a_delete_set ?D a)"
  have "a_verts b = (a_verts a - ?D) \<union> fst ` set (vertex_properties tx)" by (simp add: b_def fold_put_vertex_const a_delete_set_def)
  moreover have "v \<in> (dom (a_vprops a) - ?D) \<union> fst ` set (vertex_properties tx)" if v: "v \<in> dom (a_vprops b)" for v
  proof (cases "hget (vertex_properties tx) v")
    case None
    have "hmap_ok (vertex_properties tx)" using assms(1) by (simp add: maps_ok_def)
    then have "a_vprops b v = a_vprops (a_delete_set ?D a) v" unfolding b_def by (simp add: fold_put_vertex_props None)
    then show ?thesis using v by (auto simp: a_delete_set_def a_drop_def split: if_splits)
  next
    case (Some p)
    then show ?thesis by (metis UnI2 domI dom_map_of_conv_image_fst)
  qed
  ultimately have b: "a_placed b" using assms(2) unfolding a_placed_def by blast
  have edges: "a_verts c \<subseteq> a_verts (fold (a_put_edge env reg tx ep) es c)" for ep es c
  proof (induction es arbitrary: c)
    case (Cons e es)
    have "a_verts c \<subseteq> a_verts (a_put_edge env reg tx ep e c)" by (auto simp: a_put_edge_def a_insert_edge_def a_delete_edge_def split: prod.split)
    then show ?case using Cons.IH [of "a_put_edge env reg tx ep e c"] by simp
  qed simp
  have tomb: "a_verts (fold (a_put_tombstone tx) ts c) = a_verts c" for ts c
    by (induction ts arbitrary: c) (auto simp: a_put_tombstone_def a_delete_edge_def)
  have "a_vprops (a_merge env reg tx a) = a_vprops b"
    by (simp add: a_merge_def fold_delete b_def fold_put_tombstone_const fold_put_edge_const fold_overwrite a_fill_labels_def)
  moreover have "a_verts b \<subseteq> a_verts (a_merge env reg tx a)"
    using edges by (simp add: a_merge_def fold_delete b_def tomb fold_overwrite a_fill_labels_def) (metis (no_types, lifting) l0_abs.select_convs(1) l0_abs.surjective l0_abs.update_convs(7))
  ultimately show ?thesis using b by (auto simp: a_placed_def)
qed

lemma seed_prop_cong:
  "vertex_properties l = vertex_properties l' \<Longrightarrow>
   vertex_properties (seed_crdt_prop env chain v kx l) = vertex_properties (seed_crdt_prop env chain v kx l')"
  by (auto simp: seed_crdt_prop_def split: prod.split option.split)

lemma seed_cong:
  fixes l l' :: "'p l0_buffer"
  assumes "vertex_properties l = vertex_properties l'"
  shows "vertex_properties (seed_crdt_state_from_chain env chain tx l) = vertex_properties (seed_crdt_state_from_chain env chain tx l')"
proof -
  have one: "vertex_properties (fold (seed_crdt_prop env chain v) ps l) = vertex_properties (fold (seed_crdt_prop env chain v) ps l')"
    if "vertex_properties l = vertex_properties l'" for v ps and l l' :: "'p l0_buffer"
    using that
  proof (induction ps arbitrary: l l')
    case (Cons p ps)
    show ?case unfolding fold_simps by (rule Cons.IH [OF seed_prop_cong [OF Cons.prems]])
  qed simp
  have all: "vertex_properties (fold (\<lambda>(v, ps). seed_crdt_props env chain v ps) es l) =
      vertex_properties (fold (\<lambda>(v, ps). seed_crdt_props env chain v ps) es l')" for es
    using assms
  proof (induction es arbitrary: l l')
    case (Cons e es)
    obtain v ps where e: "e = (v, ps)" by (cases e)
    show ?case unfolding fold_simps e split seed_crdt_props_def
      by (rule Cons.IH [unfolded seed_crdt_props_def, OF one [OF Cons.prems]])
  qed simp
  show ?thesis
  proof (cases "chain = []")
    case False
    show ?thesis unfolding seed_crdt_state_from_chain_def if_not_P [OF False] by (rule all)
  qed (use assms in \<open>simp add: seed_crdt_state_from_chain_def\<close>)
qed

lemma seed_view:
  fixes l l' :: "'p l0_buffer"
  assumes "vertex_properties l = vertex_properties l'" "l0_view l = l0_view l'"
  shows "l0_view (seed_crdt_state_from_chain env chain tx l) = l0_view (seed_crdt_state_from_chain env chain tx l')"
proof -
  have view: "l0_view (k\<lparr>vertex_properties := x\<rparr>) = (l0_view k)\<lparr>a_vprops := (\<lambda>v. map_option map_of (hget x v))\<rparr>" for k :: "'p l0_buffer" and x
    by (simp add: l0_view_def)
  have only: "l0_view (seed_crdt_state_from_chain env chain tx k) =
      (l0_view k)\<lparr>a_vprops := (\<lambda>v. map_option map_of (hget (vertex_properties (seed_crdt_state_from_chain env chain tx k)) v))\<rparr>"
    for k :: "'p l0_buffer"
    unfolding view [symmetric] using conjunct1 [OF seed_effect [of tx k env chain]] unfolding seeded_within_def
    by (rule arg_cong [OF conjunct1])
  show ?thesis unfolding only [of l] only [of l'] seed_cong [OF assms(1), of env chain tx] assms(2) ..
qed

lemma seed_keeps:
  fixes l tx :: "'p l0_buffer" and chain :: "'p l0_buffer list" and env :: "('j, 'p) l0_env"
  defines "s \<equiv> seed_crdt_state_from_chain env chain tx l"
  shows "vertex_tombstones s = vertex_tombstones l" "plugin_registry s = plugin_registry l" "current_version s = current_version l"
    "graph s = graph l" "wal s = wal l" "l0_ok l \<Longrightarrow> l0_ok s"
    "fst ` set (vertex_properties s) \<subseteq> fst ` set (vertex_properties l) \<union> fst ` set (vertex_properties tx)"
proof -
  have e: "s = l\<lparr>vertex_properties := vertex_properties s\<rparr>" and rest: "l0_ok l \<longrightarrow> l0_ok s"
    "fst ` set (vertex_properties s) \<subseteq> fst ` set (vertex_properties l) \<union> fst ` set (vertex_properties tx)"
    using seed_effect [of tx l env chain] unfolding seeded_within_def s_def by blast+
  show "vertex_tombstones s = vertex_tombstones l" "plugin_registry s = plugin_registry l" "current_version s = current_version l"
    "graph s = graph l" "wal s = wal l" by (subst e, simp)+
  show "l0_ok l \<Longrightarrow> l0_ok s" using rest(1) by blast
  show "fst ` set (vertex_properties s) \<subseteq> fst ` set (vertex_properties l) \<union> fst ` set (vertex_properties tx)" by (rule rest(2))
qed

lemma validate_merge_cong:
  assumes "vertex_tombstones l = vertex_tombstones l'"
  shows "validate_merge_edge_endpoints l tx = validate_merge_edge_endpoints l' tx"
proof -
  have "effectively_deleted l tx v = effectively_deleted l' tx v" for v using assms by (simp add: effectively_deleted_def)
  then have "validate_edges l tx es = validate_edges l' tx es" for es by (induction es) auto
  then show ?thesis by (simp add: validate_merge_edge_endpoints_def)
qed

lemma buf_ok_clone: "buf_ok b \<Longrightarrow> buf_ok ((l0_clone b)\<lparr>wal := w\<rparr>)"
  using l0_ok_clone [of b] by (simp add: buf_ok_def props_placed_def l0_clone_def l0_ok_def l0_inv_defs)

lemma freeze_writer:
  assumes ok: "writer_ok w" and run: "freeze_if_pinned (wr_mgr w) (wr_heap w) = (m, h)"
  shows "writer_ok (w\<lparr>wr_mgr := m, wr_heap := h\<rparr>) \<and> wr_chain (w\<lparr>wr_mgr := m, wr_heap := h\<rparr>) = wr_chain w \<and>
    (let c = wr_current (w\<lparr>wr_mgr := m, wr_heap := h\<rparr>)
     in vertex_properties c = vertex_properties (wr_current w) \<and> l0_view c = l0_view (wr_current w) \<and>
        current_version c = current_version (wr_current w) \<and> plugin_registry c = plugin_registry (wr_current w) \<and>
        vertex_tombstones c = vertex_tombstones (wr_current w) \<and> wal c = wal (wr_current w) \<and>
        wal_lsn_at_start c = wal_lsn_at_start (wr_current w))"
proof (cases "is_current_pinned (wr_mgr w) (wr_heap w)")
  case True
  have mgr: "mgr_ok (wr_mgr w) (wr_heap w)" using ok by (simp add: writer_ok_def)
  have fr: "freeze_current_for_snapshot (wr_mgr w) (wr_heap w) = (m, h)" using run True by (simp add: freeze_if_pinned_def)
  have new: "fresh_generation (wr_mgr w) (wr_heap w) m h" "mgr_pending m = mgr_pending (wr_mgr w)"
    "\<And>b. b < length (buffers (wr_heap w)) \<Longrightarrow> b \<noteq> mgr_current (wr_mgr w) \<Longrightarrow> read_buffer b h = read_buffer b (wr_heap w)"
    "read_buffer (mgr_current m) h = (l0_clone (wr_current w))\<lparr>wal := wal (wr_current w)\<rparr>"
    using freeze_fresh [OF fr] mgr by (auto simp: mgr_ok_def wr_current_def)
  have "wr_chain (w\<lparr>wr_mgr := m, wr_heap := h\<rparr>) = wr_chain w" using new(2,3) mgr by (auto simp: wr_chain_def mgr_ok_def)
  moreover have "mgr_ok m h" using new(1,2) mgr by (fastforce simp: mgr_ok_def fresh_generation_def)
  moreover have c: "wr_current (w\<lparr>wr_mgr := m, wr_heap := h\<rparr>) = (l0_clone (wr_current w))\<lparr>wal := wal (wr_current w)\<rparr>"
    by (simp add: wr_current_def [of "w\<lparr>wr_mgr := m, wr_heap := h\<rparr>"] new(4))
  moreover have "buf_ok (wr_current (w\<lparr>wr_mgr := m, wr_heap := h\<rparr>))"
    unfolding c by (rule buf_ok_clone) (use ok in \<open>simp add: writer_ok_def\<close>)
  ultimately have "writer_ok (w\<lparr>wr_mgr := m, wr_heap := h\<rparr>) \<and> wr_chain (w\<lparr>wr_mgr := m, wr_heap := h\<rparr>) = wr_chain w"
    using ok by (simp add: writer_ok_def)
  then show ?thesis unfolding c by (simp add: l0_clone_def l0_view_def)
next
  case False
  then have "m = wr_mgr w" "h = wr_heap w" using run by (simp_all add: freeze_if_pinned_def)
  then show ?thesis using ok by (simp add: Let_def)
qed

lemma merge_seeded:
  fixes cur tx :: "'p l0_buffer" and chain :: "'p l0_buffer list" and env :: "('j, 'p) l0_env"
  assumes cur: "buf_ok cur" and tx: "tx_ok tx" and valid: "validate_merge_edge_endpoints cur tx = Inr ()"
  defines "seeded \<equiv> seed_crdt_state_from_chain env chain tx cur"
  shows "\<exists>cascaded main. merge_take env clock tx seeded = Some (Inr cascaded, tx\<lparr>vertex_properties := [], edge_properties := []\<rparr>, main) \<and>
    buf_ok main \<and> l0_view main = a_merge env (plugin_registry cur) tx (l0_view seeded) \<and>
    current_version main = current_version cur + merge_writes tx"
proof -
  have maps: "maps_ok tx" using tx by (simp add: tx_ok_def)
  have s: "l0_ok seeded" "validate_merge_edge_endpoints seeded tx = Inr ()" "plugin_registry seeded = plugin_registry cur"
    "current_version seeded = current_version cur"
    using seed_keeps [where l = cur and tx = tx and chain = chain and env = env] cur valid validate_merge_cong [of seeded cur tx] unfolding seeded_def buf_ok_def by simp_all
  obtain cascaded main where m: "merge env clock tx seeded = Some (Inr cascaded, main)" "l0_ok main"
    "l0_view main = a_merge env (plugin_registry cur) tx (l0_view seeded)" "current_version main = current_version cur + merge_writes tx"
    using merge_succeeds [OF s(1) maps s(2), of env clock] s(3,4) by auto
  have "fst ` set (vertex_properties cur) \<subseteq> verts (graph cur)" using cur by (auto simp: buf_ok_def props_placed_def)
  moreover have g: "graph seeded = graph cur" unfolding seeded_def by (rule seed_keeps(4))
  moreover have "fst ` set (vertex_properties seeded) \<subseteq> fst ` set (vertex_properties cur) \<union> fst ` set (vertex_properties tx)"
    unfolding seeded_def by (rule seed_keeps(7))
  ultimately have "dom (a_vprops (l0_view seeded)) \<subseteq> a_verts (l0_view seeded) \<union> fst ` set (vertex_properties tx)"
    unfolding dom_a_vprops l0_view_simps g by (elim order_trans) (rule Un_mono, assumption, rule order_refl)
  then have "props_placed main" unfolding props_placed_view m(3) by (rule a_placed_merge [OF maps])
  then show ?thesis using m merge_take_eq [OF m(1)] by (auto simp: buf_ok_def)
qed

lemma apply_commit_ok:
  assumes ok: "writer_ok w" and tx: "tx_ok tx" and valid: "validate_merge_edge_endpoints (wr_current w) tx = Inr ()"
  shows "\<exists>c tx2 w'. apply_commit env ws lsn tx w = Some (Inr c, tx2, w') \<and> writer_ok w' \<and> ct_wal_lsn c = lsn \<and>
    ct_version c = current_version (wr_current w') \<and> current_version (wr_current w') = current_version (wr_current w) + merge_writes tx \<and>
    l0_view (wr_current w') = a_merge (ce_l0 env) (plugin_registry (wr_current w)) tx
      (l0_view (seed_crdt_state_from_chain (ce_l0 env) (wr_chain w) tx (wr_current w))) \<and>
    wr_chain w' = wr_chain w \<and> wr_wal w' = wr_wal w \<and> wr_ssi w' = wr_ssi w \<and> wr_tickets w' = wr_tickets w @ [lsn] \<and>
    (wr_sequence w', wr_registry w') =
      (case ws of Some s \<Rightarrow> if ws_is_empty s then (wr_sequence w, wr_registry w) else registry_commit (wr_registry w) (wr_sequence w) s
       | None \<Rightarrow> (wr_sequence w, wr_registry w))"
proof -
  obtain m h where fr: "freeze_if_pinned (wr_mgr w) (wr_heap w) = (m, h)" by (cases "freeze_if_pinned (wr_mgr w) (wr_heap w)")
  define w1 where "w1 = w\<lparr>wr_mgr := m, wr_heap := h\<rparr>"
  note f = freeze_writer [OF ok fr, folded w1_def, unfolded Let_def]
  have "wr_mgr w1 = m" "wr_heap w1 = h" by (simp_all add: w1_def)
  then have w1: "writer_ok w1" "wr_chain w1 = wr_chain w" "mgr_ok m h" "buf_ok (wr_current w1)" using f by (auto simp: writer_ok_def)
  have valid1: "validate_merge_edge_endpoints (wr_current w1) tx = Inr ()" using validate_merge_cong f valid by metis
  define seeded where "seeded = seed_crdt_state_from_chain (ce_l0 env) (wr_chain w1) tx (wr_current w1)"
  obtain cascaded main where m: "merge_take (ce_l0 env) (ce_clock env) tx seeded =
      Some (Inr cascaded, tx\<lparr>vertex_properties := [], edge_properties := []\<rparr>, main)" "buf_ok main"
    "l0_view main = a_merge (ce_l0 env) (plugin_registry (wr_current w1)) tx (l0_view seeded)"
    "current_version main = current_version (wr_current w1) + merge_writes tx"
    using merge_seeded [OF w1(4) tx valid1, where env = "ce_l0 env" and chain = "wr_chain w1" and clock = "ce_clock env"] unfolding seeded_def by blast
  define h2 where "h2 = write_buffer (mgr_current m) (\<lambda>_. main) h"
  have h2: "read_buffer (mgr_current m) h2 = main" "mgr_ok m h2"
    "\<forall>a\<in>set (mgr_pending m). read_buffer a h2 = read_buffer a h"
    using w1(3) by (auto simp: h2_def read_write_buffer mgr_ok_def)
  define w2 where "w2 = w1\<lparr>wr_heap := h2, wr_adjacency := wr_adjacency w1 @ mirror_cascaded_tombstones cascaded main @
      mirror_edges_into_adjacency (tx\<lparr>vertex_properties := [], edge_properties := []\<rparr>) main (current_version main),
    wr_tickets := wr_tickets w1 @ [lsn]\<rparr>"
  define w3 where "w3 = (case ws of None \<Rightarrow> w2 | Some s \<Rightarrow> if ws_is_empty s then w2
    else case registry_commit (wr_registry w2) (wr_sequence w2) s of (seq, reg) \<Rightarrow> w2\<lparr>wr_sequence := seq, wr_registry := reg\<rparr>)"
  have run: "apply_commit env ws lsn tx w =
      Some (Inr \<lparr>ct_wal_lsn = lsn, ct_version = current_version main\<rparr>, tx\<lparr>vertex_properties := [], edge_properties := []\<rparr>, w3)"
    unfolding apply_commit_def fr split Let_def w1_def [symmetric] seeded_def [symmetric] m(1) option.case sum.case h2_def [symmetric] w2_def [symmetric] w3_def ..
  have w3: "wr_mgr w3 = m" "wr_heap w3 = h2" "wr_wal w3 = wr_wal w" "wr_ssi w3 = wr_ssi w" "wr_tickets w3 = wr_tickets w @ [lsn]"
    "(wr_sequence w3, wr_registry w3) =
      (case ws of Some s \<Rightarrow> if ws_is_empty s then (wr_sequence w, wr_registry w) else registry_commit (wr_registry w) (wr_sequence w) s
       | None \<Rightarrow> (wr_sequence w, wr_registry w))"
    by (auto simp: w3_def w2_def w1_def split: option.split prod.split)
  have cur: "wr_current w3 = main" by (simp add: wr_current_def w3(1,2) h2(1))
  have "wr_chain w3 = wr_chain w1" using h2(3) by (simp add: wr_chain_def w3(1,2) w1_def)
  then have chain: "wr_chain w3 = wr_chain w" using w1(2) by simp
  have "writer_ok w3" using w1(1,2) m(2) h2(2) by (simp add: writer_ok_def cur chain w3(1,2))
  moreover have "l0_view main = a_merge (ce_l0 env) (plugin_registry (wr_current w)) tx
      (l0_view (seed_crdt_state_from_chain (ce_l0 env) (wr_chain w) tx (wr_current w)))"
    using m(3) f seed_view [of "wr_current w1" "wr_current w" "ce_l0 env" "wr_chain w" tx] by (simp add: seeded_def)
  ultimately show ?thesis using run w3 m(4) f by (auto simp: cur chain)
qed

end
