(* ===== verification/Commit_Claims.thy ===== *)
theory Commit_Claims
  imports Commit_Safety
begin

text \<open>
  The properties of a whole commit: it is all or nothing, a CRDT write meets the newest committed
  state wherever that is, and what the exception for CRDT writes gives up.
\<close>

lemma log_frame:
  "wr_current (w\<lparr>wr_wal := x\<rparr>) = wr_current w" "wr_chain (w\<lparr>wr_wal := x\<rparr>) = wr_chain w" "writer_ok (w\<lparr>wr_wal := x\<rparr>) = writer_ok w"
  by (simp_all add: wr_current_def wr_chain_def writer_ok_def)

lemma log_commit_frame: "\<exists>x. log_commit env tx w = w\<lparr>wr_wal := x\<rparr>"
  by (auto simp: log_commit_def intro: exI [of _ "wr_wal w"])

lemma flush_wal_frame: "flush_wal env io between w = (r, w1) \<Longrightarrow> \<exists>x. w1 = w\<lparr>wr_wal := x\<rparr>"
  by (auto simp: flush_wal_def split: if_splits prod.splits intro: exI [of _ "wr_wal w"])

lemma logged_frame:
  assumes "flush_wal env io between (log_commit env tx w) = (r, w1)"
  shows "w1 = w\<lparr>wr_wal := wr_wal w1\<rparr>"
proof -
  obtain x where x: "log_commit env tx w = w\<lparr>wr_wal := x\<rparr>" using log_commit_frame by blast
  obtain y where "w1 = (w\<lparr>wr_wal := x\<rparr>)\<lparr>wr_wal := y\<rparr>" using flush_wal_frame [OF assms] unfolding x by blast
  then show ?thesis by simp
qed

lemma commit_outcome:
  assumes ok: "writer_ok w" and tx: "tx_ok tx"
  shows "\<exists>r tx' w'. commit_transaction_l0_sequenced env lock_acquired io between tx w = Some (r, tx', w') \<and> writer_ok w' \<and>
    (case r of
       Inl (LogFailed e) \<Rightarrow> w' = w\<lparr>wr_wal := wr_wal w'\<rparr>
     | Inl (MergeFailed e) \<Rightarrow> False
     | Inl _ \<Rightarrow> w' = w
     | Inr c \<Rightarrow> \<exists>tx1. revalidate_if_stale env tx = (Inr (), tx1) \<and>
         fst (flush_wal env io between (log_commit env tx1 w)) = Inr (ct_wal_lsn c) \<and>
         l0_view (wr_current w') = a_merge (ce_l0 env) (plugin_registry (wr_current w)) tx1
           (l0_view (seed_crdt_state_from_chain (ce_l0 env) (wr_chain w) tx1 (wr_current w))) \<and>
         wr_chain w' = wr_chain w \<and> wr_tickets w' = wr_tickets w @ [ct_wal_lsn c] \<and>
         ct_version c = current_version (wr_current w') \<and> ct_version c = current_version (wr_current w) + merge_writes tx \<and>
         (wr_ssi w \<longrightarrow> ws_is_empty (from_l0 (ce_l0 env) tx) \<longrightarrow> wr_sequence w' = wr_sequence w \<and> wr_registry w' = wr_registry w))"
proof (cases lock_acquired)
  case True
  note commit = commit_transaction_l0_sequenced_def True
  show ?thesis
  proof (cases "occ_validate (ce_l0 env) tx w")
    case (Inl e)
    moreover have "(case e of LogFailed _ \<Rightarrow> False | MergeFailed _ \<Rightarrow> False | _ \<Rightarrow> True)"
      using Inl by (auto simp: occ_validate_def validate_overlay_def bind_sum_def Let_def split: if_splits option.splits sum.splits prod.splits)
    ultimately show ?thesis using ok by (cases e) (simp_all add: commit)
  next
    case occ: (Inr ws)
    show ?thesis
    proof (cases "validate_edge_endpoints_overlay tx w")
      case (Inl e)
      then show ?thesis using ok occ by (simp add: commit)
    next
      case ends: (Inr u)
      have valid: "validate_merge_edge_endpoints (wr_current w) tx = Inr ()"
        using overlay_endpoints [of "wr_current w" tx "rev (wr_chain w)"] ends ok
        by (simp add: validate_edge_endpoints_overlay_def validate_merge_edge_endpoints_def writer_ok_def)
      obtain q tx1 where q: "revalidate_if_stale env tx = (q, tx1)" by (cases "revalidate_if_stale env tx")
      note t = tx_ok_revalidated [OF tx q]
      show ?thesis
      proof (cases q)
        case (Inl e)
        then show ?thesis using ok occ ends q by (simp add: commit)
      next
        case (Inr v)
        obtain r w1 where fl: "flush_wal env io between (log_commit env tx1 w) = (r, w1)"
          by (cases "flush_wal env io between (log_commit env tx1 w)")
        note w1 = logged_frame [OF fl]
        have ok1: "writer_ok w1" "wr_current w1 = wr_current w" "wr_chain w1 = wr_chain w" "wr_tickets w1 = wr_tickets w"
          "wr_sequence w1 = wr_sequence w" "wr_registry w1 = wr_registry w"
          using ok by (subst w1, simp add: log_frame)+
        show ?thesis
        proof (cases r)
          case (Inl e)
          then show ?thesis using occ ends q Inr fl w1 ok1(1) by (simp add: commit)
        next
          case lsn: (Inr lsn)
          have valid1: "validate_merge_edge_endpoints (wr_current w1) tx1 = Inr ()" using t valid ok1(2) by simp
          obtain c tx2 w2 where a: "apply_commit env ws lsn tx1 w1 = Some (Inr c, tx2, w2)" "writer_ok w2" "ct_wal_lsn c = lsn"
            "ct_version c = current_version (wr_current w2)" "current_version (wr_current w2) = current_version (wr_current w1) + merge_writes tx1"
            "l0_view (wr_current w2) = a_merge (ce_l0 env) (plugin_registry (wr_current w1)) tx1
              (l0_view (seed_crdt_state_from_chain (ce_l0 env) (wr_chain w1) tx1 (wr_current w1)))"
            "wr_chain w2 = wr_chain w1" "wr_tickets w2 = wr_tickets w1 @ [lsn]"
            "(wr_sequence w2, wr_registry w2) = (case ws of Some s \<Rightarrow>
               if ws_is_empty s then (wr_sequence w1, wr_registry w1) else registry_commit (wr_registry w1) (wr_sequence w1) s
             | None \<Rightarrow> (wr_sequence w1, wr_registry w1))"
            using apply_commit_ok [OF ok1(1) _ valid1, of env ws lsn] t by blast
          have "wr_ssi w \<Longrightarrow> ws = Some (from_l0 (ce_l0 env) tx)"
            using occ by (auto simp: occ_validate_def Let_def bind_sum_def split: if_splits option.splits sum.splits)
          then have "wr_ssi w \<longrightarrow> ws_is_empty (from_l0 (ce_l0 env) tx) \<longrightarrow> wr_sequence w2 = wr_sequence w \<and> wr_registry w2 = wr_registry w"
            using a(9) ok1(5,6) by auto
          then show ?thesis using a(1-8) occ ends q Inr fl lsn t ok1 by (simp add: commit)
        qed
      qed
    qed
  qed
qed (use ok in \<open>simp add: commit_transaction_l0_sequenced_def\<close>)

subsection \<open>Example values\<close>

text \<open>Every map is a grow-only set, and a merged set is written as a map with one marker.\<close>

definition set_env :: "(u8, unit) l0_env" where
  "set_env = \<lparr>crdt_of_value = (\<lambda>v. if is_map v then Some (GSet gset_new) else None),
     value_of_crdt = (\<lambda>_. Some (Map [(''merged'', Null)])), json_bytes = (\<lambda>_. [49]),
     crdt_codec = \<lparr>to_msgpack = (\<lambda>_. Inr []), from_msgpack = (\<lambda>_. Inl (Serialization [])), registry = (\<lambda>_. None),
       json_ser = (\<lambda>_. Some [])\<rparr>\<rparr>"

definition set_commit_env :: "(u8, unit, unit) commit_env" where
  "set_commit_env = \<lparr>ce_l0 = set_env, ce_clock = (\<lambda>_. 9), ce_codec = codec_of [], edge_type_name_by_id = (\<lambda>_. None),
     schema_version = 0, schema_property = (\<lambda>_ _. None), accepts = (\<lambda>_ _. True), coerce = (\<lambda>_ _ v. Inr v)\<rparr>"

definition crdt_tx :: "unit l0_buffer" where
  "crdt_tx = insert_vertex_with_labels set_env 5 (Vid 1) [(''c'', Map [])] [] (l0_new 0 None)"

definition idle_writer :: "unit l0_buffer \<Rightarrow> unit l0_buffer list \<Rightarrow> bool \<Rightarrow> unit writer" where
  "idle_writer cur chain ssi =
     \<lparr>wr_mgr = \<lparr>mgr_current = 0, mgr_pending = map Suc [0..<length chain], mgr_pin = 0, mgr_registry = None, mgr_transaction = None, mgr_bulk = []\<rparr>,
      wr_heap = \<lparr>buffers = cur # chain, pin_counts = [1]\<rparr>, wr_wal = wal_new [] [],
      wr_registry = \<lparr>reg_entries = [], reg_capacity = 1\<rparr>, wr_sequence = 0, wr_ssi = ssi, wr_adjacency = [], wr_tickets = []\<rparr>"

lemma idle_writer_ok:
  "wr_current (idle_writer cur chain ssi) = cur" "wr_chain (idle_writer cur chain ssi) = chain" "wr_ssi (idle_writer cur chain ssi) = ssi"
  "buf_ok cur \<Longrightarrow> list_all buf_ok chain \<Longrightarrow> writer_ok (idle_writer cur chain ssi)"
proof -
  show c: "wr_current (idle_writer cur chain ssi) = cur" "wr_ssi (idle_writer cur chain ssi) = ssi"
    by (simp_all add: wr_current_def idle_writer_def read_buffer_def)
  show ch: "wr_chain (idle_writer cur chain ssi) = chain"
    by (simp add: wr_chain_def idle_writer_def read_buffer_def comp_def map_nth)
  show "buf_ok cur \<Longrightarrow> list_all buf_ok chain \<Longrightarrow> writer_ok (idle_writer cur chain ssi)"
    unfolding writer_ok_def c ch by (auto simp: idle_writer_def mgr_ok_def)
qed

lemma crdt_tx_fields:
  "vertex_properties crdt_tx = [(Vid 1, [(''c'', Map [])])]" "vertex_labels crdt_tx = [(Vid 1, [])]" "vertex_tombstones crdt_tx = []"
  "vertex_label_overwrites crdt_tx = []" "edge_properties crdt_tx = []" "edge_endpoints crdt_tx = []" "tombstones crdt_tx = []"
  "constraint_index crdt_tx = []" "edge_constraint_index crdt_tx = []" "merge_guard_index crdt_tx = []" "extid_index crdt_tx = []"
  "edge_types crdt_tx = []" "validated_schema_version crdt_tx = None"
  by (simp_all add: crdt_tx_def insert_vertex_with_labels_def insert_vertex_with_labels_impl_def apply_vertex_write_def wal_append_def
      index_labels_for_vid_def index_labels_def add_stats_def merge_crdt_properties_def l0_new_def hget_or_def append_unique_labels_def
      statement_closed_def Let_def)

lemma crdt_tx_ok: "tx_ok crdt_tx" "buf_ok crdt_tx" "buf_ok (l0_new 0 None)" "revalidate_if_stale set_commit_env crdt_tx = (Inr (), crdt_tx)"
proof -
  have ok: "l0_ok crdt_tx" "l0_view crdt_tx = a_insert_vertex set_env None (Vid 1) (map_of [(''c'', Map [])]) [] a_empty"
    using insert_vertex_with_labels_ok [OF l0_ok_new [of 0 None], of "[(''c'', Map [])]" set_env 5 "Vid 1" "[]"]
    by (simp_all add: crdt_tx_def l0_view_new hmap_ok_def)
  then have "props_placed crdt_tx" by (simp add: props_placed_view a_placed_def a_insert_vertex_def a_empty_def Let_def)
  then show "buf_ok crdt_tx" "tx_ok crdt_tx" using ok(1) tx_okI by (simp_all add: buf_ok_def)
  show "buf_ok (l0_new 0 None)" by (simp add: buf_ok_def l0_ok_new props_placed_def) (simp add: l0_new_def)
  show "revalidate_if_stale set_commit_env crdt_tx = (Inr (), crdt_tx)" by (simp add: revalidate_if_stale_def crdt_tx_fields)
qed

subsection \<open>Commits are all or nothing\<close>

lemma crdt_tx_run:
  assumes "buf_ok cur" "list_all buf_ok chain" "wal cur = None"
  shows "\<exists>c tx' w'. commit_transaction_l0_sequenced set_commit_env True io between crdt_tx (idle_writer cur chain False) = Some (Inr c, tx', w')"
proof -
  let ?w = "idle_writer cur chain False"
  have "occ_validate set_env crdt_tx ?w = Inr None" "validate_edge_endpoints_overlay crdt_tx ?w = Inr ()"
    "flush_wal set_commit_env io between (log_commit set_commit_env crdt_tx ?w) = (Inr 0, ?w)"
    by (simp_all add: occ_validate_def validate_edge_endpoints_overlay_def flush_wal_def log_commit_def idle_writer_ok(1,3) assms(3) crdt_tx_fields)
  moreover have "validate_merge_edge_endpoints (wr_current ?w) crdt_tx = Inr ()"
    by (simp add: validate_merge_edge_endpoints_def crdt_tx_fields)
  moreover have "ce_l0 set_commit_env = set_env" by (simp add: set_commit_env_def)
  ultimately show ?thesis
    using apply_commit_ok [OF idle_writer_ok(4) [OF assms(1,2), of False] crdt_tx_ok(1), where env = set_commit_env and ws = None and lsn = 0]
    by (auto simp: commit_transaction_l0_sequenced_def crdt_tx_ok(4))
qed

text \<open>
  C1 (\<open>commit_all_or_nothing\<close>). A commit never panics and keeps every buffer consistent. Refused for a lock
  timeout, a conflict, a taken key, a deleted endpoint or a value that no longer fits its declared
  type, it leaves the writer as it was; if the log cannot be written, only the log has changed.
  Once the log is durable the commit cannot fail any more: the merge succeeds, the current buffer
  becomes the merge of the seeded buffer and the transaction, and the commit's version and its
  place in the announcement order are those of this merge.
\<close>

theorem commit_all_or_nothing:
  assumes ok: "writer_ok w" and tx: "tx_ok tx"
  shows "\<exists>r tx' w'. commit_transaction_l0_sequenced env lock_acquired io between tx w = Some (r, tx', w') \<and> writer_ok w' \<and>
    (case r of
       Inl (LogFailed e) \<Rightarrow> w' = w\<lparr>wr_wal := wr_wal w'\<rparr>
     | Inl (MergeFailed e) \<Rightarrow> False
     | Inl _ \<Rightarrow> w' = w
     | Inr c \<Rightarrow> \<exists>tx1. revalidate_if_stale env tx = (Inr (), tx1) \<and>
         fst (flush_wal env io between (log_commit env tx1 w)) = Inr (ct_wal_lsn c) \<and>
         l0_view (wr_current w') = a_merge (ce_l0 env) (plugin_registry (wr_current w)) tx1
           (l0_view (seed_crdt_state_from_chain (ce_l0 env) (wr_chain w) tx1 (wr_current w))) \<and>
         wr_chain w' = wr_chain w \<and> wr_tickets w' = wr_tickets w @ [ct_wal_lsn c] \<and>
         ct_version c = current_version (wr_current w') \<and> ct_version c = current_version (wr_current w) + merge_writes tx)"
  using commit_outcome [OF assms, of env lock_acquired io between] by (fastforce split: sum.splits commit_error.splits)

theorem commit_all_or_nothing_witness:
  "\<exists>c tx' w'. commit_transaction_l0_sequenced set_commit_env True \<lparr>put_result = PutOk, fsync_ok = True, delete_ok = True, segment_uuid = ''u''\<rparr> id
      crdt_tx (idle_writer (l0_new 0 None) [] False) = Some (Inr c, tx', w') \<and>
    l0_view (wr_current w') = a_merge set_env None crdt_tx a_empty \<and> wr_tickets w' = [0] \<and> ct_version c = 1"
proof -
  let ?io = "\<lparr>put_result = PutOk, fsync_ok = True, delete_ok = True, segment_uuid = ''u''\<rparr>" and ?w = "idle_writer (l0_new 0 None) [] False"
  have env: "ce_l0 set_commit_env = set_env" by (simp add: set_commit_env_def)
  have w: "wal (l0_new 0 None :: unit l0_buffer) = None" "plugin_registry (l0_new 0 None :: unit l0_buffer) = None"
    "current_version (l0_new 0 None :: unit l0_buffer) = 0" by (simp_all add: l0_new_def)
  have seed: "l0_view (seed_crdt_state_from_chain set_env [] crdt_tx (l0_new 0 None)) = a_empty"
    by (simp add: seed_crdt_state_from_chain_def l0_view_new)
  obtain c tx' w' where run: "commit_transaction_l0_sequenced set_commit_env True ?io id crdt_tx ?w = Some (Inr c, tx', w')"
    using crdt_tx_run [OF crdt_tx_ok(3) _ w(1), of "[]" ?io id] by auto
  have "fst (flush_wal set_commit_env ?io id (log_commit set_commit_env crdt_tx ?w)) = Inr 0"
    by (simp add: flush_wal_def log_commit_def idle_writer_ok(1) w)
  moreover have "writer_ok ?w" by (rule idle_writer_ok(4)) (simp_all add: crdt_tx_ok(3))
  moreover have "merge_writes crdt_tx = 1" by (simp add: merge_writes_def crdt_tx_fields)
  moreover have "wr_tickets ?w = []" by (simp add: idle_writer_def)
  ultimately show ?thesis
    using commit_all_or_nothing [OF _ crdt_tx_ok(1), of ?w set_commit_env True ?io id] run
    by (auto simp: idle_writer_ok env w seed crdt_tx_ok(4))
qed

lemma commit_success:
  assumes ok: "writer_ok w" and tx: "tx_ok tx" and run: "commit_transaction_l0_sequenced env lock_acquired io between tx w = Some (Inr c, tx', w')"
  shows "\<exists>tx1. revalidate_if_stale env tx = (Inr (), tx1) \<and>
    l0_view (wr_current w') = a_merge (ce_l0 env) (plugin_registry (wr_current w)) tx1
      (l0_view (seed_crdt_state_from_chain (ce_l0 env) (wr_chain w) tx1 (wr_current w))) \<and> wr_chain w' = wr_chain w \<and> writer_ok w' \<and>
    (wr_ssi w \<longrightarrow> ws_is_empty (from_l0 (ce_l0 env) tx) \<longrightarrow> wr_sequence w' = wr_sequence w \<and> wr_registry w' = wr_registry w)"
  using commit_outcome [OF ok tx, of env lock_acquired io between] unfolding run by auto

lemma merge_props_at:
  assumes tx: "tx_ok tx" and v: "hget (vertex_properties tx) v = Some p"
  shows "a_vprops (a_merge env reg tx a) v = Some (a_join env reg (case a_vprops a v of None \<Rightarrow> Map.empty | Some q \<Rightarrow> q) (map_of p))"
    "a_vdel (a_merge env reg tx a) = (a_vdel a \<union> set (vertex_tombstones tx)) - fst ` set (vertex_properties tx)"
proof -
  let ?D = "set (vertex_tombstones tx)"
  have "v \<notin> ?D" using tx map_of_SomeD [OF v] by (force simp: tx_ok_def)
  moreover have "hmap_ok (vertex_properties tx)" using tx by (simp add: tx_ok_def maps_ok_def)
  ultimately show "a_vprops (a_merge env reg tx a) v = Some (a_join env reg (case a_vprops a v of None \<Rightarrow> Map.empty | Some q \<Rightarrow> q) (map_of p))"
    by (simp add: a_merge_def fold_delete fold_put_tombstone_const fold_put_edge_const fold_overwrite a_fill_labels_def fold_put_vertex_props v
        a_delete_set_def a_drop_def)
  show "a_vdel (a_merge env reg tx a) = (a_vdel a \<union> ?D) - fst ` set (vertex_properties tx)"
    by (simp add: a_merge_def fold_delete fold_put_tombstone_const fold_put_edge_const fold_overwrite a_fill_labels_def fold_put_vertex_const
        a_delete_set_def)
qed

lemma prop_at_view: "prop_at l v k = Option.bind (a_vprops (l0_view l) v) (\<lambda>f. f k)"
  by (cases "hget (vertex_properties l) v") (simp_all add: prop_at_def)

lemma newest_prop_Cons: "newest_prop (b # bs) v k = (case prop_at b v k of Some x \<Rightarrow> Some x | None \<Rightarrow> newest_prop bs v k)"
  by (simp add: prop_at_def)

text \<open>
  C14 (\<open>crdt_write_meets_newest\<close>). While a buffer is being flushed, the committed state of a CRDT property may
  be in the current buffer or in any of the buffers being flushed. After a commit that writes the
  property, a reader that takes the newest buffer's value gets the transaction's state merged into
  the newest one committed before, wherever that was.
\<close>

theorem crdt_write_meets_newest:
  assumes ok: "writer_ok w" and tx: "tx_ok tx"
    and run: "commit_transaction_l0_sequenced env lock_acquired io between tx w = Some (Inr c, tx', w')"
    and val: "revalidate_if_stale env tx = (Inr (), tx1)" "hget (vertex_properties tx1) v = Some p" "hget p k = Some x"
    and crdt: "try_as_crdt (ce_l0 env) x \<noteq> None" and maps: "\<forall>y. crdt_of_value (ce_l0 env) y \<noteq> None \<longrightarrow> is_map y"
  shows "newest_prop (wr_current w' # rev (wr_chain w')) v k =
    Some (merged_value (ce_l0 env) (plugin_registry (wr_current w)) (newest_prop (wr_current w # rev (wr_chain w)) v k) x)"
proof -
  let ?e = "ce_l0 env" and ?reg = "plugin_registry (wr_current w)"
  define s where "s = seed_crdt_state_from_chain ?e (wr_chain w) tx1 (wr_current w)"
  have view: "l0_view (wr_current w') = a_merge ?e ?reg tx1 (l0_view s)"
    using commit_success [OF ok tx run] val(1) by (auto simp: s_def)
  have tx1: "tx_ok tx1" using tx_ok_revalidated [OF tx val(1)] by blast
  have "prop_at (wr_current w') v k = Some (merged_value ?e ?reg (prop_at s v k) x)"
    using merge_props_at(1) [OF tx1 val(2), of ?e ?reg "l0_view s"] val(3)
    by (cases "hget (vertex_properties s) v") (simp_all add: prop_at_view view a_join_def)
  moreover have "merged_value ?e ?reg (prop_at s v k) x = merged_value ?e ?reg (newest_prop (wr_current w # rev (wr_chain w)) v k) x"
  proof (cases "prop_at (wr_current w) v k")
    case None
    have "writes_crdt ?e (vertex_properties tx1) v k"
      using map_of_SomeD [OF val(2)] map_of_SomeD [OF val(3)] crdt by (force simp: writes_crdt_def list_ex_iff)
    then have "prop_at s v k = crdt_only ?e (newest_prop (rev (wr_chain w)) v k)"
      using seed_effect [of tx1 "wr_current w" ?e "wr_chain w" v k] None by (simp add: s_def)
    moreover have "merged_value ?e ?reg (crdt_only ?e y) x = merged_value ?e ?reg y x" for y
      using maps by (cases y) (auto simp: merged_value_def crdt_only_def try_as_crdt_def split: option.split if_splits)
    ultimately show ?thesis unfolding newest_prop_Cons None by simp
  next
    case (Some y)
    then have "prop_at s v k = Some y" using seed_effect [of tx1 "wr_current w" ?e "wr_chain w" v k] by (simp add: s_def)
    then show ?thesis unfolding newest_prop_Cons Some by simp
  qed
  ultimately show ?thesis by (simp add: newest_prop_Cons del: newest_prop.simps)
qed

theorem crdt_write_meets_newest_witness:
  "\<exists>c tx' w'. commit_transaction_l0_sequenced set_commit_env True \<lparr>put_result = PutOk, fsync_ok = True, delete_ok = True, segment_uuid = ''u''\<rparr> id
      crdt_tx (idle_writer (l0_new 0 None) [crdt_tx] False) = Some (Inr c, tx', w') \<and>
    newest_prop (wr_current w' # rev (wr_chain w')) (Vid 1) ''c'' = Some (Map [(''merged'', Null)])"
proof -
  let ?io = "\<lparr>put_result = PutOk, fsync_ok = True, delete_ok = True, segment_uuid = ''u''\<rparr>" and ?w = "idle_writer (l0_new 0 None) [crdt_tx] False"
  have env: "ce_l0 set_commit_env = set_env" by (simp add: set_commit_env_def)
  have w: "wal (l0_new 0 None :: unit l0_buffer) = None" "plugin_registry (l0_new 0 None :: unit l0_buffer) = None"
    "vertex_properties (l0_new 0 None :: unit l0_buffer) = []" by (simp_all add: l0_new_def)
  obtain c tx' w' where run: "commit_transaction_l0_sequenced set_commit_env True ?io id crdt_tx ?w = Some (Inr c, tx', w')"
    using crdt_tx_run [OF crdt_tx_ok(3) _ w(1), of "[crdt_tx]" ?io id] crdt_tx_ok(2) by auto
  have "writer_ok ?w" by (rule idle_writer_ok(4)) (simp_all add: crdt_tx_ok)
  moreover have "hget (vertex_properties crdt_tx) (Vid 1) = Some [(''c'', Map [])]" "hget [(''c'', Map [])] ''c'' = Some (Map [])"
    by (simp_all add: crdt_tx_fields)
  moreover have "try_as_crdt set_env (Map []) = Some (GSet gset_new)" "\<forall>y. crdt_of_value set_env y \<noteq> None \<longrightarrow> is_map y"
    by (simp_all add: try_as_crdt_def set_env_def is_map_def)
  moreover have "newest_prop (wr_current ?w # rev (wr_chain ?w)) (Vid 1) ''c'' = Some (Map [])"
    by (simp add: idle_writer_ok w crdt_tx_fields)
  moreover have "merged_value set_env None (Some (Map [])) (Map []) = Map [(''merged'', Null)]"
    by (simp add: merged_value_def try_as_crdt_def set_env_def is_map_def try_merge_def)
  ultimately show ?thesis
    using crdt_write_meets_newest [OF _ crdt_tx_ok(1) run crdt_tx_ok(4), of "Vid 1" "[(''c'', Map [])]" "''c''" "Map []"] run
    by (auto simp: env idle_writer_ok(1) w simp del: newest_prop.simps)
qed

text \<open>
  C22 (\<open>carveout_resurrects\<close>). A transaction that writes only CRDT values has an empty write-set, so it is
  checked against no concurrent commit, and leaves no trace in the registry. If a commit since it
  began has deleted a vertex it writes, it still commits, whatever the registry and its read
  sequence are, and the vertex is back, with the transaction's values.
\<close>

theorem carveout_resurrects:
  assumes ok: "writer_ok w" and tx: "tx_ok tx" and ssi: "wr_ssi w" and empty: "ws_is_empty (from_l0 (ce_l0 env) tx)"
    and same_type: "first_carveout_overwrite (ce_l0 env) tx (wr_current w # wr_chain w) = None"
    and schema: "revalidate_if_stale env tx = (Inr (), tx)" and log: "fst (flush_wal env io between (log_commit env tx w)) = Inr lsn"
    and v: "hget (vertex_properties tx) v = Some p" and deleted: "v \<in> set (vertex_tombstones (wr_current w))"
  shows "\<exists>c tx' w'. commit_transaction_l0_sequenced env True io between tx w = Some (Inr c, tx', w') \<and>
    v \<notin> set (vertex_tombstones (wr_current w')) \<and> hget (vertex_properties (wr_current w')) v \<noteq> None \<and>
    wr_registry w' = wr_registry w \<and> wr_sequence w' = wr_sequence w"
proof -
  note none = empty [unfolded from_l0_empty]
  have occ: "occ_validate (ce_l0 env) tx w = Inr (Some (from_l0 (ce_l0 env) tx))"
    using ssi empty none same_type
    by (simp add: occ_validate_def validate_overlay_def key_taken_def bind_sum_def Let_def del: first_carveout_overwrite.simps)
  have ends: "validate_edge_endpoints_overlay tx w = Inr ()" using none by (simp add: validate_edge_endpoints_overlay_def)
  obtain w1 where fl: "flush_wal env io between (log_commit env tx w) = (Inr lsn, w1)"
    using log by (cases "flush_wal env io between (log_commit env tx w)") auto
  have "writer_ok w1" using ok by (subst logged_frame [OF fl]) (simp add: log_frame)
  moreover have "validate_merge_edge_endpoints (wr_current w1) tx = Inr ()" using none by (simp add: validate_merge_edge_endpoints_def)
  ultimately obtain c tx' w' where "apply_commit env (Some (from_l0 (ce_l0 env) tx)) lsn tx w1 = Some (Inr c, tx', w')"
    using apply_commit_ok [of w1 tx env "Some (from_l0 (ce_l0 env) tx)" lsn] tx by blast
  then have run: "commit_transaction_l0_sequenced env True io between tx w = Some (Inr c, tx', w')"
    by (simp add: commit_transaction_l0_sequenced_def occ ends schema fl)
  note s = commit_success [OF ok tx run]
  have view: "l0_view (wr_current w') = a_merge (ce_l0 env) (plugin_registry (wr_current w)) tx
      (l0_view (seed_crdt_state_from_chain (ce_l0 env) (wr_chain w) tx (wr_current w)))" using s schema by auto
  have "v \<in> fst ` set (vertex_properties tx)" using map_of_SomeD [OF v] by force
  then have "v \<notin> a_vdel (l0_view (wr_current w'))" unfolding view merge_props_at(2) [OF tx v] by blast
  moreover have "a_vprops (l0_view (wr_current w')) v \<noteq> None" unfolding view merge_props_at(1) [OF tx v] by blast
  moreover have "wr_registry w' = wr_registry w \<and> wr_sequence w' = wr_sequence w" using s ssi empty by blast
  ultimately show ?thesis using run by simp
qed

theorem carveout_resurrects_witness:
  "\<exists>cur c tx' w'. l0_run set_env [OpDeleteVertex (Vid 1)] (l0_new 0 None) = Some cur \<and> Vid 1 \<in> set (vertex_tombstones cur) \<and>
    commit_transaction_l0_sequenced set_commit_env True \<lparr>put_result = PutOk, fsync_ok = True, delete_ok = True, segment_uuid = ''u''\<rparr> id
      crdt_tx (idle_writer cur [] True) = Some (Inr c, tx', w') \<and>
    Vid 1 \<notin> set (vertex_tombstones (wr_current w')) \<and> hget (vertex_properties (wr_current w')) (Vid 1) \<noteq> None"
proof -
  let ?io = "\<lparr>put_result = PutOk, fsync_ok = True, delete_ok = True, segment_uuid = ''u''\<rparr>"
  have env: "ce_l0 set_commit_env = set_env" by (simp add: set_commit_env_def)
  obtain cur :: "unit l0_buffer" where cur: "l0_run set_env [OpDeleteVertex (Vid 1)] (l0_new 0 None) = Some cur" "l0_ok cur"
    "l0_view cur = fold (a_step set_env None) [OpDeleteVertex (Vid 1)] a_empty"
    using l0_run_new [of "[OpDeleteVertex (Vid 1)]" set_env 0 None] by auto
  let ?w = "idle_writer cur [] True"
  have view: "a_vdel (l0_view cur) = {Vid 1}" "a_vprops (l0_view cur) = Map.empty" "a_placed (l0_view cur)"
    by (simp_all add: cur(3) a_delete_vertex_def a_empty_def a_placed_def)
  then have gone: "set (vertex_tombstones cur) = {Vid 1}" "\<And>v. hget (vertex_properties cur) v = None"
    by (simp_all add: fun_eq_iff)
  have "wal cur = None" 
    using l0_step_logs [OF l0_ok_new [of 0 None], of "OpDeleteVertex (Vid 1)" set_env] cur(1) by (auto simp: logs_def l0_new_def)
  then have "fst (flush_wal set_commit_env ?io id (log_commit set_commit_env crdt_tx ?w)) = Inr 0"
    by (simp add: flush_wal_def log_commit_def idle_writer_ok(1))
  moreover have "writer_ok ?w" by (rule idle_writer_ok(4)) (simp_all add: buf_ok_def cur(2) props_placed_view view(3))
  moreover have "ws_is_empty (from_l0 set_env crdt_tx)"
    by (simp add: ws_is_empty_def from_l0_def crdt_tx_fields is_crdt_carveout_def try_as_crdt_def) (simp add: set_env_def is_map_def)
  moreover have "first_carveout_overwrite set_env crdt_tx (wr_current ?w # wr_chain ?w) = None"
    by (simp add: idle_writer_ok crdt_carveout_overwrite_def crdt_tx_fields gone)
  moreover have "hget (vertex_properties crdt_tx) (Vid 1) = Some [(''c'', Map [])]" by (simp add: crdt_tx_fields)
  moreover have "Vid 1 \<in> set (vertex_tombstones (wr_current ?w))" "wr_ssi ?w" by (simp_all add: idle_writer_ok gone)
  ultimately show ?thesis
    using carveout_resurrects [OF _ crdt_tx_ok(1) _ _ _ crdt_tx_ok(4), of ?w ?io id 0 "Vid 1" "[(''c'', Map [])]"] cur(1) gone(1)
    unfolding env by blast
qed

end
