(* ===== verification/Publish_Sequencer.thy ===== *)
theory Publish_Sequencer
  imports Prelude
begin

text \<open>
  The sequencer of commit announcements (\<^verbatim>\<open>crates/uni-store/src/runtime/publish_sequencer.rs\<close>). A ticket is
  issued to each commit under the commit lock; announcements leave in ticket order, whatever the
  order in which the tickets are published or dropped. An announcement is a value, and running it
  appends it to \<open>sent\<close>; one that panics is one that has run. The B-tree maps are only accessed by key.
  A waiter sleeps until \<open>notified\<close> changes and then looks again.
\<close>

subsection \<open>The sequencer\<close>

record 'a sequencer =
  issued :: nat
  next_release :: nat
  ready :: "(nat, 'a option \<times> nat) hmap"
  lsns :: "(nat, nat) hmap"
  announced :: nat
  sent :: "'a list"
  notified :: nat

record 'a publish_ticket =
  tk_seq :: nat
  tk_completed :: bool
  tk_abandoned :: "'a option"

definition with_announced_mark :: "nat \<Rightarrow> 'a sequencer" where
  "with_announced_mark mark =
     \<lparr>issued = 0, next_release = 0, ready = [], lsns = [], announced = mark, sent = [], notified = 0\<rparr>"

definition issue_at :: "nat \<Rightarrow> 'a sequencer \<Rightarrow> 'a publish_ticket \<times> 'a sequencer" where
  "issue_at lsn s =
     (let seq = issued s;
          s1 = s\<lparr>issued := issued s + 1\<rparr>;
          s2 = (if lsn > 0 then s1\<lparr>lsns := hput seq lsn (lsns s1)\<rparr> else s1)
      in (\<lparr>tk_seq = seq, tk_completed = False, tk_abandoned = None\<rparr>, s2))"

definition is_drained :: "'a sequencer \<Rightarrow> bool" where
  "is_drained s \<longleftrightarrow> next_release s = issued s"

text \<open>The condition \<open>wait_released\<close> waits for; its target is what was issued when it was called.\<close>

definition released_through :: "nat \<Rightarrow> 'a sequencer \<Rightarrow> bool" where
  "released_through target s \<longleftrightarrow> next_release s \<ge> target"

lemma length_hdel_less: "hget m k = Some v \<Longrightarrow> length (hdel k m) < length m"
  using length_filter_less [of "(k, v)" m "\<lambda>(k', _). k \<noteq> k'"] map_of_SomeD [of m k v] by (auto simp: AList.delete_eq)

text \<open>The loop of \<open>complete\<close>.\<close>

function release_due :: "'a sequencer \<Rightarrow> 'a sequencer" where
  "release_due s =
     (case hget (ready s) (next_release s) of
        None \<Rightarrow> s
      | Some (entry, lsn) \<Rightarrow>
          release_due (s\<lparr>ready := hdel (next_release s) (ready s), next_release := next_release s + 1,
             sent := sent s @ (case entry of Some announce \<Rightarrow> [announce] | None \<Rightarrow> []),
             announced := (if lsn > 0 then max (announced s) lsn else announced s)\<rparr>))"
  by auto
termination by (relation "measure (\<lambda>s. length (ready s))") (auto intro: length_hdel_less)

declare release_due.simps [simp del]

definition complete :: "nat \<Rightarrow> 'a option \<Rightarrow> 'a sequencer \<Rightarrow> 'a sequencer" where
  "complete seq announcement s =
     (let lsn = hget_or 0 (lsns s) seq;
          s1 = s\<lparr>lsns := hdel seq (lsns s), ready := hput seq (announcement, lsn) (ready s)\<rparr>;
          s2 = release_due s1;
          released_any = (next_release s2 \<noteq> next_release s1)
      in if released_any then s2\<lparr>notified := notified s2 + 1\<rparr> else s2)"

subsection \<open>Tickets\<close>

definition on_abandon :: "'a \<Rightarrow> 'a publish_ticket \<Rightarrow> 'a publish_ticket" where
  "on_abandon announce t = t\<lparr>tk_abandoned := Some announce\<rparr>"

definition ticket_drop :: "'a publish_ticket \<Rightarrow> 'a sequencer \<Rightarrow> 'a sequencer" where
  "ticket_drop t s = (if tk_completed t then s else complete (tk_seq t) (tk_abandoned t) s)"

text \<open>\<open>publish\<close> consumes the ticket, which is dropped at its end.\<close>

definition publish :: "'a \<Rightarrow> 'a publish_ticket \<Rightarrow> 'a sequencer \<Rightarrow> 'a sequencer" where
  "publish announce t s =
     (let t1 = t\<lparr>tk_completed := True, tk_abandoned := None\<rparr>
      in ticket_drop t1 (complete (tk_seq t1) (Some announce) s))"

subsection \<open>Holders of tickets\<close>

text \<open>
  The tickets that are held, by sequence number. A ticket is moved into \<open>publish\<close> or dropped once, so
  an event about one that is not held is nothing.
\<close>

record 'a announcer =
  an_seq :: "'a sequencer"
  an_held :: "(nat, 'a publish_ticket) hmap"

datatype 'a publish_event =
    Issue nat
  | OnAbandon nat 'a
  | Publish nat 'a
  | DropTicket nat

fun publish_step :: "'a publish_event \<Rightarrow> 'a announcer \<Rightarrow> 'a announcer" where
  "publish_step (Issue lsn) x =
     (case issue_at lsn (an_seq x) of (t, s) \<Rightarrow> \<lparr>an_seq = s, an_held = hput (tk_seq t) t (an_held x)\<rparr>)"
| "publish_step (OnAbandon q a) x =
     (case hget (an_held x) q of
        None \<Rightarrow> x
      | Some t \<Rightarrow> x\<lparr>an_held := hput q (on_abandon a t) (an_held x)\<rparr>)"
| "publish_step (Publish q a) x =
     (case hget (an_held x) q of
        None \<Rightarrow> x
      | Some t \<Rightarrow> \<lparr>an_seq = publish a t (an_seq x), an_held = hdel q (an_held x)\<rparr>)"
| "publish_step (DropTicket q) x =
     (case hget (an_held x) q of
        None \<Rightarrow> x
      | Some t \<Rightarrow> \<lparr>an_seq = ticket_drop t (an_seq x), an_held = hdel q (an_held x)\<rparr>)"

definition publish_run :: "nat \<Rightarrow> 'a publish_event list \<Rightarrow> 'a announcer" where
  "publish_run mark evs = fold publish_step evs \<lparr>an_seq = with_announced_mark mark, an_held = []\<rparr>"

subsection \<open>Specification\<close>

text \<open>
  A place in the order: its commit's LSN, and whether its ticket is still held (with what it would
  announce if dropped) or done (with what it announces).
\<close>

datatype 'a place = Held "'a option" | Done "'a option"

fun is_done :: "nat \<times> 'a place \<Rightarrow> bool" where
  "is_done (_, Done _) = True"
| "is_done (_, Held _) = False"

fun settle :: "('a option \<Rightarrow> 'a place) \<Rightarrow> nat \<times> 'a place \<Rightarrow> nat \<times> 'a place" where
  "settle f (lsn, Held x) = (lsn, f x)"
| "settle f (lsn, Done x) = (lsn, Done x)"

definition settle_at :: "nat \<Rightarrow> ('a option \<Rightarrow> 'a place) \<Rightarrow> (nat \<times> 'a place) list \<Rightarrow> (nat \<times> 'a place) list" where
  "settle_at q f ps = (if q < length ps then ps[q := settle f (ps ! q)] else ps)"

fun place_step :: "'a publish_event \<Rightarrow> (nat \<times> 'a place) list \<Rightarrow> (nat \<times> 'a place) list" where
  "place_step (Issue lsn) ps = ps @ [(lsn, Held None)]"
| "place_step (OnAbandon q a) ps = settle_at q (\<lambda>_. Held (Some a)) ps"
| "place_step (Publish q a) ps = settle_at q (\<lambda>_. Done (Some a)) ps"
| "place_step (DropTicket q) ps = settle_at q Done ps"

fun announcement :: "nat \<times> 'a place \<Rightarrow> 'a list" where
  "announcement (_, Done (Some a)) = [a]"
| "announcement _ = []"

definition places :: "'a publish_event list \<Rightarrow> (nat \<times> 'a place) list" where
  "places evs = fold place_step evs []"

subsection \<open>The sequencer implements the specification\<close>

text \<open>What the sequencer has released is the first \<open>next_release\<close> places.\<close>

definition seq_inv :: "nat \<Rightarrow> (nat \<times> 'a place) list \<Rightarrow> 'a sequencer \<Rightarrow> bool" where
  "seq_inv mark ps s \<longleftrightarrow> issued s = length ps \<and> next_release s \<le> length ps \<and> list_all is_done (take (next_release s) ps) \<and>
     (\<forall>q. hget (ready s) q =
        (if next_release s \<le> q \<and> q < length ps then case ps ! q of (lsn, Done a) \<Rightarrow> Some (a, lsn) | _ \<Rightarrow> None else None)) \<and>
     (\<forall>q. hget_or 0 (lsns s) q = (if q < length ps \<and> \<not> is_done (ps ! q) then fst (ps ! q) else 0)) \<and>
     sent s = concat (map announcement (take (next_release s) ps)) \<and>
     announced s = fold max (map fst (take (next_release s) ps)) mark"

lemma take_Suc_snoc: "n < length xs \<Longrightarrow> take (Suc n) xs = take n xs @ [xs ! n]"
  by (rule take_Suc_conv_app_nth)

lemma release_due_inv:
  assumes "seq_inv mark ps s"
  shows "seq_inv mark ps (release_due s) \<and> next_release (release_due s) = length (takeWhile is_done ps) \<and>
    next_release s \<le> next_release (release_due s) \<and> notified (release_due s) = notified s"
  using assms
proof (induction s rule: release_due.induct)
  case (1 s)
  let ?n = "next_release s"
  note inv = "1.prems" [unfolded seq_inv_def]
  show ?case
  proof (cases "hget (ready s) ?n")
    case None
    then have stop: "?n = length ps \<or> \<not> is_done (ps ! ?n)"
      using inv by (cases "ps ! ?n"; cases "snd (ps ! ?n)") (auto split: if_splits)
    have "takeWhile is_done ps = take ?n ps"
      using stop inv by (intro takeWhile_eq_take_P_nth) (auto simp: list_all_length)
    then show ?thesis using None "1.prems" inv by (subst release_due.simps) (simp add: release_due.simps [of s])
  next
    case (Some e)
    obtain a lsn where e: "e = (a, lsn)" by (cases e)
    have n: "?n < length ps" "ps ! ?n = (lsn, Done a)"
      using Some inv by (auto simp: e split: if_splits prod.splits place.splits)
    define s' where "s' = s\<lparr>ready := hdel ?n (ready s), next_release := ?n + 1,
             sent := sent s @ (case a of Some announce \<Rightarrow> [announce] | None \<Rightarrow> []),
             announced := (if lsn > 0 then max (announced s) lsn else announced s)\<rparr>"
    have "seq_inv mark ps s'"
      unfolding seq_inv_def
    proof (intro conjI allI)
      show "hget (ready s') q = (if next_release s' \<le> q \<and> q < length ps then case ps ! q of (lsn, Done a) \<Rightarrow> Some (a, lsn) | _ \<Rightarrow> None else None)" for q
        using inv by (auto simp: s'_def)
    qed (use inv n in \<open>auto simp: s'_def take_Suc_snoc max_def split: option.splits\<close>)
    moreover have "release_due s = release_due s'" using Some by (simp add: release_due.simps [of s] e s'_def)
    moreover have "next_release s \<le> next_release s'" "notified s' = notified s" by (simp_all add: s'_def)
    ultimately show ?thesis using "1.IH" [OF Some e [symmetric], folded s'_def] by simp
  qed
qed

text \<open>The whole state: in addition, the tickets held are the places not done.\<close>

definition announcer_inv :: "nat \<Rightarrow> (nat \<times> 'a place) list \<Rightarrow> 'a announcer \<Rightarrow> bool" where
  "announcer_inv mark ps x \<longleftrightarrow> seq_inv mark ps (an_seq x) \<and> next_release (an_seq x) = length (takeWhile is_done ps) \<and>
     (\<forall>q. hget (an_held x) q =
        (if q < length ps then case ps ! q of (_, Held b) \<Rightarrow> Some \<lparr>tk_seq = q, tk_completed = False, tk_abandoned = b\<rparr> | _ \<Rightarrow> None else None))"

lemma complete_inv:
  assumes inv: "seq_inv mark ps s" and q: "q < length ps" "ps ! q = (lsn, Held b)"
  shows "seq_inv mark (ps[q := (lsn, Done a)]) (complete q a s) \<and>
    next_release (complete q a s) = length (takeWhile is_done (ps[q := (lsn, Done a)])) \<and> next_release s \<le> next_release (complete q a s) \<and>
    notified (complete q a s) = notified s + (if next_release s < next_release (complete q a s) then 1 else 0)"
proof -
  let ?ps = "ps[q := (lsn, Done a)]"
  define s1 where "s1 = s\<lparr>lsns := hdel q (lsns s), ready := hput q (a, hget_or 0 (lsns s) q) (ready s)\<rparr>"
  note i = inv [unfolded seq_inv_def]
  have n: "next_release s \<le> q"
  proof (rule ccontr)
    assume "\<not> next_release s \<le> q"
    then have "is_done (ps ! q)" using i q(1) by (auto simp: list_all_length)
    then show False using q(2) by simp
  qed
  have lsn: "hget_or 0 (lsns s) q = lsn" using i q by simp
  have inv1: "seq_inv mark ?ps s1"
    unfolding seq_inv_def
  proof (intro conjI allI)
    show "hget (ready s1) p = (if next_release s1 \<le> p \<and> p < length ?ps then case ?ps ! p of (lsn, Done a) \<Rightarrow> Some (a, lsn) | _ \<Rightarrow> None else None)" for p
      using i n q lsn by (auto simp: s1_def nth_list_update)
    show "hget_or 0 (lsns s1) p = (if p < length ?ps \<and> \<not> is_done (?ps ! p) then fst (?ps ! p) else 0)" for p
      using i by (auto simp: s1_def nth_list_update)
  qed (use i n in \<open>simp_all add: s1_def\<close>)
  have c: "complete q a s = (if next_release (release_due s1) \<noteq> next_release s1
      then (release_due s1)\<lparr>notified := notified (release_due s1) + 1\<rparr> else release_due s1)"
    by (simp add: complete_def s1_def Let_def)
  have fr: "seq_inv mark ?ps (y\<lparr>notified := m\<rparr>) = seq_inv mark ?ps y" for y m by (simp add: seq_inv_def)
  have "next_release s1 = next_release s" "notified s1 = notified s" by (simp_all add: s1_def)
  then show ?thesis using release_due_inv [OF inv1] unfolding c by (auto simp: fr)
qed

lemma takeWhile_settle:
  assumes "q < length ps" "\<not> is_done (ps ! q)" "\<not> is_done x"
  shows "takeWhile is_done (ps[q := x]) = takeWhile is_done ps"
  using assms by (induction ps arbitrary: q) (auto split: nat.splits simp: nth_Cons)

lemma publish_step_inv:
  assumes inv: "announcer_inv mark ps x"
  shows "announcer_inv mark (place_step e ps) (publish_step e x) \<and>
    next_release (an_seq x) \<le> next_release (an_seq (publish_step e x)) \<and>
    notified (an_seq (publish_step e x)) =
      notified (an_seq x) + (if next_release (an_seq x) < next_release (an_seq (publish_step e x)) then 1 else 0)"
proof -
  note i = inv [unfolded announcer_inv_def]
  note si = conjunct1 [OF i, unfolded seq_inv_def]
  have held: "hget (an_held x) q = (if q < length ps then case ps ! q of (_, Held b) \<Rightarrow> Some \<lparr>tk_seq = q, tk_completed = False, tk_abandoned = b\<rparr> | _ \<Rightarrow> None else None)" for q
    using i by blast
  have at: "\<exists>lsn b. q < length ps \<and> ps ! q = (lsn, Held b) \<and> t = \<lparr>tk_seq = q, tk_completed = False, tk_abandoned = b\<rparr>"
    if "hget (an_held x) q = Some t" for q t
    using that held [of q] by (auto split: if_splits prod.splits place.splits)
  have gone: "settle_at q f ps = ps" if "hget (an_held x) q = None" for q f
    using that held [of q] by (cases "ps ! q"; cases "snd (ps ! q)") (auto simp: settle_at_def list_update_same_conv split: if_splits)
  have fin: "announcer_inv mark (settle_at q f ps) \<lparr>an_seq = complete q a (an_seq x), an_held = hdel q (an_held x)\<rparr> \<and>
      next_release (an_seq x) \<le> next_release (complete q a (an_seq x)) \<and>
      notified (complete q a (an_seq x)) = notified (an_seq x) + (if next_release (an_seq x) < next_release (complete q a (an_seq x)) then 1 else 0)"
    if t: "hget (an_held x) q = Some t" and f: "f (tk_abandoned t) = Done a" for q t f a
  proof -
    obtain lsn where q: "q < length ps" "ps ! q = (lsn, Held (tk_abandoned t))" using at [OF t] by auto
    have "settle_at q f ps = ps[q := (lsn, Done a)]" using q f by (simp add: settle_at_def)
    then show ?thesis using complete_inv [OF conjunct1 [OF i] q, of a] held by (auto simp: announcer_inv_def nth_list_update)
  qed
  show ?thesis
  proof (cases e)
    case (Issue lsn)
    have w: "takeWhile is_done (ps @ [(lsn, Held None)]) = takeWhile is_done ps" by (induction ps) simp_all
    let ?ps = "ps @ [(lsn, Held None)]"
    define s2 where "s2 = (if lsn > 0 then (an_seq x)\<lparr>issued := issued (an_seq x) + 1, lsns := hput (length ps) lsn (lsns (an_seq x))\<rparr>
      else (an_seq x)\<lparr>issued := issued (an_seq x) + 1\<rparr>)"
    have same: "next_release s2 = next_release (an_seq x)" "notified s2 = notified (an_seq x)" "ready s2 = ready (an_seq x)"
      "sent s2 = sent (an_seq x)" "announced s2 = announced (an_seq x)" "issued s2 = Suc (length ps)"
      using si by (simp_all add: s2_def)
    have "seq_inv mark ?ps s2"
      unfolding seq_inv_def same
    proof (intro conjI allI)
      show "hget (ready (an_seq x)) q = (if next_release (an_seq x) \<le> q \<and> q < length ?ps
          then case ?ps ! q of (lsn, Done a) \<Rightarrow> Some (a, lsn) | _ \<Rightarrow> None else None)" for q
        using si by (cases "q = length ps") (simp_all add: nth_append less_Suc_eq)
      show "hget_or 0 (lsns s2) q = (if q < length ?ps \<and> \<not> is_done (?ps ! q) then fst (?ps ! q) else 0)" for q
        using si by (cases "q = length ps") (simp_all add: s2_def nth_append less_Suc_eq)
    qed (use si in simp_all)
    moreover have "hget (hput (length ps) \<lparr>tk_seq = length ps, tk_completed = False, tk_abandoned = None\<rparr> (an_held x)) q =
      (if q < length ?ps then case ?ps ! q of (_, Held b) \<Rightarrow> Some \<lparr>tk_seq = q, tk_completed = False, tk_abandoned = b\<rparr> | _ \<Rightarrow> None else None)" for q
      using held [of q] by (cases "q = length ps") (simp_all add: nth_append less_Suc_eq)
    moreover have "publish_step (Issue lsn) x =
        \<lparr>an_seq = s2, an_held = hput (length ps) \<lparr>tk_seq = length ps, tk_completed = False, tk_abandoned = None\<rparr> (an_held x)\<rparr>"
      using si by (simp add: issue_at_def s2_def Let_def)
    ultimately show ?thesis using i by (simp add: Issue announcer_inv_def w same)
  next
    case (OnAbandon q a)
    show ?thesis
    proof (cases "hget (an_held x) q")
      case None
      then show ?thesis using inv by (simp add: OnAbandon gone)
    next
      case (Some t)
      obtain lsn b where q: "q < length ps" "ps ! q = (lsn, Held b)" and t: "t = \<lparr>tk_seq = q, tk_completed = False, tk_abandoned = b\<rparr>"
        using at [OF Some] by blast
      let ?ps = "ps[q := (lsn, Held (Some a))]"
      have n: "next_release (an_seq x) \<le> q"
      proof (rule ccontr)
        assume "\<not> next_release (an_seq x) \<le> q"
        then have "is_done (ps ! q)" using si q(1) by (auto simp: list_all_length)
        then show False using q(2) by simp
      qed
      have "seq_inv mark ?ps (an_seq x)" using si n q by (auto simp: seq_inv_def nth_list_update)
      moreover have "takeWhile is_done ?ps = takeWhile is_done ps" by (rule takeWhile_settle) (simp_all add: q)
      moreover have "settle_at q (\<lambda>_. Held (Some a)) ps = ?ps" using q by (simp add: settle_at_def)
      moreover have "on_abandon a t = \<lparr>tk_seq = q, tk_completed = False, tk_abandoned = Some a\<rparr>" by (simp add: on_abandon_def t)
      moreover have "hget (hput q (on_abandon a t) (an_held x)) p =
        (if p < length ?ps then case ?ps ! p of (_, Held b) \<Rightarrow> Some \<lparr>tk_seq = p, tk_completed = False, tk_abandoned = b\<rparr> | _ \<Rightarrow> None else None)" for p
        using held [of p] q(1) calculation(4) by (cases "p = q") simp_all
      ultimately have "announcer_inv mark ?ps (x\<lparr>an_held := hput q (on_abandon a t) (an_held x)\<rparr>)"
        and "settle_at q (\<lambda>_. Held (Some a)) ps = ?ps" using i by (simp_all add: announcer_inv_def)
      then show ?thesis by (simp add: OnAbandon Some)
    qed
  next
    case (Publish q a)
    show ?thesis
    proof (cases "hget (an_held x) q")
      case None
      then show ?thesis using inv by (simp add: Publish gone)
    next
      case (Some t)
      then have "publish a t (an_seq x) = complete q (Some a) (an_seq x)"
        using at [OF Some] by (auto simp: publish_def ticket_drop_def Let_def)
      then show ?thesis using fin [OF Some, of "\<lambda>_. Done (Some a)" "Some a"] by (simp add: Publish Some)
    qed
  next
    case (DropTicket q)
    show ?thesis
    proof (cases "hget (an_held x) q")
      case None
      then show ?thesis using inv by (simp add: DropTicket gone)
    next
      case (Some t)
      then have "ticket_drop t (an_seq x) = complete q (tk_abandoned t) (an_seq x)"
        using at [OF Some] by (auto simp: ticket_drop_def)
      then show ?thesis using fin [OF Some, of Done "tk_abandoned t"] by (simp add: DropTicket Some)
    qed
  qed
qed

lemma publish_fold_inv:
  assumes "announcer_inv mark ps x"
  shows "announcer_inv mark (fold place_step evs ps) (fold publish_step evs x) \<and>
    next_release (an_seq x) \<le> next_release (an_seq (fold publish_step evs x)) \<and>
    notified (an_seq x) \<le> notified (an_seq (fold publish_step evs x)) \<and>
    (next_release (an_seq x) < next_release (an_seq (fold publish_step evs x)) \<longrightarrow>
       notified (an_seq x) < notified (an_seq (fold publish_step evs x)))"
  using assms
proof (induction evs arbitrary: ps x)
  case (Cons e evs)
  note step = publish_step_inv [OF Cons.prems, of e]
  show ?case using Cons.IH [OF conjunct1 [OF step]] step by (auto split: if_splits)
qed simp

lemma publish_run_inv: "announcer_inv mark (places evs) (publish_run mark evs)"
proof -
  have "announcer_inv mark [] \<lparr>an_seq = with_announced_mark mark, an_held = []\<rparr>"
    by (simp add: announcer_inv_def seq_inv_def with_announced_mark_def hget_or_def)
  then show ?thesis using publish_fold_inv unfolding publish_run_def places_def by blast
qed

lemma announcer_inv_held:
  assumes "announcer_inv mark ps x"
  shows "hget (an_held x) q \<noteq> None \<longleftrightarrow> q < length ps \<and> \<not> is_done (ps ! q)"
proof -
  have "hget (an_held x) q = (if q < length ps then case ps ! q of (_, Held b) \<Rightarrow> Some \<lparr>tk_seq = q, tk_completed = False, tk_abandoned = b\<rparr> | _ \<Rightarrow> None else None)"
    using assms by (simp add: announcer_inv_def)
  then show ?thesis by (cases "ps ! q"; cases "snd (ps ! q)") auto
qed

text \<open>A place that is done stays done, and publishing or dropping a ticket settles its place.\<close>

lemma settle_done [simp]: "is_done p \<Longrightarrow> settle f p = p" "is_done (settle Done p)" "is_done (settle (\<lambda>_. Done a) p)"
  by (cases p; cases "snd p"; simp)+

lemma place_step_done:
  assumes "q < length ps" "is_done (ps ! q)"
  shows "q < length (place_step e ps) \<and> is_done (place_step e ps ! q)"
  using assms by (cases e) (auto simp: settle_at_def nth_append nth_list_update)

lemma place_step_length: "length ps \<le> length (place_step e ps)"
  by (cases e) (simp_all add: settle_at_def)

lemma places_settle:
  assumes "q < length ps" "is_done (ps ! q) \<or> DropTicket q \<in> set evs \<or> (\<exists>a. Publish q a \<in> set evs)"
  shows "q < length (fold place_step evs ps) \<and> is_done (fold place_step evs ps ! q)"
  using assms
proof (induction evs arbitrary: ps)
  case (Cons e evs)
  have "q < length (place_step e ps)" using place_step_length [of ps e] Cons.prems(1) by simp
  moreover have "is_done (place_step e ps ! q)" if "is_done (ps ! q) \<or> e = DropTicket q \<or> (\<exists>a. e = Publish q a)"
    using that place_step_done [OF Cons.prems(1), of e] Cons.prems(1) by (auto simp: settle_at_def)
  ultimately show ?case using Cons.IH [of "place_step e ps"] Cons.prems(2) by auto
qed simp

lemma takeWhile_covers:
  assumes "\<And>q. q < n \<Longrightarrow> q < length ps \<and> P (ps ! q)"
  shows "n \<le> length (takeWhile P ps)"
  using assms
proof (induction n arbitrary: ps)
  case (Suc n)
  obtain p ps' where ps: "ps = p # ps'" using Suc.prems [of 0] by (cases ps) auto
  have "n \<le> length (takeWhile P ps')" by (rule Suc.IH) (use Suc.prems [of "Suc _"] in \<open>auto simp: ps\<close>)
  then show ?case using Suc.prems [of 0] by (simp add: ps)
qed simp

lemma takeWhile_nth_done: "q < length (takeWhile P ps) \<Longrightarrow> P (ps ! q)"
  by (metis nth_mem set_takeWhileD takeWhile_nth)

lemma fold_max_le: "fold max xs (m :: nat) \<le> b \<longleftrightarrow> m \<le> b \<and> (\<forall>x\<in>set xs. x \<le> b)"
  by (induction xs arbitrary: m) auto

lemma fold_max_in: "fold max xs (m :: nat) = m \<or> fold max xs m \<in> set xs"
  by (induction xs arbitrary: m) (auto simp: max_def split: if_splits)

subsection \<open>Order and progress\<close>

text \<open>
  C10 (\<open>announcements_in_order\<close>). Whatever the order in which tickets are issued, published and dropped, what has
  been announced is the announcements of the longest initial run of settled places, in ticket order,
  each once; the announced mark is the highest LSN among them. If the LSNs are issued in increasing order,
  the mark tells the commits that have been announced from those that have not.
\<close>

theorem announcements_in_order:
  fixes mark :: nat and evs :: "'a publish_event list"
  defines "s \<equiv> an_seq (publish_run mark evs)" and "released \<equiv> takeWhile is_done (places evs)"
  shows "sent s = concat (map announcement released) \<and> next_release s = length released \<and> issued s = length (places evs) \<and>
    announced s = fold max (map fst released) mark \<and>
    (sorted_wrt (<) (mark # map fst (places evs)) \<longrightarrow>
       (\<forall>q < length (places evs). fst (places evs ! q) \<le> announced s \<longleftrightarrow> q < next_release s))"
proof -
  let ?ps = "places evs"
  note inv = publish_run_inv [of mark evs, unfolded announcer_inv_def]
  note si = conjunct1 [OF inv, unfolded seq_inv_def]
  have n: "next_release s = length released" using inv by (simp add: s_def released_def)
  have taken: "take (next_release s) ?ps = released" unfolding n released_def by (rule takeWhile_eq_take [symmetric])
  have ann: "announced s = fold max (map fst released) mark" using si taken by (simp add: s_def)
  have "fst (?ps ! q) \<le> announced s \<longleftrightarrow> q < next_release s" if sorted: "sorted_wrt (<) (mark # map fst ?ps)" and q: "q < length ?ps" for q
  proof
    assume "q < next_release s"
    then have "?ps ! q \<in> set released" unfolding n released_def by (metis nth_mem takeWhile_nth)
    then have "fst (?ps ! q) \<in> set (map fst released)" by simp
    then show "fst (?ps ! q) \<le> announced s" using fold_max_le [of "map fst released" mark "announced s"] by (auto simp: ann)
  next
    assume le: "fst (?ps ! q) \<le> announced s"
    show "q < next_release s"
    proof (rule ccontr)
      assume later: "\<not> q < next_release s"
      have srt: "sorted_wrt (<) (map fst ?ps)" "\<forall>p\<in>set ?ps. mark < fst p" using sorted by auto
      have "x < fst (?ps ! q)" if x: "x \<in> set (map fst released)" for x
      proof -
        obtain i where "i < next_release s" "i < length ?ps" "x = fst (?ps ! i)"
          using x unfolding taken [symmetric] by (auto simp: in_set_conv_nth)
        then show ?thesis using sorted_wrt_nth_less [OF srt(1), of i q] later q by simp
      qed
      moreover have "mark < fst (?ps ! q)" using srt(2) q by simp
      ultimately show False using le fold_max_in [of "map fst released" mark] by (metis ann leD)
    qed
  qed
  then show ?thesis using si n taken ann by (simp add: s_def)
qed

theorem announcements_in_order_witness:
  "sent (an_seq (publish_run 0 [Issue 5, Issue 7, Issue 9, Publish 1 ''b'', OnAbandon 0 ''lost'', DropTicket 0])) = [''lost'', ''b''] \<and>
   announced (an_seq (publish_run 0 [Issue 5, Issue 7, Issue 9, Publish 1 ''b'', OnAbandon 0 ''lost'', DropTicket 0])) = 7"
proof -
  let ?evs = "[Issue 5, Issue 7, Issue 9, Publish 1 ''b'', OnAbandon 0 ''lost'', DropTicket 0]"
  have ps: "places ?evs = [(5, Done (Some ''lost'')), (7, Done (Some ''b'')), (9, Held None)]"
    by (simp add: places_def settle_at_def)
  have "sorted_wrt (<) (0 # map fst (places ?evs))" unfolding ps by simp
  then show ?thesis using announcements_in_order [of 0 ?evs] unfolding ps by simp
qed

text \<open>
  C11 (\<open>announcements_drain\<close>). No commit's announcement is held back for ever. A flush waits until every ticket issued
  so far is released. In any continuation in which each ticket held now is published or dropped at some
  time, in whatever order and among whatever new tickets, all of them are released, and if the flush had to wait it
  is woken up. And only then: the condition holds exactly if no earlier ticket is held. When no
  ticket is held at all, nothing is left unannounced.
\<close>

theorem announcements_drain:
  fixes mark :: nat and evs evs' :: "'a publish_event list"
  defines "x \<equiv> publish_run mark evs" and "x' \<equiv> publish_run mark (evs @ evs')"
  shows "((\<forall>q. hget (an_held x) q \<noteq> None \<longrightarrow> DropTicket q \<in> set evs' \<or> (\<exists>a. Publish q a \<in> set evs')) \<longrightarrow>
      released_through (issued (an_seq x)) (an_seq x') \<and>
      (\<not> released_through (issued (an_seq x)) (an_seq x) \<longrightarrow> notified (an_seq x) < notified (an_seq x'))) \<and>
    (\<forall>target \<le> issued (an_seq x). released_through target (an_seq x) \<longleftrightarrow> (\<forall>q < target. hget (an_held x) q = None)) \<and>
    ((\<forall>q. hget (an_held x) q = None) \<longrightarrow> is_drained (an_seq x) \<and> sent (an_seq x) = concat (map announcement (places evs)))"
proof -
  let ?ps = "places evs" and ?ps' = "fold place_step evs' (places evs)"
  note inv = publish_run_inv [of mark evs, folded x_def]
  have x': "x' = fold publish_step evs' x" by (simp add: x'_def x_def publish_run_def)
  note run = publish_fold_inv [OF inv, of evs', folded x']
  have nx: "next_release (an_seq x) = length (takeWhile is_done ?ps)" "next_release (an_seq x') = length (takeWhile is_done ?ps')"
    and issued: "issued (an_seq x) = length ?ps"
    using inv run by (simp_all add: announcer_inv_def seq_inv_def)
  have held: "hget (an_held x) q = None \<longleftrightarrow> \<not> q < length ?ps \<or> is_done (?ps ! q)" for q
    using announcer_inv_held [OF inv, of q] by auto
  have "released_through (issued (an_seq x)) (an_seq x')"
    if "\<forall>q. hget (an_held x) q \<noteq> None \<longrightarrow> DropTicket q \<in> set evs' \<or> (\<exists>a. Publish q a \<in> set evs')"
  proof -
    have "length ?ps \<le> length (takeWhile is_done ?ps')"
      by (rule takeWhile_covers, rule places_settle) (use that held in auto)
    then show ?thesis by (simp add: released_through_def nx issued)
  qed
  moreover have "notified (an_seq x) < notified (an_seq x')"
    if "released_through (issued (an_seq x)) (an_seq x')" "\<not> released_through (issued (an_seq x)) (an_seq x)"
    using that run by (auto simp: released_through_def)
  moreover have iff: "released_through target (an_seq x) \<longleftrightarrow> (\<forall>q < target. hget (an_held x) q = None)" if "target \<le> issued (an_seq x)" for target
  proof
    assume "released_through target (an_seq x)"
    then show "\<forall>q < target. hget (an_held x) q = None"
      using takeWhile_nth_done [of _ is_done ?ps] by (auto simp: released_through_def nx held)
  next
    assume "\<forall>q < target. hget (an_held x) q = None"
    then show "released_through target (an_seq x)" unfolding released_through_def nx
      by (intro takeWhile_covers) (use that held issued in auto)
  qed
  moreover have "is_drained (an_seq x) \<and> sent (an_seq x) = concat (map announcement ?ps)" if "\<forall>q. hget (an_held x) q = None"
  proof -
    have "next_release (an_seq x) = length ?ps"
      using iff [of "length ?ps"] that inv by (simp add: issued released_through_def announcer_inv_def seq_inv_def)
    then show ?thesis using inv by (simp add: is_drained_def issued announcer_inv_def seq_inv_def)
  qed
  ultimately show ?thesis by blast
qed

theorem announcements_drain_witness:
  "sent (an_seq (publish_run 3 [Issue 5, Issue 7, Publish 1 ''b''])) = [] \<and>
   released_through 2 (an_seq (publish_run 3 ([Issue 5, Issue 7, Publish 1 ''b''] @ [Issue 8, DropTicket 0])))"
proof -
  let ?evs = "[Issue 5, Issue 7, Publish 1 ''b'']" and ?evs' = "[Issue 8, DropTicket 0] :: string publish_event list"
  have run: "an_held (publish_run 3 ?evs) = [(0, \<lparr>tk_seq = 0, tk_completed = False, tk_abandoned = None\<rparr>)]"
    "issued (an_seq (publish_run 3 ?evs)) = 2" "sent (an_seq (publish_run 3 ?evs)) = []"
    by (simp_all add: publish_run_def with_announced_mark_def issue_at_def publish_def ticket_drop_def complete_def Let_def release_due.simps hget_or_def)
  have "\<forall>q. hget (an_held (publish_run 3 ?evs)) q \<noteq> None \<longrightarrow> DropTicket q \<in> set ?evs' \<or> (\<exists>a. Publish q a \<in> set ?evs')"
    unfolding run(1) by simp
  then show ?thesis using announcements_drain [of 3 ?evs ?evs'] unfolding run(2,3) by blast
qed

end
