(* ===== verification/Id_Alloc.thy ===== *)
theory Id_Alloc
  imports Occ_Registry
begin

text \<open>
  Allocation of vertex and edge ids (\<^verbatim>\<open>crates/uni-store/src/runtime/id_allocator.rs\<close>) and the cache of ids a
  transaction keeps (\<^verbatim>\<open>id_reservoir.rs\<close>). The counters the object store holds are part of the state. How the store
  answers the writes of an operation is an argument: a write may be refused, or fail, and a failed
  one may have reached the store all the same.
\<close>

subsection \<open>The object store\<close>

record counter_manifest =
  next_vid_batch :: nat
  next_eid_batch :: nat

definition manifest_default :: counter_manifest where
  "manifest_default = \<lparr>next_vid_batch = 0, next_eid_batch = 0\<rparr>"

datatype put_mode = PutOverwrite | PutCreate | PutUpdate nat

datatype put_error = AlreadyExists | Precondition | NotSupported | PutFailed

text \<open>Written, with the entity tag given; or an error, with whether the write has reached the store.\<close>

datatype put_answer = Stored "nat option" | Failed put_error bool

type_synonym put_answers = "put_mode \<Rightarrow> put_answer"

definition put_opts ::
  "put_answers \<Rightarrow> put_mode \<Rightarrow> counter_manifest \<Rightarrow> counter_manifest option \<Rightarrow> (put_error + nat option) \<times> counter_manifest option" where
  "put_opts answers mode m st =
     (case answers mode of
        Stored e_tag \<Rightarrow> (Inr e_tag, Some m)
      | Failed e written \<Rightarrow> (Inl e, if written then Some m else st))"

subsection \<open>The allocator\<close>

record id_allocator =
  al_manifest :: counter_manifest
  manifest_version :: "nat option"
  current_vid :: nat
  current_eid :: nat
  batch_size :: nat

datatype alloc_error = VidSpaceExhausted | EidSpaceExhausted | PersistFailed put_error

definition checked_add :: "nat \<Rightarrow> nat \<Rightarrow> nat option" where
  "checked_add a b = (if a + b < u64_mod then Some (a + b) else None)"

text \<open>The version is the entity tag that came with the object.\<close>

definition id_allocator_new :: "nat \<Rightarrow> nat option \<Rightarrow> counter_manifest option \<Rightarrow> id_allocator" where
  "id_allocator_new batch e_tag st =
     (let (m, version) = (case st of Some m \<Rightarrow> (m, e_tag) | None \<Rightarrow> (manifest_default, None))
      in \<lparr>al_manifest = m, manifest_version = version, current_vid = next_vid_batch m, current_eid = next_eid_batch m,
          batch_size = batch\<rparr>)"

text \<open>Conditional on the version read or written last, or on there being none, where the store supports it.\<close>

definition put_manifest ::
  "put_answers \<Rightarrow> nat option \<Rightarrow> counter_manifest \<Rightarrow> counter_manifest option \<Rightarrow> (put_error + nat option) \<times> counter_manifest option" where
  "put_manifest answers version m st =
     (case version of
        Some v \<Rightarrow>
          (case put_opts answers (PutUpdate v) m st of
             (Inl NotSupported, st') \<Rightarrow> put_opts answers PutOverwrite m st'
           | r \<Rightarrow> r)
      | None \<Rightarrow>
          (case put_opts answers PutCreate m st of
             (Inl AlreadyExists, st') \<Rightarrow> put_opts answers PutOverwrite m st'
           | (Inl NotSupported, st') \<Rightarrow> put_opts answers PutOverwrite m st'
           | r \<Rightarrow> r))"

definition persist_manifest ::
  "put_answers \<Rightarrow> id_allocator \<Rightarrow> counter_manifest option \<Rightarrow> (alloc_error + unit) \<times> id_allocator \<times> counter_manifest option" where
  "persist_manifest answers al st =
     (case put_manifest answers (manifest_version al) (al_manifest al) st of
        (Inl e, st') \<Rightarrow> (Inl (PersistFailed e), al, st')
      | (Inr e_tag, st') \<Rightarrow> (Inr (), al\<lparr>manifest_version := e_tag\<rparr>, st'))"

text \<open>Advance a counter of the manifest durably, or put it back.\<close>

definition reserve_vids ::
  "nat \<Rightarrow> put_answers \<Rightarrow> id_allocator \<Rightarrow> counter_manifest option \<Rightarrow> (alloc_error + unit) \<times> id_allocator \<times> counter_manifest option" where
  "reserve_vids reserved answers al st =
     (let prev = next_vid_batch (al_manifest al)
      in case persist_manifest answers (al\<lparr>al_manifest := (al_manifest al)\<lparr>next_vid_batch := reserved\<rparr>\<rparr>) st of
           (Inl e, al', st') \<Rightarrow> (Inl e, al'\<lparr>al_manifest := (al_manifest al')\<lparr>next_vid_batch := prev\<rparr>\<rparr>, st')
         | r \<Rightarrow> r)"

definition reserve_eids ::
  "nat \<Rightarrow> put_answers \<Rightarrow> id_allocator \<Rightarrow> counter_manifest option \<Rightarrow> (alloc_error + unit) \<times> id_allocator \<times> counter_manifest option" where
  "reserve_eids reserved answers al st =
     (let prev = next_eid_batch (al_manifest al)
      in case persist_manifest answers (al\<lparr>al_manifest := (al_manifest al)\<lparr>next_eid_batch := reserved\<rparr>\<rparr>) st of
           (Inl e, al', st') \<Rightarrow> (Inl e, al'\<lparr>al_manifest := (al_manifest al')\<lparr>next_eid_batch := prev\<rparr>\<rparr>, st')
         | r \<Rightarrow> r)"

text \<open>The check of the batch that \<open>allocate_vid\<close> and \<open>allocate_vids\<close> begin with.\<close>

definition ensure_vids ::
  "bool \<Rightarrow> nat option \<Rightarrow> put_answers \<Rightarrow> id_allocator \<Rightarrow> counter_manifest option \<Rightarrow> (alloc_error + unit) \<times> id_allocator \<times> counter_manifest option" where
  "ensure_vids exhausted reserved answers al st =
     (if exhausted
      then case reserved of
             None \<Rightarrow> (Inl VidSpaceExhausted, al, st)
           | Some n \<Rightarrow> reserve_vids n answers al st
      else (Inr (), al, st))"

definition allocate_vid ::
  "put_answers \<Rightarrow> id_allocator \<Rightarrow> counter_manifest option \<Rightarrow> (alloc_error + vid) \<times> id_allocator \<times> counter_manifest option" where
  "allocate_vid answers al st =
     (case ensure_vids (current_vid al \<ge> next_vid_batch (al_manifest al)) (checked_add (current_vid al) (batch_size al)) answers al st of
        (Inl e, al', st') \<Rightarrow> (Inl e, al', st')
      | (Inr _, al', st') \<Rightarrow> (Inr (Vid (of_nat (current_vid al'))), al'\<lparr>current_vid := current_vid al' + 1\<rparr>, st'))"

definition allocate_vids ::
  "nat \<Rightarrow> put_answers \<Rightarrow> id_allocator \<Rightarrow> counter_manifest option \<Rightarrow> (alloc_error + vid list) \<times> id_allocator \<times> counter_manifest option" where
  "allocate_vids needed answers al st =
     (case checked_add (current_vid al) needed of
        None \<Rightarrow> (Inl VidSpaceExhausted, al, st)
      | Some want \<Rightarrow>
          (case ensure_vids (want > next_vid_batch (al_manifest al)) (checked_add want (batch_size al)) answers al st of
             (Inl e, al', st') \<Rightarrow> (Inl e, al', st')
           | (Inr _, al', st') \<Rightarrow>
               (Inr (map (\<lambda>i. Vid (of_nat (current_vid al' + i))) [0..<needed]),
                al'\<lparr>current_vid := current_vid al' + needed\<rparr>, st')))"

text \<open>The check of the batch that \<open>allocate_eid\<close> and \<open>allocate_eids\<close> begin with.\<close>

definition ensure_eids ::
  "bool \<Rightarrow> nat option \<Rightarrow> put_answers \<Rightarrow> id_allocator \<Rightarrow> counter_manifest option \<Rightarrow> (alloc_error + unit) \<times> id_allocator \<times> counter_manifest option" where
  "ensure_eids exhausted reserved answers al st =
     (if exhausted
      then case reserved of
             None \<Rightarrow> (Inl EidSpaceExhausted, al, st)
           | Some n \<Rightarrow> reserve_eids n answers al st
      else (Inr (), al, st))"

definition allocate_eid ::
  "put_answers \<Rightarrow> id_allocator \<Rightarrow> counter_manifest option \<Rightarrow> (alloc_error + eid) \<times> id_allocator \<times> counter_manifest option" where
  "allocate_eid answers al st =
     (case ensure_eids (current_eid al \<ge> next_eid_batch (al_manifest al)) (checked_add (current_eid al) (batch_size al)) answers al st of
        (Inl e, al', st') \<Rightarrow> (Inl e, al', st')
      | (Inr _, al', st') \<Rightarrow> (Inr (Eid (of_nat (current_eid al'))), al'\<lparr>current_eid := current_eid al' + 1\<rparr>, st'))"

definition allocate_eids ::
  "nat \<Rightarrow> put_answers \<Rightarrow> id_allocator \<Rightarrow> counter_manifest option \<Rightarrow> (alloc_error + eid list) \<times> id_allocator \<times> counter_manifest option" where
  "allocate_eids needed answers al st =
     (case checked_add (current_eid al) needed of
        None \<Rightarrow> (Inl EidSpaceExhausted, al, st)
      | Some want \<Rightarrow>
          (case ensure_eids (want > next_eid_batch (al_manifest al)) (checked_add want (batch_size al)) answers al st of
             (Inl e, al', st') \<Rightarrow> (Inl e, al', st')
           | (Inr _, al', st') \<Rightarrow>
               (Inr (map (\<lambda>i. Eid (of_nat (current_eid al' + i))) [0..<needed]),
                al'\<lparr>current_eid := current_eid al' + needed\<rparr>, st')))"

definition current_hwm :: "id_allocator \<Rightarrow> nat \<times> nat" where
  "current_hwm al = (current_vid al, current_eid al)"

text \<open>A store of its own, in memory, whose counters start at the given ids.\<close>

definition in_memory_seeded :: "nat option \<Rightarrow> nat \<Rightarrow> nat \<Rightarrow> nat \<Rightarrow> id_allocator \<times> counter_manifest option" where
  "in_memory_seeded e_tag vid_hwm eid_hwm batch =
     (let st = Some \<lparr>next_vid_batch = vid_hwm, next_eid_batch = eid_hwm\<rparr>
      in (id_allocator_new batch e_tag st, st))"

definition checkpoint :: "put_answers \<Rightarrow> id_allocator \<Rightarrow> counter_manifest option \<Rightarrow> (alloc_error + unit) \<times> id_allocator \<times> counter_manifest option" where
  "checkpoint answers al st =
     (let m = al_manifest al;
          m1 = (if next_vid_batch m < current_vid al then m\<lparr>next_vid_batch := current_vid al\<rparr> else m);
          m2 = (if next_eid_batch m1 < current_eid al then m1\<lparr>next_eid_batch := current_eid al\<rparr> else m1)
      in persist_manifest answers (al\<lparr>al_manifest := m2\<rparr>) st)"

subsection \<open>The reservoir of a transaction\<close>

record reservoir =
  rv_vids :: "vid list"
  rv_eids :: "eid list"
  rv_batch :: nat

definition DEFAULT_RESERVOIR_BATCH :: nat where
  "DEFAULT_RESERVOIR_BATCH = 16"

definition reservoir_new :: "nat \<Rightarrow> reservoir" where
  "reservoir_new batch = \<lparr>rv_vids = [], rv_eids = [], rv_batch = (if batch = 0 then DEFAULT_RESERVOIR_BATCH else batch)\<rparr>"

text \<open>\<open>None\<close> is the panic of \<open>remove(0)\<close> on an empty batch.\<close>

definition reservoir_next_vid ::
  "put_answers \<Rightarrow> reservoir \<Rightarrow> id_allocator \<Rightarrow> counter_manifest option \<Rightarrow> ((alloc_error + vid) \<times> reservoir \<times> id_allocator \<times> counter_manifest option) option" where
  "reservoir_next_vid answers r al st =
     (case rv_vids r of
        v # vs \<Rightarrow> Some (Inr v, r\<lparr>rv_vids := vs\<rparr>, al, st)
      | [] \<Rightarrow>
          (case allocate_vids (rv_batch r) answers al st of
             (Inl e, al', st') \<Rightarrow> Some (Inl e, r, al', st')
           | (Inr [], _, _) \<Rightarrow> None
           | (Inr (first # batch), al', st') \<Rightarrow> Some (Inr first, r\<lparr>rv_vids := rv_vids r @ batch\<rparr>, al', st')))"

definition reservoir_next_eid ::
  "put_answers \<Rightarrow> reservoir \<Rightarrow> id_allocator \<Rightarrow> counter_manifest option \<Rightarrow> ((alloc_error + eid) \<times> reservoir \<times> id_allocator \<times> counter_manifest option) option" where
  "reservoir_next_eid answers r al st =
     (case rv_eids r of
        v # vs \<Rightarrow> Some (Inr v, r\<lparr>rv_eids := vs\<rparr>, al, st)
      | [] \<Rightarrow>
          (case allocate_eids (rv_batch r) answers al st of
             (Inl e, al', st') \<Rightarrow> Some (Inl e, r, al', st')
           | (Inr [], _, _) \<Rightarrow> None
           | (Inr (first # batch), al', st') \<Rightarrow> Some (Inr first, r\<lparr>rv_eids := rv_eids r @ batch\<rparr>, al', st')))"

subsection \<open>A database and its restarts\<close>

text \<open>
  The ids handed out so far, by the allocator or by a reservoir. \<open>Reopen\<close> is a restart: the reservoirs
  are gone, and the allocator starts from what the store has.
\<close>

record id_system =
  sy_alloc :: id_allocator
  sy_store :: "counter_manifest option"
  sy_reservoirs :: "reservoir list"
  sy_vids :: "vid list"
  sy_eids :: "eid list"

datatype id_event =
    AllocVid put_answers
  | AllocVids nat put_answers
  | AllocEid put_answers
  | AllocEids nat put_answers
  | Checkpoint put_answers
  | NewReservoir nat
  | NextVid nat put_answers
  | NextEid nat put_answers
  | Reopen "nat option"

definition give_vids :: "(alloc_error + vid list) \<times> id_allocator \<times> counter_manifest option \<Rightarrow> id_system \<Rightarrow> id_system" where
  "give_vids x s = (case x of (r, al, st) \<Rightarrow>
     s\<lparr>sy_alloc := al, sy_store := st, sy_vids := sy_vids s @ (case r of Inl _ \<Rightarrow> [] | Inr vs \<Rightarrow> vs)\<rparr>)"

definition give_eids :: "(alloc_error + eid list) \<times> id_allocator \<times> counter_manifest option \<Rightarrow> id_system \<Rightarrow> id_system" where
  "give_eids x s = (case x of (r, al, st) \<Rightarrow>
     s\<lparr>sy_alloc := al, sy_store := st, sy_eids := sy_eids s @ (case r of Inl _ \<Rightarrow> [] | Inr vs \<Rightarrow> vs)\<rparr>)"

fun id_step :: "id_event \<Rightarrow> id_system \<Rightarrow> id_system option" where
  "id_step (AllocVid answers) s =
     Some (give_vids (apfst (map_sum id (\<lambda>v. [v])) (allocate_vid answers (sy_alloc s) (sy_store s))) s)"
| "id_step (AllocVids n answers) s = Some (give_vids (allocate_vids n answers (sy_alloc s) (sy_store s)) s)"
| "id_step (AllocEid answers) s =
     Some (give_eids (apfst (map_sum id (\<lambda>v. [v])) (allocate_eid answers (sy_alloc s) (sy_store s))) s)"
| "id_step (AllocEids n answers) s = Some (give_eids (allocate_eids n answers (sy_alloc s) (sy_store s)) s)"
| "id_step (Checkpoint answers) s =
     (case checkpoint answers (sy_alloc s) (sy_store s) of (_, al, st) \<Rightarrow> Some (s\<lparr>sy_alloc := al, sy_store := st\<rparr>))"
| "id_step (NewReservoir n) s = Some (s\<lparr>sy_reservoirs := sy_reservoirs s @ [reservoir_new n]\<rparr>)"
| "id_step (NextVid i answers) s =
     (if i < length (sy_reservoirs s)
      then map_option (\<lambda>(r, rv, al, st). give_vids (map_sum id (\<lambda>v. [v]) r, al, st) (s\<lparr>sy_reservoirs := (sy_reservoirs s)[i := rv]\<rparr>))
             (reservoir_next_vid answers (sy_reservoirs s ! i) (sy_alloc s) (sy_store s))
      else Some s)"
| "id_step (NextEid i answers) s =
     (if i < length (sy_reservoirs s)
      then map_option (\<lambda>(r, rv, al, st). give_eids (map_sum id (\<lambda>v. [v]) r, al, st) (s\<lparr>sy_reservoirs := (sy_reservoirs s)[i := rv]\<rparr>))
             (reservoir_next_eid answers (sy_reservoirs s ! i) (sy_alloc s) (sy_store s))
      else Some s)"
| "id_step (Reopen e_tag) s =
     Some (s\<lparr>sy_alloc := id_allocator_new (batch_size (sy_alloc s)) e_tag (sy_store s), sy_reservoirs := []\<rparr>)"

fun id_run :: "id_event list \<Rightarrow> id_system \<Rightarrow> id_system option" where
  "id_run [] s = Some s"
| "id_run (e # es) s = Option.bind (id_step e s) (id_run es)"

definition id_open :: "nat \<Rightarrow> nat option \<Rightarrow> counter_manifest option \<Rightarrow> id_system" where
  "id_open batch e_tag st = \<lparr>sy_alloc = id_allocator_new batch e_tag st, sy_store = st, sy_reservoirs = [], sy_vids = [], sy_eids = []\<rparr>"

subsection \<open>What is durable\<close>

definition durable :: "counter_manifest option \<Rightarrow> counter_manifest" where
  "durable st = (case st of None \<Rightarrow> manifest_default | Some m \<Rightarrow> m)"

definition manifest_ok :: "counter_manifest \<Rightarrow> bool" where
  "manifest_ok m \<longleftrightarrow> next_vid_batch m < u64_mod \<and> next_eid_batch m < u64_mod"

definition alloc_ok :: "id_allocator \<Rightarrow> counter_manifest option \<Rightarrow> bool" where
  "alloc_ok al st \<longleftrightarrow> current_vid al \<le> next_vid_batch (al_manifest al) \<and> current_eid al \<le> next_eid_batch (al_manifest al) \<and>
     next_vid_batch (al_manifest al) \<le> next_vid_batch (durable st) \<and> next_eid_batch (al_manifest al) \<le> next_eid_batch (durable st) \<and>
     manifest_ok (durable st) \<and> 0 < batch_size al"

lemma alloc_ok_new: "manifest_ok (durable st) \<Longrightarrow> 0 < batch \<Longrightarrow> alloc_ok (id_allocator_new batch e_tag st) st"
  by (auto simp: alloc_ok_def id_allocator_new_def durable_def split: option.splits)

lemma put_opts_cases:
  assumes "put_opts answers mode m st = (r, st')"
  shows "case r of Inl _ \<Rightarrow> durable st' = durable st \<or> durable st' = m | Inr _ \<Rightarrow> durable st' = m"
  using assms by (auto simp: put_opts_def durable_def split: put_answer.splits if_splits)

text \<open>Whatever is tried, the object is unchanged or holds the counters; it holds them after a success.\<close>

lemma put_manifest_cases:
  assumes "put_manifest answers version m st = (r, st')"
  shows "case r of Inl _ \<Rightarrow> durable st' = durable st \<or> durable st' = m | Inr _ \<Rightarrow> durable st' = m"
proof -
  define mode where "mode = (case version of Some v \<Rightarrow> PutUpdate v | None \<Rightarrow> PutCreate)"
  obtain r1 st1 where 1: "put_opts answers mode m st = (r1, st1)" by (cases "put_opts answers mode m st")
  have "(r, st') = (r1, st1) \<or> put_opts answers PutOverwrite m st1 = (r, st')"
    using assms 1 by (cases r1; cases "projl r1") (auto simp: put_manifest_def mode_def split: option.splits)
  moreover have "durable st1 = durable st \<or> durable st1 = m" using put_opts_cases [OF 1] by (auto split: sum.splits)
  ultimately show ?thesis using put_opts_cases [OF 1] put_opts_cases [of answers PutOverwrite m st1 r st'] by (auto split: sum.splits)
qed

lemma persist_cases:
  assumes "persist_manifest answers al st = (r, al', st')"
  shows "\<exists>version. al' = al\<lparr>manifest_version := version\<rparr>"
    "case r of Inl _ \<Rightarrow> durable st' = durable st \<or> durable st' = al_manifest al | Inr _ \<Rightarrow> durable st' = al_manifest al"
proof -
  obtain x st1 where p: "put_manifest answers (manifest_version al) (al_manifest al) st = (x, st1)"
    by (cases "put_manifest answers (manifest_version al) (al_manifest al) st")
  have "case x of Inl _ \<Rightarrow> durable st1 = durable st \<or> durable st1 = al_manifest al | Inr _ \<Rightarrow> durable st1 = al_manifest al"
    by (rule put_manifest_cases [OF p])
  then show "case r of Inl _ \<Rightarrow> durable st' = durable st \<or> durable st' = al_manifest al | Inr _ \<Rightarrow> durable st' = al_manifest al"
    using assms by (auto simp: persist_manifest_def p split: sum.splits)
  show "\<exists>version. al' = al\<lparr>manifest_version := version\<rparr>"
    using assms by (cases x) (auto simp: persist_manifest_def p intro: exI [of _ "manifest_version al"])
qed

text \<open>A reservation that succeeds is durable; one that fails leaves the allocator as it was.\<close>

lemma reserve_vids_ok:
  assumes ok: "alloc_ok al st" and n: "next_vid_batch (al_manifest al) \<le> reserved" "reserved < u64_mod"
    and run: "reserve_vids reserved answers al st = (r, al', st')"
  shows "alloc_ok al' st' \<and> current_vid al' = current_vid al \<and> current_eid al' = current_eid al \<and> batch_size al' = batch_size al \<and>
    (case r of Inl _ \<Rightarrow> True | Inr _ \<Rightarrow> next_vid_batch (al_manifest al') = reserved)"
proof -
  let ?al = "al\<lparr>al_manifest := (al_manifest al)\<lparr>next_vid_batch := reserved\<rparr>\<rparr>"
  obtain x al1 st1 where p: "persist_manifest answers ?al st = (x, al1, st1)" by (cases "persist_manifest answers ?al st") auto
  obtain ver where al1: "al1 = ?al\<lparr>manifest_version := ver\<rparr>" using persist_cases(1) [OF p] by blast
  show ?thesis
    using persist_cases(2) [OF p] run ok n
    by (cases x) (auto simp: reserve_vids_def p al1 alloc_ok_def manifest_ok_def)
qed

lemma reserve_eids_ok:
  assumes ok: "alloc_ok al st" and n: "next_eid_batch (al_manifest al) \<le> reserved" "reserved < u64_mod"
    and run: "reserve_eids reserved answers al st = (r, al', st')"
  shows "alloc_ok al' st' \<and> current_vid al' = current_vid al \<and> current_eid al' = current_eid al \<and> batch_size al' = batch_size al \<and>
    (case r of Inl _ \<Rightarrow> True | Inr _ \<Rightarrow> next_eid_batch (al_manifest al') = reserved)"
proof -
  let ?al = "al\<lparr>al_manifest := (al_manifest al)\<lparr>next_eid_batch := reserved\<rparr>\<rparr>"
  obtain x al1 st1 where p: "persist_manifest answers ?al st = (x, al1, st1)" by (cases "persist_manifest answers ?al st") auto
  obtain ver where al1: "al1 = ?al\<lparr>manifest_version := ver\<rparr>" using persist_cases(1) [OF p] by blast
  show ?thesis
    using persist_cases(2) [OF p] run ok n
    by (cases x) (auto simp: reserve_eids_def p al1 alloc_ok_def manifest_ok_def)
qed

text \<open>What an allocation gives: the next ids, none of which is \<open>u64::MAX\<close>.\<close>

definition granted :: "('e + nat) \<Rightarrow> (id_allocator \<Rightarrow> nat) \<Rightarrow> (id_allocator \<Rightarrow> nat) \<Rightarrow> id_allocator \<Rightarrow> id_allocator \<Rightarrow> bool" where
  "granted r cur other al al' \<longleftrightarrow> other al' = other al \<and> batch_size al' = batch_size al \<and>
     (case r of Inl _ \<Rightarrow> cur al' = cur al | Inr n \<Rightarrow> cur al' = cur al + n \<and> cur al + n < u64_mod)"

lemma ensure_vids_ok:
  assumes ok: "alloc_ok al st" and run: "ensure_vids exhausted (checked_add want (batch_size al)) answers al st = (r, al', st')"
    and more: "exhausted \<Longrightarrow> next_vid_batch (al_manifest al) \<le> want"
  shows "alloc_ok al' st' \<and> current_vid al' = current_vid al \<and> current_eid al' = current_eid al \<and> batch_size al' = batch_size al \<and>
    (\<forall>u. r = Inr u \<longrightarrow> exhausted \<longrightarrow> want < next_vid_batch (al_manifest al')) \<and> (\<not> exhausted \<longrightarrow> al' = al)"
proof (cases "exhausted \<and> want + batch_size al < u64_mod")
  case True
  then have p: "reserve_vids (want + batch_size al) answers al st = (r, al', st')" and n: "next_vid_batch (al_manifest al) \<le> want + batch_size al"
    using run more by (simp_all add: ensure_vids_def checked_add_def)
  show ?thesis using reserve_vids_ok [OF ok n conjunct2 [OF True] p] True ok by (auto simp: alloc_ok_def)
next
  case False
  then show ?thesis using run ok by (auto simp: ensure_vids_def checked_add_def split: if_splits)
qed

lemma allocate_vid_ok:
  assumes ok: "alloc_ok al st" and run: "allocate_vid answers al st = (r, al', st')"
  shows "alloc_ok al' st' \<and> granted (map_sum id (\<lambda>_. 1) r) current_vid current_eid al al' \<and>
    (\<forall>v. r = Inr v \<longrightarrow> v = Vid (of_nat (current_vid al)))"
proof -
  let ?ex = "current_vid al \<ge> next_vid_batch (al_manifest al)"
  obtain x al1 st1 where p: "ensure_vids ?ex (checked_add (current_vid al) (batch_size al)) answers al st = (x, al1, st1)"
    by (cases "ensure_vids ?ex (checked_add (current_vid al) (batch_size al)) answers al st") auto
  note e = ensure_vids_ok [OF ok p]
  show ?thesis using e run by (cases x) (auto simp: allocate_vid_def p granted_def alloc_ok_def manifest_ok_def)
qed

lemma allocate_vids_ok:
  assumes ok: "alloc_ok al st" and run: "allocate_vids n answers al st = (r, al', st')"
  shows "alloc_ok al' st' \<and> granted (map_sum id (\<lambda>_. n) r) current_vid current_eid al al' \<and>
    (\<forall>vs. r = Inr vs \<longrightarrow> vs = map (\<lambda>i. Vid (of_nat (current_vid al + i))) [0..<n])"
proof (cases "current_vid al + n < u64_mod")
  case True
  let ?ex = "current_vid al + n > next_vid_batch (al_manifest al)"
  obtain x al1 st1 where p: "ensure_vids ?ex (checked_add (current_vid al + n) (batch_size al)) answers al st = (x, al1, st1)"
    by (cases "ensure_vids ?ex (checked_add (current_vid al + n) (batch_size al)) answers al st") auto
  note e = ensure_vids_ok [OF ok p]
  have "allocate_vids n answers al st = (case (x, al1, st1) of (Inl e, al', st') \<Rightarrow> (Inl e, al', st')
      | (Inr _, al', st') \<Rightarrow> (Inr (map (\<lambda>i. Vid (of_nat (current_vid al' + i))) [0..<n]), al'\<lparr>current_vid := current_vid al' + n\<rparr>, st'))"
    using True by (simp add: allocate_vids_def checked_add_def flip: p)
  then show ?thesis using e run True by (cases x) (auto simp: granted_def alloc_ok_def manifest_ok_def)
qed (use run ok in \<open>auto simp: allocate_vids_def checked_add_def granted_def\<close>)

lemma ensure_eids_ok:
  assumes ok: "alloc_ok al st" and run: "ensure_eids exhausted (checked_add want (batch_size al)) answers al st = (r, al', st')"
    and more: "exhausted \<Longrightarrow> next_eid_batch (al_manifest al) \<le> want"
  shows "alloc_ok al' st' \<and> current_eid al' = current_eid al \<and> current_vid al' = current_vid al \<and> batch_size al' = batch_size al \<and>
    (\<forall>u. r = Inr u \<longrightarrow> exhausted \<longrightarrow> want < next_eid_batch (al_manifest al')) \<and> (\<not> exhausted \<longrightarrow> al' = al)"
proof (cases "exhausted \<and> want + batch_size al < u64_mod")
  case True
  then have p: "reserve_eids (want + batch_size al) answers al st = (r, al', st')" and n: "next_eid_batch (al_manifest al) \<le> want + batch_size al"
    using run more by (simp_all add: ensure_eids_def checked_add_def)
  show ?thesis using reserve_eids_ok [OF ok n conjunct2 [OF True] p] True ok by (auto simp: alloc_ok_def)
next
  case False
  then show ?thesis using run ok by (auto simp: ensure_eids_def checked_add_def split: if_splits)
qed

lemma allocate_eid_ok:
  assumes ok: "alloc_ok al st" and run: "allocate_eid answers al st = (r, al', st')"
  shows "alloc_ok al' st' \<and> granted (map_sum id (\<lambda>_. 1) r) current_eid current_vid al al' \<and>
    (\<forall>v. r = Inr v \<longrightarrow> v = Eid (of_nat (current_eid al)))"
proof -
  let ?ex = "current_eid al \<ge> next_eid_batch (al_manifest al)"
  obtain x al1 st1 where p: "ensure_eids ?ex (checked_add (current_eid al) (batch_size al)) answers al st = (x, al1, st1)"
    by (cases "ensure_eids ?ex (checked_add (current_eid al) (batch_size al)) answers al st") auto
  note e = ensure_eids_ok [OF ok p]
  show ?thesis using e run by (cases x) (auto simp: allocate_eid_def p granted_def alloc_ok_def manifest_ok_def)
qed

lemma allocate_eids_ok:
  assumes ok: "alloc_ok al st" and run: "allocate_eids n answers al st = (r, al', st')"
  shows "alloc_ok al' st' \<and> granted (map_sum id (\<lambda>_. n) r) current_eid current_vid al al' \<and>
    (\<forall>vs. r = Inr vs \<longrightarrow> vs = map (\<lambda>i. Eid (of_nat (current_eid al + i))) [0..<n])"
proof (cases "current_eid al + n < u64_mod")
  case True
  let ?ex = "current_eid al + n > next_eid_batch (al_manifest al)"
  obtain x al1 st1 where p: "ensure_eids ?ex (checked_add (current_eid al + n) (batch_size al)) answers al st = (x, al1, st1)"
    by (cases "ensure_eids ?ex (checked_add (current_eid al + n) (batch_size al)) answers al st") auto
  note e = ensure_eids_ok [OF ok p]
  have "allocate_eids n answers al st = (case (x, al1, st1) of (Inl e, al', st') \<Rightarrow> (Inl e, al', st')
      | (Inr _, al', st') \<Rightarrow> (Inr (map (\<lambda>i. Eid (of_nat (current_eid al' + i))) [0..<n]), al'\<lparr>current_eid := current_eid al' + n\<rparr>, st'))"
    using True by (simp add: allocate_eids_def checked_add_def flip: p)
  then show ?thesis using e run True by (cases x) (auto simp: granted_def alloc_ok_def manifest_ok_def)
qed (use run ok in \<open>auto simp: allocate_eids_def checked_add_def granted_def\<close>)

lemma checkpoint_ok:
  assumes ok: "alloc_ok al st" and run: "checkpoint answers al st = (r, al', st')"
  shows "alloc_ok al' st' \<and> current_vid al' = current_vid al \<and> current_eid al' = current_eid al \<and> batch_size al' = batch_size al"
proof -
  have p: "persist_manifest answers al st = (r, al', st')" using run ok by (simp add: checkpoint_def alloc_ok_def Let_def)
  obtain ver where "al' = al\<lparr>manifest_version := ver\<rparr>" using persist_cases(1) [OF p] by blast
  then show ?thesis using persist_cases(2) [OF p] ok by (cases r) (auto simp: alloc_ok_def manifest_ok_def)
qed

subsection \<open>Ids in use\<close>

text \<open>Distinct numbers in an interval.\<close>

definition ids_in :: "('a \<Rightarrow> nat) \<Rightarrow> nat \<Rightarrow> nat \<Rightarrow> 'a list \<Rightarrow> bool" where
  "ids_in num lo hi xs \<longleftrightarrow> distinct (map num xs) \<and> (\<forall>x\<in>set xs. lo \<le> num x \<and> num x < hi) \<and> lo \<le> hi"

lemma ids_in_mset: "mset xs = mset ys \<Longrightarrow> ids_in num lo hi xs = ids_in num lo hi ys"
proof -
  assume m: "mset xs = mset ys"
  then have "mset (map num xs) = mset (map num ys)" by simp
  then have "distinct (map num xs) = distinct (map num ys)" by (rule mset_eq_imp_distinct_iff)
  then show ?thesis using mset_eq_setD [OF m] by (simp add: ids_in_def)
qed

lemma ids_in_append: "ids_in num lo mid xs \<Longrightarrow> ids_in num mid hi ys \<Longrightarrow> ids_in num lo hi (xs @ ys)"
  unfolding ids_in_def by (auto simp: disjoint_iff) fastforce+

lemma ids_in_prefix: "ids_in num lo hi (xs @ ys) \<Longrightarrow> hi \<le> hi' \<Longrightarrow> ids_in num lo hi' xs"
  unfolding ids_in_def by (auto intro: less_le_trans)

lemma ids_in_interval:
  assumes "\<And>i. i < n \<Longrightarrow> num (f i) = lo + i"
  shows "ids_in num lo (lo + n) (map f [0..<n])"
proof -
  have "map num (map f [0..<n]) = map (\<lambda>i. lo + i) [0..<n]" using assms by simp
  moreover have "distinct (map (\<lambda>i. lo + i) [0..<n])" by (simp add: distinct_map inj_on_def)
  ultimately have "distinct (map num (map f [0..<n]))" by metis
  then show ?thesis using assms unfolding ids_in_def by auto
qed

definition vid_num :: "vid \<Rightarrow> nat" where
  "vid_num v = unat (vid_as_u64 v)"

definition eid_num :: "eid \<Rightarrow> nat" where
  "eid_num v = unat (eid_as_u64 v)"

lemma num_of_nat [simp]: "n < u64_mod \<Longrightarrow> vid_num (Vid (of_nat n)) = n" "n < u64_mod \<Longrightarrow> eid_num (Eid (of_nat n)) = n"
  by (simp_all add: vid_num_def eid_num_def u64_mod_def unat_of_nat take_bit_eq_mod take_bit_nat_eq_self)

text \<open>The ids in a list of caches after one of them changed.\<close>

lemma mset_concat_update:
  "i < length rs \<Longrightarrow> mset (concat (map f (rs[i := r]))) + mset (f (rs ! i)) = mset (concat (map f rs)) + mset (f r)"
proof (induction rs arbitrary: i)
  case (Cons r' rs)
  then show ?case by (cases i) (auto simp: union_ac)
qed simp

definition sys_vids_used :: "id_system \<Rightarrow> vid list" where
  "sys_vids_used s = sy_vids s @ concat (map rv_vids (sy_reservoirs s))"

definition sys_eids_used :: "id_system \<Rightarrow> eid list" where
  "sys_eids_used s = sy_eids s @ concat (map rv_eids (sy_reservoirs s))"

definition sys_ok :: "nat \<Rightarrow> nat \<Rightarrow> id_system \<Rightarrow> bool" where
  "sys_ok lo_v lo_e s \<longleftrightarrow> alloc_ok (sy_alloc s) (sy_store s) \<and> list_all (\<lambda>r. 0 < rv_batch r) (sy_reservoirs s) \<and>
     ids_in vid_num lo_v (current_vid (sy_alloc s)) (sys_vids_used s) \<and>
     ids_in eid_num lo_e (current_eid (sy_alloc s)) (sys_eids_used s)"

text \<open>Handing out the next \<open>n\<close> ids, whether to a caller or to a cache.\<close>

lemma sys_ok_more_vids:
  assumes ok: "sys_ok lo_v lo_e s" and al: "alloc_ok al st" "granted (Inr n :: alloc_error + nat) current_vid current_eid (sy_alloc s) al"
    and s': "sy_alloc s' = al" "sy_store s' = st" "list_all (\<lambda>r. 0 < rv_batch r) (sy_reservoirs s')" "sys_eids_used s' = sys_eids_used s"
      "mset (sys_vids_used s') = mset (sys_vids_used s) + mset (map (\<lambda>i. Vid (of_nat (current_vid (sy_alloc s) + i))) [0..<n])"
  shows "sys_ok lo_v lo_e s'"
proof -
  let ?new = "map (\<lambda>i. Vid (of_nat (current_vid (sy_alloc s) + i))) [0..<n]"
  have g: "current_vid al = current_vid (sy_alloc s) + n" "current_vid (sy_alloc s) + n < u64_mod" "current_eid al = current_eid (sy_alloc s)"
    using al(2) by (simp_all add: granted_def)
  have "ids_in vid_num (current_vid (sy_alloc s)) (current_vid al) ?new"
    unfolding g(1) by (rule ids_in_interval) (use g(2) in \<open>simp del: of_nat_add\<close>)
  then have "ids_in vid_num lo_v (current_vid al) (sys_vids_used s @ ?new)" using ok ids_in_append unfolding sys_ok_def by blast
  moreover have "mset (sys_vids_used s') = mset (sys_vids_used s @ ?new)" using s'(5) by simp
  ultimately show ?thesis using ok al(1) s' g ids_in_mset unfolding sys_ok_def by metis
qed

lemma sys_ok_more_eids:
  assumes ok: "sys_ok lo_v lo_e s" and al: "alloc_ok al st" "granted (Inr n :: alloc_error + nat) current_eid current_vid (sy_alloc s) al"
    and s': "sy_alloc s' = al" "sy_store s' = st" "list_all (\<lambda>r. 0 < rv_batch r) (sy_reservoirs s')" "sys_vids_used s' = sys_vids_used s"
      "mset (sys_eids_used s') = mset (sys_eids_used s) + mset (map (\<lambda>i. Eid (of_nat (current_eid (sy_alloc s) + i))) [0..<n])"
  shows "sys_ok lo_v lo_e s'"
proof -
  let ?new = "map (\<lambda>i. Eid (of_nat (current_eid (sy_alloc s) + i))) [0..<n]"
  have g: "current_eid al = current_eid (sy_alloc s) + n" "current_eid (sy_alloc s) + n < u64_mod" "current_vid al = current_vid (sy_alloc s)"
    using al(2) by (simp_all add: granted_def)
  have "ids_in eid_num (current_eid (sy_alloc s)) (current_eid al) ?new"
    unfolding g(1) by (rule ids_in_interval) (use g(2) in \<open>simp del: of_nat_add\<close>)
  then have "ids_in eid_num lo_e (current_eid al) (sys_eids_used s @ ?new)" using ok ids_in_append unfolding sys_ok_def by blast
  moreover have "mset (sys_eids_used s') = mset (sys_eids_used s @ ?new)" using s'(5) by simp
  ultimately show ?thesis using ok al(1) s' g ids_in_mset unfolding sys_ok_def by metis
qed

text \<open>Nothing is handed out when an allocation fails or an id comes from a cache.\<close>

lemma sys_ok_same:
  assumes "sys_ok lo_v lo_e s" "alloc_ok (sy_alloc s') (sy_store s')" "current_vid (sy_alloc s') = current_vid (sy_alloc s)"
    "current_eid (sy_alloc s') = current_eid (sy_alloc s)" "list_all (\<lambda>r. 0 < rv_batch r) (sy_reservoirs s')"
    "mset (sys_vids_used s') = mset (sys_vids_used s)" "mset (sys_eids_used s') = mset (sys_eids_used s)"
  shows "sys_ok lo_v lo_e s'"
  using assms ids_in_mset unfolding sys_ok_def by metis

lemma next_vid_ok:
  assumes ok: "sys_ok lo_v lo_e s" and i: "i < length (sy_reservoirs s)"
  shows "\<exists>s'. id_step (NextVid i answers) s = Some s' \<and> sys_ok lo_v lo_e s'"
proof -
  let ?r = "sy_reservoirs s ! i"
  have b: "0 < rv_batch ?r" using ok i by (simp add: sys_ok_def list_all_length)
  have keep: "list_all (\<lambda>r. 0 < rv_batch r) ((sy_reservoirs s)[i := ?r\<lparr>rv_vids := q\<rparr>])" for q
    using ok b i by (auto simp: sys_ok_def list_all_length nth_list_update)
  have other: "map rv_eids ((sy_reservoirs s)[i := ?r\<lparr>rv_eids := rv_eids ?r, rv_vids := q\<rparr>]) = map rv_eids (sy_reservoirs s)" for q
    using i by (simp add: map_update list_update_same_conv)
  have upd: "mset (concat (map rv_vids ((sy_reservoirs s)[i := ?r\<lparr>rv_vids := q\<rparr>]))) + mset (rv_vids ?r) =
      mset (concat (map rv_vids (sy_reservoirs s))) + mset q" for q
    using mset_concat_update [OF i, of rv_vids "?r\<lparr>rv_vids := q\<rparr>"] by simp
  show ?thesis
  proof (cases "rv_vids ?r")
    case (Cons v vs)
    let ?s = "s\<lparr>sy_reservoirs := (sy_reservoirs s)[i := ?r\<lparr>rv_vids := vs\<rparr>], sy_vids := sy_vids s @ [v]\<rparr>"
    have "id_step (NextVid i answers) s = Some ?s" using i by (simp add: reservoir_next_vid_def Cons give_vids_def)
    moreover have "sys_ok lo_v lo_e ?s"
      by (rule sys_ok_same [OF ok]) (use ok keep other upd [of vs] in \<open>auto simp: sys_ok_def sys_vids_used_def sys_eids_used_def Cons\<close>)
    ultimately show ?thesis by blast
  next
    case Nil
    obtain r al st where run: "allocate_vids (rv_batch ?r) answers (sy_alloc s) (sy_store s) = (r, al, st)"
      by (cases "allocate_vids (rv_batch ?r) answers (sy_alloc s) (sy_store s)") auto
    have "alloc_ok (sy_alloc s) (sy_store s)" using ok by (simp add: sys_ok_def)
    note a = allocate_vids_ok [OF this run]
    show ?thesis
    proof (cases r)
      case (Inl e)
      let ?s = "s\<lparr>sy_alloc := al, sy_store := st\<rparr>"
      have "id_step (NextVid i answers) s = Some ?s" using i by (simp add: reservoir_next_vid_def Nil run Inl give_vids_def)
      moreover have "sys_ok lo_v lo_e ?s"
        by (rule sys_ok_same [OF ok]) (use ok a in \<open>auto simp: sys_ok_def sys_vids_used_def sys_eids_used_def Inl granted_def\<close>)
      ultimately show ?thesis by blast
    next
      case (Inr new)
      then have new: "new = map (\<lambda>i. Vid (of_nat (current_vid (sy_alloc s) + i))) [0..<rv_batch ?r]" using a by blast
      then obtain v vs where vs: "new = v # vs" using b by (cases new) auto
      let ?s = "s\<lparr>sy_reservoirs := (sy_reservoirs s)[i := ?r\<lparr>rv_vids := vs\<rparr>], sy_alloc := al, sy_store := st, sy_vids := sy_vids s @ [v]\<rparr>"
      have "id_step (NextVid i answers) s = Some ?s" using i by (simp add: reservoir_next_vid_def Nil run Inr vs give_vids_def)
      moreover have "mset (sys_vids_used ?s) = mset (sys_vids_used s) + mset new"
        using upd [of vs] by (simp add: sys_vids_used_def Nil vs)
      then have "sys_ok lo_v lo_e ?s"
        by (intro sys_ok_more_vids [OF ok, of al st "rv_batch ?r"]) (use a keep other in \<open>simp_all add: Inr new sys_eids_used_def\<close>)
      ultimately show ?thesis by blast
    qed
  qed
qed

lemma next_eid_ok:
  assumes ok: "sys_ok lo_v lo_e s" and i: "i < length (sy_reservoirs s)"
  shows "\<exists>s'. id_step (NextEid i answers) s = Some s' \<and> sys_ok lo_v lo_e s'"
proof -
  let ?r = "sy_reservoirs s ! i"
  have b: "0 < rv_batch ?r" using ok i by (simp add: sys_ok_def list_all_length)
  have keep: "list_all (\<lambda>r. 0 < rv_batch r) ((sy_reservoirs s)[i := ?r\<lparr>rv_eids := q\<rparr>])" for q
    using ok b i by (auto simp: sys_ok_def list_all_length nth_list_update)
  have other: "map rv_vids ((sy_reservoirs s)[i := ?r\<lparr>rv_vids := rv_vids ?r, rv_eids := q\<rparr>]) = map rv_vids (sy_reservoirs s)" for q
    using i by (simp add: map_update list_update_same_conv)
  have upd: "mset (concat (map rv_eids ((sy_reservoirs s)[i := ?r\<lparr>rv_eids := q\<rparr>]))) + mset (rv_eids ?r) =
      mset (concat (map rv_eids (sy_reservoirs s))) + mset q" for q
    using mset_concat_update [OF i, of rv_eids "?r\<lparr>rv_eids := q\<rparr>"] by simp
  show ?thesis
  proof (cases "rv_eids ?r")
    case (Cons v vs)
    let ?s = "s\<lparr>sy_reservoirs := (sy_reservoirs s)[i := ?r\<lparr>rv_eids := vs\<rparr>], sy_eids := sy_eids s @ [v]\<rparr>"
    have "id_step (NextEid i answers) s = Some ?s" using i by (simp add: reservoir_next_eid_def Cons give_eids_def)
    moreover have "sys_ok lo_v lo_e ?s"
      by (rule sys_ok_same [OF ok]) (use ok keep other upd [of vs] in \<open>auto simp: sys_ok_def sys_eids_used_def sys_vids_used_def Cons\<close>)
    ultimately show ?thesis by blast
  next
    case Nil
    obtain r al st where run: "allocate_eids (rv_batch ?r) answers (sy_alloc s) (sy_store s) = (r, al, st)"
      by (cases "allocate_eids (rv_batch ?r) answers (sy_alloc s) (sy_store s)") auto
    have "alloc_ok (sy_alloc s) (sy_store s)" using ok by (simp add: sys_ok_def)
    note a = allocate_eids_ok [OF this run]
    show ?thesis
    proof (cases r)
      case (Inl e)
      let ?s = "s\<lparr>sy_alloc := al, sy_store := st\<rparr>"
      have "id_step (NextEid i answers) s = Some ?s" using i by (simp add: reservoir_next_eid_def Nil run Inl give_eids_def)
      moreover have "sys_ok lo_v lo_e ?s"
        by (rule sys_ok_same [OF ok]) (use ok a in \<open>auto simp: sys_ok_def sys_eids_used_def sys_vids_used_def Inl granted_def\<close>)
      ultimately show ?thesis by blast
    next
      case (Inr new)
      then have new: "new = map (\<lambda>i. Eid (of_nat (current_eid (sy_alloc s) + i))) [0..<rv_batch ?r]" using a by blast
      then obtain v vs where vs: "new = v # vs" using b by (cases new) auto
      let ?s = "s\<lparr>sy_reservoirs := (sy_reservoirs s)[i := ?r\<lparr>rv_eids := vs\<rparr>], sy_alloc := al, sy_store := st, sy_eids := sy_eids s @ [v]\<rparr>"
      have "id_step (NextEid i answers) s = Some ?s" using i by (simp add: reservoir_next_eid_def Nil run Inr vs give_eids_def)
      moreover have "mset (sys_eids_used ?s) = mset (sys_eids_used s) + mset new"
        using upd [of vs] by (simp add: sys_eids_used_def Nil vs)
      then have "sys_ok lo_v lo_e ?s"
        by (intro sys_ok_more_eids [OF ok, of al st "rv_batch ?r"]) (use a keep other in \<open>simp_all add: Inr new sys_vids_used_def\<close>)
      ultimately show ?thesis by blast
    qed
  qed
qed

lemma give_vids_ok:
  assumes ok: "sys_ok lo_v lo_e s" and al: "alloc_ok al st" "granted (map_sum id (\<lambda>_. n) r) current_vid current_eid (sy_alloc s) al"
    and new: "\<And>vs. r = Inr vs \<Longrightarrow> vs = map (\<lambda>i. Vid (of_nat (current_vid (sy_alloc s) + i))) [0..<n]"
  shows "sys_ok lo_v lo_e (give_vids (r, al, st) s)"
proof (cases r)
  case (Inl e)
  show ?thesis
    by (rule sys_ok_same [OF ok]) (use ok al in \<open>simp_all add: Inl give_vids_def granted_def sys_ok_def sys_vids_used_def sys_eids_used_def\<close>)
next
  case (Inr vs)
  show ?thesis
    by (rule sys_ok_more_vids [OF ok, of al st n])
      (use ok al new [OF Inr] in \<open>simp_all add: Inr give_vids_def sys_ok_def sys_vids_used_def sys_eids_used_def\<close>)
qed

lemma give_eids_ok:
  assumes ok: "sys_ok lo_v lo_e s" and al: "alloc_ok al st" "granted (map_sum id (\<lambda>_. n) r) current_eid current_vid (sy_alloc s) al"
    and new: "\<And>vs. r = Inr vs \<Longrightarrow> vs = map (\<lambda>i. Eid (of_nat (current_eid (sy_alloc s) + i))) [0..<n]"
  shows "sys_ok lo_v lo_e (give_eids (r, al, st) s)"
proof (cases r)
  case (Inl e)
  show ?thesis
    by (rule sys_ok_same [OF ok]) (use ok al in \<open>simp_all add: Inl give_eids_def granted_def sys_ok_def sys_eids_used_def sys_vids_used_def\<close>)
next
  case (Inr vs)
  show ?thesis
    by (rule sys_ok_more_eids [OF ok, of al st n])
      (use ok al new [OF Inr] in \<open>simp_all add: Inr give_eids_def sys_ok_def sys_eids_used_def sys_vids_used_def\<close>)
qed

lemma id_step_ok:
  assumes ok: "sys_ok lo_v lo_e s"
  shows "\<exists>s'. id_step e s = Some s' \<and> sys_ok lo_v lo_e s'"
proof -
  have al: "alloc_ok (sy_alloc s) (sy_store s)" using ok by (simp add: sys_ok_def)
  show ?thesis
  proof (cases e)
    case (AllocVid answers)
    obtain r al' st' where run: "allocate_vid answers (sy_alloc s) (sy_store s) = (r, al', st')"
      by (cases "allocate_vid answers (sy_alloc s) (sy_store s)") auto
    have "sys_ok lo_v lo_e (give_vids (map_sum id (\<lambda>v. [v]) r, al', st') s)"
      by (rule give_vids_ok [OF ok, where n = 1]) (use allocate_vid_ok [OF al run] in \<open>auto simp: sum.map_comp comp_def map_sum_def split: sum.splits\<close>)
    then show ?thesis by (simp add: AllocVid run)
  next
    case (AllocVids n answers)
    obtain r al' st' where run: "allocate_vids n answers (sy_alloc s) (sy_store s) = (r, al', st')"
      by (cases "allocate_vids n answers (sy_alloc s) (sy_store s)") auto
    have "sys_ok lo_v lo_e (give_vids (r, al', st') s)" by (rule give_vids_ok [OF ok]) (use allocate_vids_ok [OF al run] in auto)
    then show ?thesis by (simp add: AllocVids run)
  next
    case (AllocEid answers)
    obtain r al' st' where run: "allocate_eid answers (sy_alloc s) (sy_store s) = (r, al', st')"
      by (cases "allocate_eid answers (sy_alloc s) (sy_store s)") auto
    have "sys_ok lo_v lo_e (give_eids (map_sum id (\<lambda>v. [v]) r, al', st') s)"
      by (rule give_eids_ok [OF ok, where n = 1]) (use allocate_eid_ok [OF al run] in \<open>auto simp: sum.map_comp comp_def map_sum_def split: sum.splits\<close>)
    then show ?thesis by (simp add: AllocEid run)
  next
    case (AllocEids n answers)
    obtain r al' st' where run: "allocate_eids n answers (sy_alloc s) (sy_store s) = (r, al', st')"
      by (cases "allocate_eids n answers (sy_alloc s) (sy_store s)") auto
    have "sys_ok lo_v lo_e (give_eids (r, al', st') s)" by (rule give_eids_ok [OF ok]) (use allocate_eids_ok [OF al run] in auto)
    then show ?thesis by (simp add: AllocEids run)
  next
    case (Checkpoint answers)
    obtain r al' st' where run: "checkpoint answers (sy_alloc s) (sy_store s) = (r, al', st')"
      by (cases "checkpoint answers (sy_alloc s) (sy_store s)") auto
    have "sys_ok lo_v lo_e (s\<lparr>sy_alloc := al', sy_store := st'\<rparr>)"
      by (rule sys_ok_same [OF ok]) (use ok checkpoint_ok [OF al run] in \<open>simp_all add: sys_ok_def sys_vids_used_def sys_eids_used_def\<close>)
    then show ?thesis by (simp add: Checkpoint run)
  next
    case (NewReservoir n)
    then show ?thesis using ok
      by (simp add: sys_ok_def sys_vids_used_def sys_eids_used_def reservoir_new_def DEFAULT_RESERVOIR_BATCH_def)
  next
    case (NextVid i answers)
    show ?thesis using next_vid_ok [OF ok] ok unfolding NextVid by (cases "i < length (sy_reservoirs s)") auto
  next
    case (NextEid i answers)
    show ?thesis using next_eid_ok [OF ok] ok unfolding NextEid by (cases "i < length (sy_reservoirs s)") auto
  next
    case (Reopen e_tag)
    let ?al = "id_allocator_new (batch_size (sy_alloc s)) e_tag (sy_store s)"
    have "alloc_ok ?al (sy_store s)" using al by (intro alloc_ok_new) (simp_all add: alloc_ok_def)
    moreover have "current_vid ?al = next_vid_batch (durable (sy_store s))" "current_eid ?al = next_eid_batch (durable (sy_store s))"
      by (auto simp: id_allocator_new_def durable_def split: option.splits)
    ultimately show ?thesis using ok al
      by (auto simp: Reopen sys_ok_def sys_vids_used_def sys_eids_used_def alloc_ok_def intro: ids_in_prefix)
  qed
qed

lemma id_run_ok:
  assumes "sys_ok lo_v lo_e s"
  shows "\<exists>s'. id_run evs s = Some s' \<and> sys_ok lo_v lo_e s'"
  using assms
proof (induction evs arbitrary: s)
  case (Cons e evs)
  obtain s1 where "id_step e s = Some s1" "sys_ok lo_v lo_e s1" using id_step_ok [OF Cons.prems] by blast
  then show ?case using Cons.IH by simp
qed simp

subsection \<open>Uniqueness\<close>

text \<open>
  C9 (\<open>ids_never_reused\<close>). Whatever a database allocates, through the allocator or through the caches of any
  transactions, with writes of the counters that fail before or after they reach the store, and across any
  number of restarts: no vertex id and no edge id is given out twice, each is at least what the store had
  reserved at the start, none is the invalid sentinel, and nothing panics.
\<close>

theorem ids_never_reused:
  assumes "manifest_ok (durable st)" "0 < batch"
  shows "\<exists>s. id_run evs (id_open batch e_tag st) = Some s \<and> distinct (sy_vids s) \<and> distinct (sy_eids s) \<and>
    (\<forall>v\<in>set (sy_vids s). next_vid_batch (durable st) \<le> vid_num v \<and> v \<noteq> vid_INVALID) \<and>
    (\<forall>v\<in>set (sy_eids s). next_eid_batch (durable st) \<le> eid_num v)"
proof -
  let ?lo = "next_vid_batch (durable st)" and ?le = "next_eid_batch (durable st)"
  have "current_vid (id_allocator_new batch e_tag st) = ?lo" "current_eid (id_allocator_new batch e_tag st) = ?le"
    by (auto simp: id_allocator_new_def durable_def split: option.splits)
  then have "sys_ok ?lo ?le (id_open batch e_tag st)"
    using alloc_ok_new [OF assms] by (simp add: sys_ok_def id_open_def sys_vids_used_def sys_eids_used_def ids_in_def)
  then obtain s where s: "id_run evs (id_open batch e_tag st) = Some s" "sys_ok ?lo ?le s" using id_run_ok by blast
  then have v: "ids_in vid_num ?lo (current_vid (sy_alloc s)) (sy_vids s)" and e: "ids_in eid_num ?le (current_eid (sy_alloc s)) (sy_eids s)"
    by (auto simp: sys_ok_def sys_vids_used_def sys_eids_used_def intro: ids_in_prefix)
  have "current_vid (sy_alloc s) < u64_mod" using s(2) by (auto simp: sys_ok_def alloc_ok_def manifest_ok_def)
  then have "vid_num v < u64_mod - 1" if "v \<in> set (sy_vids s)" for v using that v unfolding ids_in_def by fastforce
  moreover have "vid_num vid_INVALID = u64_mod - 1" by (simp add: vid_num_def vid_INVALID_def u64_mod_def unsigned_minus_1_eq_mask mask_eq_exp_minus_1)
  ultimately have "v \<noteq> vid_INVALID" if "v \<in> set (sy_vids s)" for v using that by force
  moreover have "distinct (sy_vids s)" "distinct (sy_eids s)" using v e by (simp_all add: ids_in_def distinct_map)
  ultimately show ?thesis using s(1) v e by (auto simp: ids_in_def)
qed

definition good_store :: "nat option \<Rightarrow> put_answers" where
  "good_store e_tag = (\<lambda>_. Stored e_tag)"

definition lost_reply :: put_answers where
  "lost_reply = (\<lambda>_. Failed PutFailed True)"

theorem ids_never_reused_witness:
  "\<exists>s. id_run [AllocVid (good_store (Some 1)), AllocVid lost_reply, Reopen (Some 2), AllocVid (good_store (Some 3))] (id_open 1 None None) = Some s \<and>
    distinct (sy_vids s) \<and> sy_vids s = [Vid 0, Vid 2]"
proof -
  let ?evs = "[AllocVid (good_store (Some 1)), AllocVid lost_reply, Reopen (Some 2), AllocVid (good_store (Some 3))]"
  have "manifest_ok (durable None)" by (simp add: manifest_ok_def durable_def manifest_default_def u64_mod_def)
  then obtain s where "id_run ?evs (id_open 1 None None) = Some s" "distinct (sy_vids s)"
    using ids_never_reused [of None 1 ?evs None] by auto
  moreover have "map_option sy_vids (id_run ?evs (id_open 1 None None)) = Some [Vid 0, Vid 2]"
    by (simp add: id_open_def good_store_def lost_reply_def id_allocator_new_def manifest_default_def allocate_vid_def ensure_vids_def
        checked_add_def u64_mod_def reserve_vids_def persist_manifest_def put_manifest_def put_opts_def give_vids_def)
  ultimately show ?thesis by auto
qed

text \<open>
  C39 (\<open>lost_reply_wedges\<close>). The allocator writes its counters on the condition that the store still has the version it
  wrote last, and after a failed write it goes back to its previous counters, for a retry. If the failed
  write had reached the store, its version is not the allocator's any more. A store refuses a write
  conditional on an old version; so every retry fails, for good, and only opening the database again helps.
\<close>

theorem lost_reply_wedges:
  assumes al: "manifest_version al = Some tag" "0 < batch_size al" "next_vid_batch (al_manifest al) \<le> current_vid al"
      "current_vid al + 2 * batch_size al < u64_mod"
    and lost: "answers (PutUpdate tag) = Failed PutFailed True"
    and stale_refused: "\<forall>later\<in>retries. later (PutUpdate tag) = Failed Precondition False"
    and new_version: "reopened (PutUpdate tag') = Stored tag''"
  shows "\<exists>st'. allocate_vid answers al st = (Inl (PersistFailed PutFailed), al, st') \<and>
    (\<forall>later\<in>retries. allocate_vid later al st' = (Inl (PersistFailed Precondition), al, st')) \<and>
    fst (allocate_vid reopened (id_allocator_new (batch_size al) (Some tag') st') st') = Inr (Vid (of_nat (current_vid al + batch_size al)))"
proof -
  let ?st = "Some ((al_manifest al)\<lparr>next_vid_batch := current_vid al + batch_size al\<rparr>)"
  note defs = allocate_vid_def ensure_vids_def checked_add_def reserve_vids_def persist_manifest_def put_manifest_def put_opts_def
  have 1: "allocate_vid answers al st = (Inl (PersistFailed PutFailed), al, ?st)" using al lost by (simp add: defs)
  have 2: "allocate_vid later al ?st = (Inl (PersistFailed Precondition), al, ?st)" if "later \<in> retries" for later
    using al bspec [OF stale_refused that] by (simp add: defs)
  have 3: "fst (allocate_vid reopened (id_allocator_new (batch_size al) (Some tag') ?st) ?st) = Inr (Vid (of_nat (current_vid al + batch_size al)))"
    using al new_version by (simp add: defs id_allocator_new_def)
  show ?thesis using 1 2 3 by blast
qed

theorem lost_reply_wedges_witness:
  "\<exists>al st st'. allocate_vid (good_store (Some 1)) (id_allocator_new 1 None None) None = (Inr (Vid 0), al, st) \<and>
    allocate_vid lost_reply al st = (Inl (PersistFailed PutFailed), al, st') \<and>
    allocate_vid (\<lambda>_. Failed Precondition False) al st' = (Inl (PersistFailed Precondition), al, st')"
proof -
  let ?al = "\<lparr>al_manifest = \<lparr>next_vid_batch = 1, next_eid_batch = 0\<rparr>, manifest_version = Some 1, current_vid = 1, current_eid = 0, batch_size = 1\<rparr>"
  let ?st = "Some \<lparr>next_vid_batch = 1, next_eid_batch = 0\<rparr>" and ?refuse = "\<lambda>_. Failed Precondition False"
  have "allocate_vid (good_store (Some 1)) (id_allocator_new 1 None None) None = (Inr (Vid 0), ?al, ?st)"
    by (simp add: good_store_def id_allocator_new_def manifest_default_def allocate_vid_def ensure_vids_def
        checked_add_def u64_mod_def reserve_vids_def persist_manifest_def put_manifest_def put_opts_def)
  moreover have "\<exists>st'. allocate_vid lost_reply ?al ?st = (Inl (PersistFailed PutFailed), ?al, st') \<and>
      allocate_vid ?refuse ?al st' = (Inl (PersistFailed Precondition), ?al, st')"
    using lost_reply_wedges [of ?al 1 lost_reply "{?refuse}" "good_store (Some 3)" 2 "Some 3" ?st]
    by (auto simp: u64_mod_def lost_reply_def good_store_def)
  ultimately show ?thesis by blast
qed

end
