(* ===== verification/Csr.thy ===== *)
theory Csr
  imports Ids
begin

text \<open>
  The versioned adjacency arrays \<open>MainCsr\<close> (\<^verbatim>\<open>crates/uni-store/src/storage/csr.rs\<close>): the edges of one type and
  direction in one array, ordered by the vertex they are listed at, with an array of offsets. Offsets are
  \<open>u32\<close>, and the counter behind them wraps.
\<close>

definition u32_mod :: nat where
  "u32_mod = 2 ^ 32"

record csr_edge_entry =
  cx_neighbor :: vid
  cx_eid :: eid
  cx_created :: nat

record main_csr =
  csr_offsets :: "nat list"
  csr_entries :: "csr_edge_entry list"

text \<open>A raw edge: the number of the vertex it is listed at, neighbour, id and version.\<close>

type_synonym raw_edge = "nat \<times> vid \<times> eid \<times> nat"

fun raw_entry :: "raw_edge \<Rightarrow> csr_edge_entry" where
  "raw_entry (_, neighbor_vid, eid, created_version) = \<lparr>cx_neighbor = neighbor_vid, cx_eid = eid, cx_created = created_version\<rparr>"

text \<open>\<open>iter_mut().take(b).skip(a)\<close>, each set to \<open>v\<close>.\<close>

definition fill_range :: "nat \<Rightarrow> nat \<Rightarrow> 'a \<Rightarrow> 'a list \<Rightarrow> 'a list" where
  "fill_range a b v xs = map (\<lambda>i. if a \<le> i \<and> i < b then v else xs ! i) [0..<length xs]"

record csr_build =
  cb_offsets :: "nat list"
  cb_entries :: "csr_edge_entry list"
  cb_current :: nat
  cb_last :: nat

definition csr_push :: "raw_edge \<Rightarrow> csr_build \<Rightarrow> csr_build" where
  "csr_push r b =
     b\<lparr>cb_offsets := (if fst r > cb_last b then fill_range (cb_last b + 1) (fst r + 1) (cb_current b) (cb_offsets b) else cb_offsets b),
       cb_last := fst r,
       cb_entries := cb_entries b @ [raw_entry r],
       cb_current := (cb_current b + 1) mod u32_mod\<rparr>"

lemma csr_push_code [code]:
  "csr_push r b =
     b\<lparr>cb_offsets := (if fst r > cb_last b then fill_range (cb_last b + 1) (fst r + 1) (cb_current b) (cb_offsets b) else cb_offsets b),
       cb_last := fst r,
       cb_entries := cb_entries b @ [raw_entry r],
       cb_current := nat ((int (cb_current b) + 1) mod 4294967296)\<rparr>"
  by (simp add: csr_push_def u32_mod_def nat_mod_as_int add.commute)

text \<open>The vector of offsets: its length wraps like \<open>usize\<close>, and more than \<open>isize::MAX\<close> bytes are a panic.\<close>

definition alloc_offsets :: "nat \<Rightarrow> nat list option" where
  "alloc_offsets max_vid_offset =
     (let n = (max_vid_offset + 2) mod 2 ^ 64 in if n * 4 \<le> 2 ^ 63 - 1 then Some (replicate n 0) else None)"

lemma alloc_offsets_code [code]:
  "alloc_offsets max_vid_offset =
     (let n = (int max_vid_offset + 2) mod 18446744073709551616 in if n * 4 \<le> 9223372036854775807 then Some (replicate (nat n) 0) else None)"
proof -
  have "(int max_vid_offset + 2) mod 18446744073709551616 = int ((max_vid_offset + 2) mod 2 ^ 64)" by (simp add: zmod_int add.commute)
  then show ?thesis unfolding alloc_offsets_def Let_def by simp
qed

definition fill_offsets :: "nat list \<Rightarrow> raw_edge list \<Rightarrow> main_csr" where
  "fill_offsets offsets raw =
     (let b = fold csr_push (sort_key fst raw) \<lparr>cb_offsets = offsets, cb_entries = [], cb_current = 0, cb_last = 0\<rparr>
      in \<lparr>csr_offsets = fill_range (cb_last b + 1) (length (cb_offsets b)) (cb_current b) (cb_offsets b), csr_entries = cb_entries b\<rparr>)"

definition csr_empty :: main_csr where
  "csr_empty = \<lparr>csr_offsets = [0], csr_entries = []\<rparr>"

definition from_edge_entries :: "nat \<Rightarrow> raw_edge list \<Rightarrow> main_csr option" where
  "from_edge_entries max_vid_offset raw =
     (if raw = [] then Some csr_empty else map_option (\<lambda>offsets. fill_offsets offsets raw) (alloc_offsets max_vid_offset))"

text \<open>\<open>None\<close> is the panic of a slice that ends before it starts or of an index out of range; \<open>local + 1\<close> wraps.\<close>

definition slice :: "nat \<Rightarrow> nat \<Rightarrow> 'a list \<Rightarrow> 'a list option" where
  "slice start stop xs = (if start \<le> stop \<and> stop \<le> length xs then Some (take (stop - start) (drop start xs)) else None)"

definition get_entries :: "main_csr \<Rightarrow> vid \<Rightarrow> csr_edge_entry list option" where
  "get_entries csr vid =
     (let i = unat (vid_as_u64 vid); succ = unat (vid_as_u64 vid + 1)
      in if succ \<ge> length (csr_offsets csr) then Some []
         else if i \<ge> length (csr_offsets csr) then None
         else
           let start = csr_offsets csr ! i; stop = csr_offsets csr ! succ
           in if start \<ge> length (csr_entries csr) \<or> stop > length (csr_entries csr) then Some []
              else slice start stop (csr_entries csr))"

definition get_neighbors_unversioned :: "main_csr \<Rightarrow> vid \<Rightarrow> (vid list \<times> eid list) option" where
  "get_neighbors_unversioned csr vid =
     map_option (\<lambda>entries. (map cx_neighbor entries, map cx_eid entries)) (get_entries csr vid)"

definition csr_num_edges :: "main_csr \<Rightarrow> nat" where
  "csr_num_edges csr = length (csr_entries csr)"

definition csr_num_vertices :: "main_csr \<Rightarrow> nat" where
  "csr_num_vertices csr = (if csr_offsets csr = [] then 0 else length (csr_offsets csr) - 1)"

text \<open>With \<open>size_of::<CsrEdgeEntry>()\<close> three words.\<close>

definition csr_memory_usage :: "main_csr \<Rightarrow> nat" where
  "csr_memory_usage csr = length (csr_offsets csr) * 4 + length (csr_entries csr) * 24"

definition vids_with_entries :: "main_csr \<Rightarrow> vid list" where
  "vids_with_entries csr =
     map (\<lambda>i. Vid (of_nat i))
       (filter (\<lambda>i. csr_offsets csr ! (i + 1) > csr_offsets csr ! i \<and> csr_offsets csr ! (i + 1) \<le> length (csr_entries csr))
         [0..<length (csr_offsets csr) - 1])"

subsection \<open>Offsets\<close>

lemma fill_range_nth: "i < length xs \<Longrightarrow> fill_range a b v xs ! i = (if a \<le> i \<and> i < b then v else xs ! i)"
  and fill_range_length [simp]: "length (fill_range a b v xs) = length xs"
  by (simp_all add: fill_range_def)

text \<open>The number of edges listed before vertex \<open>i\<close>.\<close>

definition edges_before :: "nat \<Rightarrow> raw_edge list \<Rightarrow> nat" where
  "edges_before i xs = length (filter (\<lambda>r. fst r < i) xs)"

lemma edges_before_all: "\<forall>r\<in>set xs. fst r < i \<Longrightarrow> edges_before i xs = length xs"
  by (simp add: edges_before_def filter_id_conv)

text \<open>After the edges \<open>xs\<close>, in order: the offsets up to the last vertex are right.\<close>

definition build_ok :: "nat \<Rightarrow> raw_edge list \<Rightarrow> csr_build \<Rightarrow> bool" where
  "build_ok n xs b \<longleftrightarrow> length (cb_offsets b) = n \<and> cb_entries b = map raw_entry xs \<and> cb_current b = length xs \<and>
     cb_last b = (if xs = [] then 0 else fst (last xs)) \<and>
     (\<forall>i. i < n \<longrightarrow> i \<le> cb_last b \<longrightarrow> cb_offsets b ! i = edges_before i xs)"

lemma csr_push_ok:
  assumes ok: "build_ok n xs b" and sorted: "sorted (map fst (xs @ [r]))" and room: "length xs + 1 < u32_mod"
  shows "build_ok n (xs @ [r]) (csr_push r b)"
proof -
  have le: "\<forall>x\<in>set xs. fst x \<le> fst r" using sorted by (auto simp: sorted_append)
  have last: "\<forall>x\<in>set xs. fst x \<le> cb_last b"
  proof
    fix x assume x: "x \<in> set xs"
    then have "xs \<noteq> []" by auto
    then obtain ys y where ys: "xs = ys @ [y]" by (cases xs rule: rev_cases) auto
    then show "fst x \<le> cb_last b" using ok x sorted by (auto simp: build_ok_def sorted_append)
  qed
  have nth: "cb_offsets (csr_push r b) ! i = edges_before i (xs @ [r])" if i: "i < n" "i \<le> fst r" for i
  proof (cases "i \<le> cb_last b")
    case True
    then show ?thesis using ok i by (auto simp: csr_push_def build_ok_def fill_range_nth edges_before_def)
  next
    case False
    then have "edges_before i xs = length xs" using last by (intro edges_before_all) auto
    then show ?thesis using ok i False by (auto simp: csr_push_def build_ok_def fill_range_nth edges_before_def)
  qed
  show ?thesis using ok nth room by (simp add: build_ok_def csr_push_def)
qed

lemma csr_fold_ok:
  assumes "sorted (map fst xs)" "length xs < u32_mod"
  shows "build_ok n xs (fold csr_push xs \<lparr>cb_offsets = replicate n 0, cb_entries = [], cb_current = 0, cb_last = 0\<rparr>)"
  using assms
proof (induction xs rule: rev_induct)
  case Nil
  then show ?case by (simp add: build_ok_def edges_before_def)
next
  case (snoc r xs)
  have "build_ok n xs (fold csr_push xs \<lparr>cb_offsets = replicate n 0, cb_entries = [], cb_current = 0, cb_last = 0\<rparr>)"
    by (rule snoc.IH) (use snoc.prems in \<open>auto simp: sorted_append\<close>)
  then show ?case using csr_push_ok snoc.prems by simp
qed

lemma edges_before_sort [simp]: "edges_before i (sort_key fst xs) = edges_before i xs"
proof -
  have "mset (filter (\<lambda>r. fst r < i) (sort_key fst xs)) = mset (filter (\<lambda>r. fst r < i) xs)" by simp
  then show ?thesis unfolding edges_before_def by (metis size_mset)
qed

text \<open>What is built when the vector fits.\<close>

definition csr_limit :: nat where
  "csr_limit = 2 ^ 61 - 2"

definition csr_of :: "nat \<Rightarrow> raw_edge list \<Rightarrow> main_csr" where
  "csr_of m raw = (if raw = [] then csr_empty else fill_offsets (replicate (m + 2) 0) raw)"

lemma from_edge_entries_fits: "m < csr_limit \<Longrightarrow> from_edge_entries m raw = Some (csr_of m raw)"
  by (simp add: from_edge_entries_def csr_of_def alloc_offsets_def csr_limit_def)

lemma csr_of_ok:
  fixes m :: nat
  assumes "raw \<noteq> []" "length raw < u32_mod"
  defines "csr \<equiv> csr_of m raw"
  shows "csr_entries csr = map raw_entry (sort_key fst raw)" "length (csr_offsets csr) = m + 2"
    "\<And>i. i < m + 2 \<Longrightarrow> csr_offsets csr ! i = edges_before i raw"
proof -
  let ?xs = "sort_key fst raw"
  define b where "b = fold csr_push ?xs \<lparr>cb_offsets = replicate (m + 2) 0, cb_entries = [], cb_current = 0, cb_last = 0\<rparr>"
  have ok: "build_ok (m + 2) ?xs b" unfolding b_def by (rule csr_fold_ok) (use assms(2) in simp_all)
  have csr: "csr = \<lparr>csr_offsets = fill_range (cb_last b + 1) (length (cb_offsets b)) (cb_current b) (cb_offsets b), csr_entries = cb_entries b\<rparr>"
    using assms(1) by (simp add: csr_def csr_of_def fill_offsets_def b_def Let_def)
  show "csr_entries csr = map raw_entry ?xs" "length (csr_offsets csr) = m + 2" using ok by (simp_all add: csr build_ok_def)
  fix i assume i: "i < m + 2"
  have "?xs \<noteq> []" using assms(1) by (metis length_sort list.size(3) length_0_conv)
  then obtain ys y where ys: "?xs = ys @ [y]" by (cases ?xs rule: rev_cases) auto
  have "sorted (map fst ?xs)" by simp
  then have last: "\<forall>x\<in>set ?xs. fst x \<le> cb_last b" using ok unfolding ys by (auto simp: build_ok_def sorted_append)
  show "csr_offsets csr ! i = edges_before i raw"
  proof (cases "i \<le> cb_last b")
    case True
    then show ?thesis using ok i by (simp add: csr build_ok_def fill_range_nth)
  next
    case False
    then have "edges_before i ?xs = length ?xs" using last by (intro edges_before_all) auto
    then show ?thesis using ok i False by (simp add: csr build_ok_def fill_range_nth)
  qed
qed

subsection \<open>Lookup\<close>

lemma sorted_split:
  fixes f :: "'a \<Rightarrow> 'b :: linorder"
  assumes "sorted (map f xs)"
  shows "xs = filter (\<lambda>x. f x < k) xs @ filter (\<lambda>x. f x = k) xs @ filter (\<lambda>x. f x > k) xs"
  using assms
proof (induction xs)
  case (Cons x xs)
  consider "f x < k" | "f x = k" | "f x > k" by fastforce
  then show ?case
  proof cases
    case 2
    then have "filter (\<lambda>y. f y < k) xs = []" using Cons.prems by (auto simp: filter_empty_conv)
    then show ?thesis using Cons 2 by simp
  next
    case 3
    then have "filter (\<lambda>y. f y < k) xs = []" "filter (\<lambda>y. f y = k) xs = []" using Cons.prems by (auto simp: filter_empty_conv)
    then show ?thesis using Cons 3 by (simp add: not_less_iff_gr_or_eq)
  qed (use Cons in auto)
qed simp

lemma edges_before_Suc: "edges_before (Suc k) xs = edges_before k xs + length (filter (\<lambda>r. fst r = k) xs)"
  by (induction xs) (auto simp: edges_before_def less_Suc_eq)

lemma sorted_slice:
  assumes "sorted (map fst xs)"
  shows "take (edges_before (Suc k) xs - edges_before k xs) (drop (edges_before k xs) xs) = filter (\<lambda>r. fst r = k) xs"
proof -
  let ?lo = "filter (\<lambda>r. fst r < k) xs" and ?eq = "filter (\<lambda>r. fst r = k) xs"
  note split = sorted_split [OF assms, of k]
  have "edges_before k xs = length ?lo" by (simp add: edges_before_def)
  moreover have "edges_before (Suc k) xs = length ?lo + length ?eq"
    by (simp add: edges_before_Suc calculation)
  moreover have "drop (length ?lo) xs = ?eq @ filter (\<lambda>r. fst r > k) xs" by (subst split) simp
  ultimately show ?thesis by simp
qed

lemma edges_before_mono: "i \<le> j \<Longrightarrow> edges_before i xs \<le> edges_before j xs" "edges_before i xs \<le> length xs"
proof -
  show "i \<le> j \<Longrightarrow> edges_before i xs \<le> edges_before j xs" by (induction xs) (auto simp: edges_before_def)
  show "edges_before i xs \<le> length xs" by (simp add: edges_before_def)
qed

lemma unat_succ: "v \<noteq> vid_INVALID \<Longrightarrow> unat (vid_as_u64 v + 1) = unat (vid_as_u64 v) + 1"
proof (cases v)
  case (Vid x)
  assume "v \<noteq> vid_INVALID"
  then have "x \<noteq> - 1" by (simp add: Vid vid_INVALID_def)
  then have "1 + x \<noteq> 0" by (metis add_eq_0_iff)
  then show ?thesis using unatSuc [of x] by (simp add: Vid add.commute)
qed

lemma get_entries_from:
  assumes "length raw < u32_mod" "\<forall>r\<in>set raw. fst r \<le> m" and valid: "v \<noteq> vid_INVALID"
  shows "get_entries (csr_of m raw) v = Some (map raw_entry (filter (\<lambda>r. fst r = unat (vid_as_u64 v)) raw))"
proof (cases "raw = []")
  case True
  then show ?thesis using unat_succ [OF valid] by (simp add: get_entries_def csr_of_def csr_empty_def)
next
  case False
  let ?i = "unat (vid_as_u64 v)" and ?xs = "sort_key fst raw"
  note succ = unat_succ [OF valid]
  note csr = csr_of_ok [OF False assms(1), where m = m]
  show ?thesis
  proof (cases "?i \<le> m")
    case False
    then have "filter (\<lambda>r. fst r = ?i) raw = []" using assms(2) by (auto simp: filter_empty_conv)
    then show ?thesis using False csr(2) by (simp add: get_entries_def succ)
  next
    case True
    have n: "length (csr_entries (csr_of m raw)) = length raw" by (simp add: csr(1))
    have stop: "edges_before (Suc ?i) raw \<le> length raw" "edges_before ?i raw \<le> edges_before (Suc ?i) raw" by (rule edges_before_mono; simp)+
    have off: "csr_offsets (csr_of m raw) ! ?i = edges_before ?i raw" "csr_offsets (csr_of m raw) ! Suc ?i = edges_before (Suc ?i) raw"
      using True csr(3) [of ?i] csr(3) [of "Suc ?i"] by linarith+
    show ?thesis
    proof (cases "edges_before ?i raw \<ge> length raw")
      case True
      then have "length (filter (\<lambda>r. fst r = ?i) raw) = 0" using stop edges_before_Suc [of ?i raw] by linarith
      then have "filter (\<lambda>r. fst r = ?i) raw = []" by simp
      then show ?thesis using True \<open>?i \<le> m\<close> by (simp add: get_entries_def succ csr(2) n off)
    next
      case False
      have "take (edges_before (Suc ?i) raw - edges_before ?i raw) (drop (edges_before ?i raw) (map raw_entry ?xs)) =
          map raw_entry (filter (\<lambda>r. fst r = ?i) ?xs)"
        using sorted_slice [of ?xs ?i] by (simp add: take_map drop_map)
      also have "filter (\<lambda>r. fst r = ?i) ?xs = filter (\<lambda>r. fst r = ?i) raw" by (rule sort_key_stable)
      finally show ?thesis using False \<open>?i \<le> m\<close> stop by (simp add: get_entries_def succ csr(1,2) n off slice_def)
    qed
  qed
qed

lemma vids_with_entries_from:
  assumes "length raw < u32_mod" "\<forall>r\<in>set raw. fst r \<le> m" "m < csr_limit"
  shows "v \<in> set (vids_with_entries (csr_of m raw)) \<longleftrightarrow> (\<exists>r\<in>set raw. fst r = unat (vid_as_u64 v))"
proof (cases "raw = []")
  case True
  then show ?thesis by (simp add: vids_with_entries_def csr_of_def csr_empty_def)
next
  case False
  let ?i = "unat (vid_as_u64 v)"
  note csr = csr_of_ok [OF False assms(1), where m = m]
  have v: "v = Vid (of_nat i) \<longleftrightarrow> ?i = i" if "i \<le> m" for i
    using that assms(3) by (cases v) (auto simp: csr_limit_def unat_of_nat take_bit_nat_eq_self)
  have "v \<in> set (vids_with_entries (csr_of m raw)) \<longleftrightarrow>
      (\<exists>i \<le> m. edges_before i raw < edges_before (Suc i) raw \<and> edges_before (Suc i) raw \<le> length raw \<and> v = Vid (of_nat i))"
    using csr(2) by (auto simp: vids_with_entries_def csr(1) csr(3) image_iff less_Suc_eq_le simp del: upt_Suc)
  also have "\<dots> \<longleftrightarrow> ?i \<le> m \<and> edges_before ?i raw < edges_before (Suc ?i) raw"
    using v edges_before_mono(2) [of "Suc ?i" raw] by (metis (no_types, lifting))
  also have "\<dots> \<longleftrightarrow> (\<exists>r\<in>set raw. fst r = ?i)"
    using assms(2) edges_before_Suc [of ?i raw] by (auto simp: filter_empty_conv)
  finally show ?thesis .
qed

text \<open>
  C40 (\<open>csr_lookup\<close>). From any edges, fewer than \<open>2 ^ 32\<close>, with vertex numbers up to a bound whose offsets can be allocated,
  the arrays are built, and looking up any valid vertex never leaves their range and returns exactly the edges listed at it,
  in the order they were given. The vertices reported to have entries are exactly those for which the lookup returns any.
\<close>

theorem csr_lookup:
  assumes "length raw < u32_mod" "\<forall>r\<in>set raw. fst r \<le> m" "m < csr_limit" "v \<noteq> vid_INVALID"
  shows "\<exists>csr. from_edge_entries m raw = Some csr \<and>
    get_entries csr v = Some (map raw_entry (filter (\<lambda>r. fst r = unat (vid_as_u64 v)) raw)) \<and>
    (v \<in> set (vids_with_entries csr) \<longleftrightarrow> get_entries csr v \<noteq> Some [])"
  using get_entries_from [OF assms(1,2,4)] vids_with_entries_from [OF assms(1,2,3), of v] from_edge_entries_fits [OF assms(3), of raw]
  by (auto simp: filter_empty_conv)

theorem csr_lookup_witness:
  "Option.bind (from_edge_entries 2 [(2, Vid 7, Eid 1, 5), (0, Vid 8, Eid 2, 6), (2, Vid 9, Eid 3, 7)]) (\<lambda>csr. get_entries csr (Vid 2)) =
     Some [\<lparr>cx_neighbor = Vid 7, cx_eid = Eid 1, cx_created = 5\<rparr>, \<lparr>cx_neighbor = Vid 9, cx_eid = Eid 3, cx_created = 7\<rparr>]"
  using csr_lookup [of "[(2, Vid 7, Eid 1, 5), (0, Vid 8, Eid 2, 6), (2, Vid 9, Eid 3, 7)]" 2 "Vid 2"]
  by (auto simp: u32_mod_def csr_limit_def vid_INVALID_def)

text \<open>Looking up the invalid id is out of range in every array: its successor wraps to zero and passes the check.\<close>

theorem invalid_lookup_panics:
  assumes "length raw < u32_mod" "m < csr_limit" "from_edge_entries m raw = Some csr"
  shows "get_entries csr vid_INVALID = None"
proof -
  have csr: "csr = csr_of m raw" using assms(2,3) by (simp add: from_edge_entries_fits)
  have "0 < length (csr_offsets csr)" "length (csr_offsets csr) \<le> m + 2"
    using csr_of_ok(2) [OF _ assms(1), of m] by (cases "raw = []"; simp add: csr csr_of_def csr_empty_def)+
  moreover have "unat (vid_as_u64 vid_INVALID) = 2 ^ 64 - 1" "unat (vid_as_u64 vid_INVALID + 1) = 0"
    by (simp_all add: vid_INVALID_def unsigned_minus_1_eq_mask mask_eq_exp_minus_1)
  ultimately show ?thesis using assms(2) by (simp add: get_entries_def csr_limit_def Let_def)
qed

end
