(* ===== verification/Adjacency.thy ===== *)
theory Adjacency
  imports Csr "HOL-Library.Product_Lexorder"
begin

text \<open>
  The adjacency a traversal reads: overlay segments (\<^verbatim>\<open>crates/uni-store/src/storage/adjacency_overlay.rs\<close>), deleted
  edges kept for older readers (\<^verbatim>\<open>shadow_csr.rs\<close>), the visibility of row versions (\<^verbatim>\<open>bulk_gate.rs\<close>), and the
  manager that puts them on top of the packed arrays and compacts them (\<^verbatim>\<open>adjacency_manager.rs\<close>). Warming the
  arrays from storage is not modelled. \<open>None\<close> is a panic: an access out of range, or a vector too large to allocate.
\<close>

subsection \<open>Directions and visibility\<close>

datatype adj_direction = Fwd | Bwd | BothDirs

fun expand :: "adj_direction \<Rightarrow> adj_direction list" where
  "expand BothDirs = [Fwd, Bwd]"
| "expand Fwd = [Fwd]"
| "expand Bwd = [Bwd]"

record row_visibility =
  rv_hwm :: "nat option"
  rv_hidden :: "nat list"

definition at_most :: "nat option \<Rightarrow> row_visibility" where
  "at_most hwm = \<lparr>rv_hwm = hwm, rv_hidden = []\<rparr>"

definition admits :: "row_visibility \<Rightarrow> nat \<Rightarrow> bool" where
  "admits vis version \<longleftrightarrow> (case rv_hwm vis of None \<Rightarrow> True | Some hwm \<Rightarrow> version \<le> hwm) \<and> version \<notin> set (rv_hidden vis)"

subsection \<open>Overlay segments\<close>

record overlay_tombstone =
  ot_eid :: eid
  ot_src :: vid
  ot_dst :: vid
  ot_type :: u32
  ot_version :: nat

type_synonym overlay_key = "u32 \<times> adj_direction"
type_synonym neighbor_map = "(vid, (vid \<times> eid \<times> nat) list) hmap"

record csr_segment =
  seg_inserts :: "(overlay_key, neighbor_map) hmap"
  seg_tombstones :: "(eid, overlay_tombstone) hmap"

definition segment_new :: csr_segment where
  "segment_new = \<lparr>seg_inserts = [], seg_tombstones = []\<rparr>"

definition segment_insert_edge :: "vid \<Rightarrow> vid \<Rightarrow> eid \<Rightarrow> u32 \<Rightarrow> nat \<Rightarrow> adj_direction \<Rightarrow> csr_segment \<Rightarrow> csr_segment" where
  "segment_insert_edge src dst eid edge_type version direction seg =
     (let adj = hget_or [] (seg_inserts seg) (edge_type, direction);
          neighbors = hget_or [] adj src
      in seg\<lparr>seg_inserts := hput (edge_type, direction) (hput src (neighbors @ [(dst, eid, version)]) adj) (seg_inserts seg)\<rparr>)"

definition segment_add_tombstone :: "eid \<Rightarrow> vid \<Rightarrow> vid \<Rightarrow> u32 \<Rightarrow> nat \<Rightarrow> csr_segment \<Rightarrow> csr_segment" where
  "segment_add_tombstone eid src dst edge_type version seg =
     seg\<lparr>seg_tombstones :=
       hput eid \<lparr>ot_eid = eid, ot_src = src, ot_dst = dst, ot_type = edge_type, ot_version = version\<rparr> (seg_tombstones seg)\<rparr>"

text \<open>The list of a key and a vertex, if there is one.\<close>

definition segment_list :: "csr_segment \<Rightarrow> overlay_key \<Rightarrow> vid \<Rightarrow> (vid \<times> eid \<times> nat) list" where
  "segment_list seg key vid =
     (case hget (seg_inserts seg) key of
        None \<Rightarrow> []
      | Some adj \<Rightarrow> (case hget adj vid of None \<Rightarrow> [] | Some neighbors \<Rightarrow> neighbors))"

definition segment_get_neighbors :: "csr_segment \<Rightarrow> vid \<Rightarrow> u32 \<Rightarrow> adj_direction \<Rightarrow> (vid \<times> eid) list" where
  "segment_get_neighbors seg vid edge_type direction =
     map (\<lambda>(neighbor, eid, _). (neighbor, eid))
       (filter (\<lambda>(_, eid, _). hget (seg_tombstones seg) eid = None) (segment_list seg (edge_type, direction) vid))"

definition segment_get_neighbors_at_version :: "csr_segment \<Rightarrow> vid \<Rightarrow> u32 \<Rightarrow> adj_direction \<Rightarrow> nat \<Rightarrow> (vid \<times> eid) list" where
  "segment_get_neighbors_at_version seg vid edge_type direction version =
     map (\<lambda>(neighbor, eid, _). (neighbor, eid))
       (filter (\<lambda>(_, eid, ver). ver \<le> version \<and>
            \<not> (case hget (seg_tombstones seg) eid of None \<Rightarrow> False | Some ts \<Rightarrow> ot_version ts \<le> version))
         (segment_list seg (edge_type, direction) vid))"

definition has_entries_for :: "csr_segment \<Rightarrow> u32 \<Rightarrow> adj_direction \<Rightarrow> bool" where
  "has_entries_for seg edge_type direction \<longleftrightarrow> hget (seg_inserts seg) (edge_type, direction) \<noteq> None"

text \<open>The maps move into maps that are not shared.\<close>

definition freeze_segment :: "csr_segment \<Rightarrow> csr_segment" where
  "freeze_segment seg = \<lparr>seg_inserts = seg_inserts seg, seg_tombstones = seg_tombstones seg\<rparr>"

subsection \<open>Deleted edges\<close>

record shadow_edge =
  sh_neighbor :: vid
  sh_eid :: eid
  sh_type :: u32
  sh_created :: nat
  sh_deleted :: nat

type_synonym shadow_csr = "(overlay_key, (vid, shadow_edge list) hmap) hmap"

definition add_deleted_edge :: "vid \<Rightarrow> shadow_edge \<Rightarrow> adj_direction \<Rightarrow> shadow_csr \<Rightarrow> shadow_csr" where
  "add_deleted_edge src_vid edge direction sh =
     (let key = (sh_type edge, direction);
          bucket = hget_or [] sh key;
          edges = hget_or [] bucket src_vid;
          edges' = (if list_ex (\<lambda>e. sh_eid e = sh_eid edge) edges then edges else edges @ [edge])
      in hput key (hput src_vid edges' bucket) sh)"

definition shadow_get_entries :: "shadow_csr \<Rightarrow> vid \<Rightarrow> u32 \<Rightarrow> adj_direction \<Rightarrow> shadow_edge list" where
  "shadow_get_entries sh vid edge_type direction =
     (case hget sh (edge_type, direction) of
        None \<Rightarrow> []
      | Some bucket \<Rightarrow> (case hget bucket vid of None \<Rightarrow> [] | Some edges \<Rightarrow> edges))"

definition get_entries_at_version :: "shadow_csr \<Rightarrow> vid \<Rightarrow> u32 \<Rightarrow> adj_direction \<Rightarrow> nat \<Rightarrow> (vid \<times> eid) list" where
  "get_entries_at_version sh vid edge_type direction version =
     map (\<lambda>e. (sh_neighbor e, sh_eid e))
       (filter (\<lambda>e. sh_created e \<le> version \<and> sh_deleted e > version) (shadow_get_entries sh vid edge_type direction))"

definition get_entries_visible :: "shadow_csr \<Rightarrow> vid \<Rightarrow> u32 \<Rightarrow> adj_direction \<Rightarrow> row_visibility \<Rightarrow> (vid \<times> eid) list" where
  "get_entries_visible sh vid edge_type direction vis =
     map (\<lambda>e. (sh_neighbor e, sh_eid e))
       (filter (\<lambda>e. admits vis (sh_created e) \<and> \<not> admits vis (sh_deleted e)) (shadow_get_entries sh vid edge_type direction))"

definition shadow_collect_vids :: "shadow_csr \<Rightarrow> u32 \<Rightarrow> adj_direction \<Rightarrow> vid set \<Rightarrow> vid set" where
  "shadow_collect_vids sh edge_type direction out =
     (case hget sh (edge_type, direction) of
        None \<Rightarrow> out
      | Some bucket \<Rightarrow> out \<union> fst ` set (filter (\<lambda>(_, edges). edges \<noteq> []) bucket))"

definition shadow_entry_count :: "shadow_csr \<Rightarrow> nat" where
  "shadow_entry_count sh = sum_list (map (\<lambda>(_, bucket). sum_list (map (\<lambda>(_, edges). length edges) bucket)) sh)"

definition shadow_gc :: "nat \<Rightarrow> shadow_csr \<Rightarrow> shadow_csr" where
  "shadow_gc oldest_active_snapshot_version sh =
     map (\<lambda>(key, bucket).
       (key, filter (\<lambda>(_, edges). edges \<noteq> [])
          (map (\<lambda>(vid, edges). (vid, filter (\<lambda>e. sh_deleted e > oldest_active_snapshot_version) edges)) bucket))) sh"

subsection \<open>The manager\<close>

text \<open>A frozen segment comes with the identity of its \<open>Arc\<close>.\<close>

record adjacency_manager =
  am_main :: "(overlay_key, main_csr) hmap"
  am_stamps :: "(overlay_key, nat) hmap"
  am_active :: csr_segment
  am_frozen :: "(nat \<times> csr_segment) list"
  am_arcs :: nat
  am_shadow :: shadow_csr
  am_bytes :: u64
  am_max_bytes :: nat

definition am_new :: "nat \<Rightarrow> adjacency_manager" where
  "am_new max_bytes =
     \<lparr>am_main = [], am_stamps = [], am_active = segment_new, am_frozen = [], am_arcs = 0, am_shadow = [], am_bytes = 0, am_max_bytes = max_bytes\<rparr>"

definition into_canonical_order :: "(vid \<times> eid) list \<Rightarrow> (vid \<times> eid) list" where
  "into_canonical_order neighbors = (if length neighbors > 1 then remdups_adj (sort neighbors) else neighbors)"

text \<open>One direction after the other, on the result so far.\<close>

fun fold_dirs :: "(adj_direction \<Rightarrow> 'a \<Rightarrow> 'a option) \<Rightarrow> adj_direction list \<Rightarrow> 'a \<Rightarrow> 'a option" where
  "fold_dirs f [] x = Some x"
| "fold_dirs f (d # ds) x = Option.bind (f d x) (fold_dirs f ds)"

definition main_layer :: "adjacency_manager \<Rightarrow> (nat \<Rightarrow> bool) \<Rightarrow> overlay_key \<Rightarrow> vid \<Rightarrow> (vid \<times> eid) list \<Rightarrow> (vid \<times> eid) list option" where
  "main_layer am see key vid result =
     (case hget (am_main am) key of
        None \<Rightarrow> Some result
      | Some csr \<Rightarrow>
          map_option (\<lambda>entries. result @ map (\<lambda>e. (cx_neighbor e, cx_eid e)) (filter (\<lambda>e. see (cx_created e)) entries))
            (get_entries csr vid))"

definition active_layer :: "csr_segment \<Rightarrow> overlay_key \<Rightarrow> vid \<Rightarrow> (vid \<times> eid) list \<Rightarrow> (vid \<times> eid) list" where
  "active_layer seg key vid result =
     (let has_inserts = has_entries_for seg (fst key) (snd key);
          has_tombstones = (seg_tombstones seg \<noteq> []);
          r1 = (if has_inserts then result @ map (\<lambda>(neighbor, eid, _). (neighbor, eid)) (segment_list seg key vid) else result)
      in if has_tombstones then filter (\<lambda>(_, eid). hget (seg_tombstones seg) eid = None) r1 else r1)"

definition frozen_layer :: "csr_segment \<Rightarrow> overlay_key \<Rightarrow> vid \<Rightarrow> (vid \<times> eid) list \<Rightarrow> (vid \<times> eid) list" where
  "frozen_layer seg key vid result =
     (if \<not> has_entries_for seg (fst key) (snd key) \<and> seg_tombstones seg = [] then result else active_layer seg key vid result)"

definition neighbors_dir :: "adjacency_manager \<Rightarrow> vid \<Rightarrow> u32 \<Rightarrow> adj_direction \<Rightarrow> (vid \<times> eid) list \<Rightarrow> (vid \<times> eid) list option" where
  "neighbors_dir am vid edge_type dir result =
     map_option (\<lambda>r. active_layer (am_active am) (edge_type, dir) vid
         (fold (\<lambda>(_, seg). frozen_layer seg (edge_type, dir) vid) (am_frozen am) r))
       (main_layer am (\<lambda>_. True) (edge_type, dir) vid result)"

definition am_get_neighbors :: "adjacency_manager \<Rightarrow> vid \<Rightarrow> u32 \<Rightarrow> adj_direction \<Rightarrow> (vid \<times> eid) list option" where
  "am_get_neighbors am vid edge_type direction =
     map_option into_canonical_order (fold_dirs (neighbors_dir am vid edge_type) (expand direction) [])"

text \<open>The same for a reader that sees some versions only.\<close>

definition deleted_for :: "row_visibility \<Rightarrow> csr_segment \<Rightarrow> eid \<Rightarrow> bool" where
  "deleted_for vis seg eid \<longleftrightarrow> (case hget (seg_tombstones seg) eid of None \<Rightarrow> False | Some ts \<Rightarrow> admits vis (ot_version ts))"

definition frozen_layer_visible :: "row_visibility \<Rightarrow> csr_segment \<Rightarrow> overlay_key \<Rightarrow> vid \<Rightarrow> (vid \<times> eid) list \<Rightarrow> (vid \<times> eid) list" where
  "frozen_layer_visible vis seg key vid result =
     (let has_inserts = has_entries_for seg (fst key) (snd key);
          has_tombstones = (seg_tombstones seg \<noteq> []);
          r1 = (if has_inserts
                then result @ map (\<lambda>(neighbor, eid, _). (neighbor, eid)) (filter (\<lambda>(_, _, ver). admits vis ver) (segment_list seg key vid))
                else result)
      in if \<not> has_inserts \<and> \<not> has_tombstones then result
         else if has_tombstones then filter (\<lambda>(_, eid). \<not> deleted_for vis seg eid) r1 else r1)"

definition active_layer_visible :: "row_visibility \<Rightarrow> csr_segment \<Rightarrow> overlay_key \<Rightarrow> vid \<Rightarrow> (vid \<times> eid) list \<Rightarrow> (vid \<times> eid) list" where
  "active_layer_visible vis seg key vid result =
     (let r1 = (if has_entries_for seg (fst key) (snd key)
                then result @ map (\<lambda>(neighbor, eid, _). (neighbor, eid))
                  (filter (\<lambda>(_, eid, ver). admits vis ver \<and> \<not> deleted_for vis seg eid) (segment_list seg key vid))
                else result)
      in if seg_tombstones seg \<noteq> [] then filter (\<lambda>(_, eid). \<not> deleted_for vis seg eid) r1 else r1)"

definition visible_dir :: "row_visibility \<Rightarrow> adjacency_manager \<Rightarrow> vid \<Rightarrow> u32 \<Rightarrow> adj_direction \<Rightarrow> (vid \<times> eid) list \<Rightarrow> (vid \<times> eid) list option" where
  "visible_dir vis am vid edge_type dir result =
     map_option (\<lambda>r. active_layer_visible vis (am_active am) (edge_type, dir) vid
         (fold (\<lambda>(_, seg). frozen_layer_visible vis seg (edge_type, dir) vid) (am_frozen am) r) @
         get_entries_visible (am_shadow am) vid edge_type dir vis)
       (main_layer am (admits vis) (edge_type, dir) vid result)"

definition get_neighbors_visible :: "adjacency_manager \<Rightarrow> vid \<Rightarrow> u32 \<Rightarrow> adj_direction \<Rightarrow> row_visibility \<Rightarrow> (vid \<times> eid) list option" where
  "get_neighbors_visible am vid edge_type direction vis =
     map_option into_canonical_order (fold_dirs (visible_dir vis am vid edge_type) (expand direction) [])"

definition am_neighbors_at_version :: "adjacency_manager \<Rightarrow> vid \<Rightarrow> u32 \<Rightarrow> adj_direction \<Rightarrow> nat \<Rightarrow> (vid \<times> eid) list option" where
  "am_neighbors_at_version am vid edge_type direction version =
     get_neighbors_visible am vid edge_type direction (at_most (Some version))"

definition source_vids_dir :: "adjacency_manager \<Rightarrow> u32 \<Rightarrow> bool \<Rightarrow> adj_direction \<Rightarrow> vid set \<Rightarrow> vid set" where
  "source_vids_dir am edge_type include_shadow dir out =
     (let keys = (\<lambda>seg. case hget (seg_inserts seg) (edge_type, dir) of None \<Rightarrow> {} | Some adj \<Rightarrow> fst ` set adj);
          main = (case hget (am_main am) (edge_type, dir) of None \<Rightarrow> {} | Some csr \<Rightarrow> set (vids_with_entries csr));
          out1 = out \<union> main \<union> \<Union> (set (map (\<lambda>(_, seg). keys seg) (am_frozen am))) \<union> keys (am_active am)
      in if include_shadow then shadow_collect_vids (am_shadow am) edge_type dir out1 else out1)"

definition collect_source_vids :: "adjacency_manager \<Rightarrow> u32 \<Rightarrow> adj_direction \<Rightarrow> bool \<Rightarrow> vid set \<Rightarrow> vid set" where
  "collect_source_vids am edge_type direction include_shadow out =
     fold (source_vids_dir am edge_type include_shadow) (expand direction) out"

definition am_insert_edge :: "vid \<Rightarrow> vid \<Rightarrow> eid \<Rightarrow> u32 \<Rightarrow> nat \<Rightarrow> adjacency_manager \<Rightarrow> adjacency_manager" where
  "am_insert_edge src dst eid edge_type version am =
     am\<lparr>am_active := segment_insert_edge dst src eid edge_type version Bwd
          (segment_insert_edge src dst eid edge_type version Fwd (am_active am))\<rparr>"

definition am_add_tombstone :: "eid \<Rightarrow> vid \<Rightarrow> vid \<Rightarrow> u32 \<Rightarrow> nat \<Rightarrow> adjacency_manager \<Rightarrow> adjacency_manager" where
  "am_add_tombstone eid src dst edge_type version am =
     am\<lparr>am_active := segment_add_tombstone eid src dst edge_type version (am_active am)\<rparr>"

definition set_main_csr :: "overlay_key \<Rightarrow> main_csr \<Rightarrow> adjacency_manager \<Rightarrow> adjacency_manager" where
  "set_main_csr key csr am =
     am\<lparr>am_main := hput key csr (am_main am), am_bytes := am_bytes am + of_nat (csr_memory_usage csr)\<rparr>"

definition has_csr :: "adjacency_manager \<Rightarrow> overlay_key \<Rightarrow> bool" where
  "has_csr am key \<longleftrightarrow> hget (am_main am) key \<noteq> None"

definition invalidate_all_csr :: "adjacency_manager \<Rightarrow> adjacency_manager" where
  "invalidate_all_csr am = am\<lparr>am_main := [], am_stamps := []\<rparr>"

definition am_reset :: "adjacency_manager \<Rightarrow> adjacency_manager" where
  "am_reset am = am\<lparr>am_active := segment_new, am_frozen := [], am_main := [], am_stamps := [], am_shadow := [], am_bytes := 0\<rparr>"

definition invalidate_csr :: "overlay_key \<Rightarrow> adjacency_manager \<Rightarrow> adjacency_manager" where
  "invalidate_csr key am = am\<lparr>am_main := hdel key (am_main am), am_stamps := hdel key (am_stamps am)\<rparr>"

definition is_active_for :: "adjacency_manager \<Rightarrow> u32 \<Rightarrow> adj_direction \<Rightarrow> bool" where
  "is_active_for am edge_type direction \<longleftrightarrow>
     list_ex (\<lambda>d. has_csr am (edge_type, d) \<or> has_entries_for (am_active am) edge_type d) (expand direction)"

definition known_edge_type_ids :: "adjacency_manager \<Rightarrow> u32 list" where
  "known_edge_type_ids am =
     remdups_adj (sort (map (fst \<circ> fst) (am_main am) @ map (fst \<circ> fst) (seg_inserts (am_active am)) @
       concat (map (\<lambda>(_, seg). map (fst \<circ> fst) (seg_inserts seg)) (am_frozen am))))"

definition approx_edge_count :: "adjacency_manager \<Rightarrow> u32 \<Rightarrow> nat" where
  "approx_edge_count am edge_type =
     (let key = (edge_type, Fwd);
          inserts = (\<lambda>seg. case hget (seg_inserts seg) key of None \<Rightarrow> 0 | Some adj \<Rightarrow> sum_list (map (\<lambda>(_, ns). length ns) adj))
      in (case hget (am_main am) key of None \<Rightarrow> 0 | Some csr \<Rightarrow> csr_num_edges csr) +
         sum_list (map (\<lambda>(_, seg). inserts seg) (am_frozen am)) + inserts (am_active am))"

definition should_compact :: "adjacency_manager \<Rightarrow> nat \<Rightarrow> bool" where
  "should_compact am threshold \<longleftrightarrow> length (am_frozen am) \<ge> threshold"

subsection \<open>Compaction\<close>

text \<open>Of the entries with the same edge id, the first with the highest version stays.\<close>

definition note_best :: "raw_edge list \<Rightarrow> nat \<Rightarrow> (eid, nat) hmap \<Rightarrow> (eid, nat) hmap" where
  "note_best entries idx best =
     (let (_, _, eid, ver) = entries ! idx
      in case hget best eid of
           None \<Rightarrow> hput eid idx best
         | Some j \<Rightarrow> (let (_, _, _, v) = entries ! j in if ver > v then hput eid idx best else best))"

definition dedup_entries_by_eid :: "raw_edge list \<Rightarrow> raw_edge list" where
  "dedup_entries_by_eid entries =
     (let keep = snd ` set (fold (note_best entries) [0..<length entries] [])
      in map (\<lambda>i. entries ! i) (filter (\<lambda>i. i \<in> keep) [0..<length entries]))"

definition move_tombstone ::
  "overlay_key \<Rightarrow> eid \<times> overlay_tombstone \<Rightarrow> eid set \<times> shadow_csr \<Rightarrow> eid set \<times> shadow_csr" where
  "move_tombstone key e st =
     (case (key, e, st) of ((edge_type, direction), (eid, ts), (tombstoned, sh)) \<Rightarrow>
        if ot_type ts = edge_type
        then
          let (key_vid, neighbor_vid) = (if direction = Bwd then (ot_dst ts, ot_src ts) else (ot_src ts, ot_dst ts))
          in (insert eid tombstoned,
              add_deleted_edge key_vid
                \<lparr>sh_neighbor = neighbor_vid, sh_eid = eid, sh_type = edge_type, sh_created = 0, sh_deleted = ot_version ts\<rparr> direction sh)
        else (tombstoned, sh))"

definition old_csr_entries :: "main_csr option \<Rightarrow> raw_edge list option" where
  "old_csr_entries old =
     (case old of
        None \<Rightarrow> Some []
      | Some csr \<Rightarrow>
          map_option concat (those (map (\<lambda>i. map_option (map (\<lambda>e. (i, cx_neighbor e, cx_eid e, cx_created e))) (get_entries csr (Vid (of_nat i))))
            [0..<csr_num_vertices csr])))"

definition segment_entries :: "overlay_key \<Rightarrow> csr_segment \<Rightarrow> raw_edge list" where
  "segment_entries key seg =
     (case hget (seg_inserts seg) key of
        None \<Rightarrow> []
      | Some adj \<Rightarrow>
          concat (map (\<lambda>(vid, neighbors). map (\<lambda>(neighbor, eid, version). (unat (vid_as_u64 vid), neighbor, eid, version)) neighbors) adj))"

definition compact_key :: "csr_segment list \<Rightarrow> overlay_key \<Rightarrow> adjacency_manager \<Rightarrow> adjacency_manager option" where
  "compact_key segments key am =
     (let (tombstoned, sh) = fold (\<lambda>seg. fold (move_tombstone key) (seg_tombstones seg)) segments ({}, am_shadow am);
          live = filter (\<lambda>(_, _, eid, _). eid \<notin> tombstoned)
      in case old_csr_entries (hget (am_main am) key) of
           None \<Rightarrow> None
         | Some old \<Rightarrow>
             let entries = live old @ concat (map (\<lambda>seg. live (segment_entries key seg)) segments);
                 max_offset = fold max (map fst entries) 0;
                 old_size = (case hget (am_main am) key of None \<Rightarrow> 0 | Some csr \<Rightarrow> of_nat (csr_memory_usage csr))
             in map_option (\<lambda>new_csr. am\<lparr>am_shadow := sh, am_main := hput key new_csr (am_main am),
                    am_bytes := am_bytes am - old_size + of_nat (csr_memory_usage new_csr)\<rparr>)
                  (from_edge_entries max_offset (dedup_entries_by_eid entries)))"

text \<open>The steps: take the active segment, publish it as frozen, install an array per key, drop what was merged.\<close>

definition compact_take :: "adjacency_manager \<Rightarrow> csr_segment \<times> adjacency_manager" where
  "compact_take am = (freeze_segment (am_active am), am\<lparr>am_active := segment_new\<rparr>)"

definition compact_push :: "csr_segment \<Rightarrow> adjacency_manager \<Rightarrow> adjacency_manager" where
  "compact_push seg am = am\<lparr>am_frozen := am_frozen am @ [(am_arcs am, seg)], am_arcs := am_arcs am + 1\<rparr>"

definition compact_keys :: "csr_segment list \<Rightarrow> adjacency_manager \<Rightarrow> overlay_key list" where
  "compact_keys segments am = fold hset_insert (concat (map (\<lambda>seg. map fst (seg_inserts seg)) segments) @ map fst (am_main am)) []"

fun compact_install :: "csr_segment list \<Rightarrow> overlay_key list \<Rightarrow> adjacency_manager \<Rightarrow> adjacency_manager option" where
  "compact_install segments [] am = Some am"
| "compact_install segments (key # keys) am = Option.bind (compact_key segments key am) (compact_install segments keys)"

definition compact_drain :: "(nat \<times> csr_segment) list \<Rightarrow> adjacency_manager \<Rightarrow> adjacency_manager" where
  "compact_drain segments am = am\<lparr>am_frozen := filter (\<lambda>(i, _). i \<notin> fst ` set segments) (am_frozen am)\<rparr>"

definition compact_adjacency :: "adjacency_manager \<Rightarrow> adjacency_manager option" where
  "compact_adjacency am =
     (case compact_take am of (frozen, am1) \<Rightarrow>
        let am2 = compact_push frozen am1;
            segments = am_frozen am2
        in map_option (compact_drain segments)
             (compact_install (map snd segments) (compact_keys (map snd segments) am2) am2))"

definition gc_shadow :: "nat option \<Rightarrow> nat \<Rightarrow> adjacency_manager \<Rightarrow> adjacency_manager" where
  "gc_shadow min_pinned current_version am =
     (let floor = (case min_pinned of None \<Rightarrow> current_version | Some pinned \<Rightarrow> min pinned current_version)
      in am\<lparr>am_shadow := shadow_gc floor (am_shadow am)\<rparr>)"

end
