(* ===== verification/Adjacency_Exact.thy ===== *)
theory Adjacency_Exact
  imports Adjacency Commit
begin

text \<open>
  What a traversal reads is what the commits have written, wherever the edges are. The calls are those that commits make
  (\<open>wr_adjacency\<close>), with compactions in between.
\<close>

subsection \<open>Segments and arrays as sets of rows\<close>

lemma distinct_remdups_adj: "sorted xs \<Longrightarrow> distinct (remdups_adj xs)" for xs :: "'a :: linorder list"
proof (induction xs rule: remdups_adj.induct)
  case (3 x y xs)
  then show ?case by (cases "x = y") (auto simp: dest: order_antisym)
qed simp_all

lemma into_canonical_order_set: "into_canonical_order xs = sorted_list_of_set (set xs)"
proof (cases "length xs > 1")
  case True
  have "sorted (remdups_adj (sort xs))" "distinct (remdups_adj (sort xs))" by (simp_all add: distinct_remdups_adj)
  then have "sorted_list_of_set (set (remdups_adj (sort xs))) = remdups_adj (sort xs)" by (rule sorted_list_of_set.idem_if_sorted_distinct)
  then show ?thesis using True by (simp add: into_canonical_order_def)
next
  case False
  then show ?thesis by (cases xs) (auto simp: into_canonical_order_def)
qed

text \<open>Removing duplicates keeps an entry of every edge.\<close>

lemma note_best_ok:
  assumes "\<forall>e i. hget best e = Some i \<longrightarrow> i < length entries \<and> fst (snd (snd (entries ! i))) = e" "idx < length entries"
  shows "(\<forall>e i. hget (note_best entries idx best) e = Some i \<longrightarrow> i < length entries \<and> fst (snd (snd (entries ! i))) = e) \<and>
    dom (map_of (note_best entries idx best)) = insert (fst (snd (snd (entries ! idx)))) (dom (map_of best))"
proof -
  obtain s n e v where x: "entries ! idx = (s, n, e, v)" by (cases "entries ! idx") auto
  show ?thesis using assms by (auto simp: note_best_def x split: option.splits prod.splits if_splits)
qed

lemma fold_note_best:
  assumes "\<forall>i\<in>set js. i < length entries" "\<forall>e i. hget best e = Some i \<longrightarrow> i < length entries \<and> fst (snd (snd (entries ! i))) = e"
  shows "(\<forall>e i. hget (fold (note_best entries) js best) e = Some i \<longrightarrow> i < length entries \<and> fst (snd (snd (entries ! i))) = e) \<and>
    dom (map_of (fold (note_best entries) js best)) = (\<lambda>i. fst (snd (snd (entries ! i)))) ` set js \<union> dom (map_of best)"
  using assms
proof (induction js arbitrary: best)
  case (Cons i js)
  note step = note_best_ok [OF Cons.prems(2), of i]
  show ?case using Cons.IH [of "note_best entries i best"] Cons.prems(1) step by auto
qed simp

lemma dedup_entries:
  "set (dedup_entries_by_eid entries) \<subseteq> set entries" "length (dedup_entries_by_eid entries) \<le> length entries"
  "(s, n, e, v) \<in> set entries \<Longrightarrow> \<exists>s' n' v'. (s', n', e, v') \<in> set (dedup_entries_by_eid entries)"
proof -
  let ?best = "fold (note_best entries) [0..<length entries] []"
  show "set (dedup_entries_by_eid entries) \<subseteq> set entries" by (auto simp: dedup_entries_by_eid_def)
  show "length (dedup_entries_by_eid entries) \<le> length entries"
    using length_filter_le [of "\<lambda>i. i \<in> snd ` set ?best" "[0..<length entries]"] by (simp add: dedup_entries_by_eid_def)
  assume "(s, n, e, v) \<in> set entries"
  then obtain j where j: "j < length entries" "entries ! j = (s, n, e, v)" by (auto simp: in_set_conv_nth)
  have best: "\<forall>e i. hget ?best e = Some i \<longrightarrow> i < length entries \<and> fst (snd (snd (entries ! i))) = e"
    "dom (map_of ?best) = (\<lambda>i. fst (snd (snd (entries ! i)))) ` {..<length entries}"
    using fold_note_best [of "[0..<length entries]" entries "[]"] by (auto simp: lessThan_atLeast0)
  have "e \<in> dom (map_of ?best)" unfolding best(2) using j by force
  then obtain i where i: "hget ?best e = Some i" by blast
  then have "i < length entries" "fst (snd (snd (entries ! i))) = e" "i \<in> snd ` set ?best"
    using best(1) map_of_SomeD [OF i] by (auto intro: rev_image_eqI)
  then have "entries ! i \<in> set (dedup_entries_by_eid entries)" by (auto simp: dedup_entries_by_eid_def)
  then show "\<exists>s' n' v'. (s', n', e, v') \<in> set (dedup_entries_by_eid entries)"
    using \<open>fst (snd (snd (entries ! i))) = e\<close> by (metis prod.collapse)
qed

definition segment_ok :: "csr_segment \<Rightarrow> bool" where
  "segment_ok seg \<longleftrightarrow> hmap_ok (seg_tombstones seg) \<and> (\<forall>key adj. hget (seg_inserts seg) key = Some adj \<longrightarrow> hmap_ok adj)"

definition vnum :: "vid \<Rightarrow> nat" where
  "vnum v = unat (vid_as_u64 v)"

lemma vnum_inject [simp]: "vnum v = vnum w \<longleftrightarrow> v = w"
  by (cases v; cases w) (simp add: vnum_def word_unat_eq_iff)

lemma segment_new_rows [simp]: "segment_entries key segment_new = []" "segment_ok segment_new" "hget (seg_tombstones segment_new) = Map.empty"
  by (simp_all add: segment_entries_def segment_new_def segment_ok_def)

lemma segment_list_rows:
  assumes "segment_ok seg"
  shows "(n, e, w) \<in> set (segment_list seg key v) \<longleftrightarrow> (vnum v, n, e, w) \<in> set (segment_entries key seg)"
proof (cases "hget (seg_inserts seg) key")
  case (Some adj)
  then have ok: "hmap_ok adj" using assms unfolding segment_ok_def by blast
  have "(vnum v, n, e, w) \<in> set (segment_entries key seg) \<longleftrightarrow> (\<exists>u ns. hget adj u = Some ns \<and> vnum v = vnum u \<and> (n, e, w) \<in> set ns)"
    unfolding segment_entries_def Some by (force simp: hmap_entries [OF ok, symmetric] vnum_def)
  then show ?thesis by (auto simp: segment_list_def Some split: option.splits)
qed (simp add: segment_list_def segment_entries_def)

lemma concat_hput:
  assumes "hmap_ok adj"
  shows "mset (concat (map f (hput k x adj))) + (case hget adj k of None \<Rightarrow> {#} | Some y \<Rightarrow> mset (f (k, y))) =
    mset (concat (map f adj)) + mset (f (k, x))"
  using assms by (induction adj) (auto simp: hmap_ok_Cons union_ac split: option.splits)

text \<open>Inserting an edge adds one row to one key.\<close>

lemma segment_insert_rows:
  assumes ok: "segment_ok seg"
  shows "segment_ok (segment_insert_edge s d e t w dir seg)"
    "mset (segment_entries key (segment_insert_edge s d e t w dir seg)) =
       mset (segment_entries key seg) + (if key = (t, dir) then {#(vnum s, d, e, w)#} else {#})"
    "seg_tombstones (segment_insert_edge s d e t w dir seg) = seg_tombstones seg"
proof -
  let ?adj = "hget_or [] (seg_inserts seg) (t, dir)"
  have adj: "hmap_ok ?adj" using ok by (cases "hget (seg_inserts seg) (t, dir)") (auto simp: hget_or_def segment_ok_def)
  show "segment_ok (segment_insert_edge s d e t w dir seg)"
    using ok adj by (auto simp: segment_ok_def segment_insert_edge_def Let_def)
  show "seg_tombstones (segment_insert_edge s d e t w dir seg) = seg_tombstones seg" by (simp add: segment_insert_edge_def Let_def)
  let ?f = "\<lambda>(v, ns). map (\<lambda>(n, e, w). (unat (vid_as_u64 v), n, e, w :: nat)) ns"
  show "mset (segment_entries key (segment_insert_edge s d e t w dir seg)) =
       mset (segment_entries key seg) + (if key = (t, dir) then {#(vnum s, d, e, w)#} else {#})"
  proof (cases "key = (t, dir)")
    case True
    have "segment_entries key seg = concat (map ?f ?adj)" by (auto simp: segment_entries_def True hget_or_def split: option.splits)
    moreover have "segment_entries key (segment_insert_edge s d e t w dir seg) = concat (map ?f (hput s (hget_or [] ?adj s @ [(d, e, w)]) ?adj))"
      by (simp add: segment_entries_def segment_insert_edge_def True Let_def)
    ultimately show ?thesis using concat_hput [OF adj, of ?f s "hget_or [] ?adj s @ [(d, e, w)]"] True
      by (auto simp: hget_or_def vnum_def split: option.splits)
  next
    case False
    then show ?thesis by (simp add: segment_entries_def segment_insert_edge_def Let_def)
  qed
qed

lemma segment_tombstone_rows [simp]:
  "segment_entries key (segment_add_tombstone e s d t w seg) = segment_entries key seg"
  "segment_ok seg \<Longrightarrow> segment_ok (segment_add_tombstone e s d t w seg)"
  "hget (seg_tombstones (segment_add_tombstone e s d t w seg)) =
     (hget (seg_tombstones seg))(e \<mapsto> \<lparr>ot_eid = e, ot_src = s, ot_dst = d, ot_type = t, ot_version = w\<rparr>)"
  by (auto simp: segment_entries_def segment_add_tombstone_def segment_ok_def)

subsection \<open>Arrays\<close>

definition csr_built :: "main_csr \<Rightarrow> raw_edge list \<Rightarrow> bool" where
  "csr_built csr raw \<longleftrightarrow> (\<exists>m. csr = csr_of m raw \<and> length raw < u32_mod \<and> (\<forall>r\<in>set raw. fst r \<le> m) \<and> m < csr_limit)"

lemma csr_built_entries:
  assumes "csr_built csr raw" "v \<noteq> vid_INVALID"
  shows "get_entries csr v = Some (map raw_entry (filter (\<lambda>r. fst r = vnum v) raw))"
  using assms get_entries_from by (auto simp: csr_built_def vnum_def)

lemma csr_built_vertices:
  assumes "csr_built csr raw" "r \<in> set raw"
  shows "fst r < csr_num_vertices csr" "csr_num_vertices csr \<le> csr_limit"
proof -
  obtain m where m: "csr = csr_of m raw" "length raw < u32_mod" "\<forall>r\<in>set raw. fst r \<le> m" "m < csr_limit"
    using assms(1) by (auto simp: csr_built_def)
  have "raw \<noteq> []" using assms(2) by auto
  then have "length (csr_offsets csr) = m + 2" using csr_of_ok(2) m(1,2) by blast
  then have "csr_num_vertices csr = m + 1" by (auto simp: csr_num_vertices_def)
  then show "fst r < csr_num_vertices csr" "csr_num_vertices csr \<le> csr_limit" using m(3,4) assms(2) by auto
qed

lemma vnum_of_nat: "i < csr_limit \<Longrightarrow> vnum (Vid (of_nat i)) = i" "i < csr_limit \<Longrightarrow> Vid (of_nat i) \<noteq> vid_INVALID"
proof -
  assume i: "i < csr_limit"
  then show n: "vnum (Vid (of_nat i)) = i" by (simp add: vnum_def csr_limit_def unat_of_nat take_bit_nat_eq_self)
  have "vnum vid_INVALID = 2 ^ 64 - 1" by (simp add: vnum_def vid_INVALID_def unsigned_minus_1_eq_mask mask_eq_exp_minus_1)
  then show "Vid (of_nat i) \<noteq> vid_INVALID" using i n by (auto simp: csr_limit_def)
qed

lemma those_Some: "those (map (\<lambda>i. Some (g i)) xs) = Some (map g xs)"
  by (induction xs) simp_all

lemma mset_by_number: "mset (concat (map (\<lambda>i. filter (\<lambda>r. f r = i) xs) [0..<n])) = mset (filter (\<lambda>r. f r < n) xs)" for f :: "'a \<Rightarrow> nat"
proof (induction n)
  case (Suc n)
  have "filter_mset (\<lambda>r. f r < Suc n) (mset xs) = filter_mset (\<lambda>r. f r < n) (mset xs) + filter_mset (\<lambda>r. f r = n) (mset xs)"
    by (induction xs) (auto simp: less_Suc_eq)
  then show ?case using Suc by simp
qed simp

lemma old_entries:
  assumes "case old of None \<Rightarrow> raw = [] | Some csr \<Rightarrow> csr_built csr raw"
  shows "\<exists>es. old_csr_entries old = Some es \<and> mset es = mset raw"
proof (cases old)
  case (Some csr)
  then have b: "csr_built csr raw" using assms by simp
  let ?n = "csr_num_vertices csr"
  have all: "\<forall>r\<in>set raw. fst r < ?n" using csr_built_vertices(1) [OF b] by blast
  have row: "map_option (map (\<lambda>e. (i, cx_neighbor e, cx_eid e, cx_created e))) (get_entries csr (Vid (of_nat i))) = Some (filter (\<lambda>r. fst r = i) raw)"
    if i: "i < ?n" for i
  proof (cases "raw = []")
    case True
    then have "?n = 0" using b by (auto simp: csr_built_def csr_of_def csr_empty_def csr_num_vertices_def)
    then show ?thesis using i by simp
  next
    case False
    then obtain r where "r \<in> set raw" by (cases raw) auto
    then have "i < csr_limit" using csr_built_vertices(2) [OF b] i by fastforce
    then have v: "vnum (Vid (of_nat i)) = i" "Vid (of_nat i) \<noteq> vid_INVALID" by (rule vnum_of_nat)+
    have "map (\<lambda>e. (i, cx_neighbor e, cx_eid e, cx_created e)) (map raw_entry rs) = rs" if "\<forall>r\<in>set rs. fst r = i" for rs
      using that by (induction rs) auto
    then show ?thesis unfolding csr_built_entries [OF b v(2)] v(1) by simp
  qed
  have "old_csr_entries old = map_option concat (those (map (\<lambda>i. Some (filter (\<lambda>r. fst r = i) raw)) [0..<?n]))"
    unfolding old_csr_entries_def Some option.case
    by (intro arg_cong [of _ _ "map_option concat"] arg_cong [of _ _ those] map_cong refl row) simp
  moreover have "mset (concat (map (\<lambda>i. filter (\<lambda>r. fst r = i) raw) [0..<?n])) = mset raw"
    unfolding mset_by_number using all by (simp add: filter_id_conv)
  ultimately show ?thesis by (simp add: those_Some)
qed (use assms in \<open>simp add: old_csr_entries_def\<close>)

subsection \<open>Calls and compactions\<close>

datatype adj_event = AdjCall adjacency_call | CompactAdjacency

fun apply_call :: "adjacency_call \<Rightarrow> adjacency_manager \<Rightarrow> adjacency_manager" where
  "apply_call (AdjInsertEdge src dst eid etype version) am = am_insert_edge src dst eid etype version am"
| "apply_call (AddTombstone eid src dst etype version) am = am_add_tombstone eid src dst etype version am"

fun adj_step :: "adj_event \<Rightarrow> adjacency_manager \<Rightarrow> adjacency_manager option" where
  "adj_step (AdjCall c) am = Some (apply_call c am)"
| "adj_step CompactAdjacency am = compact_adjacency am"

fun adj_run :: "adj_event list \<Rightarrow> adjacency_manager \<Rightarrow> adjacency_manager option" where
  "adj_run [] am = Some am"
| "adj_run (e # es) am = Option.bind (adj_step e am) (adj_run es)"

fun calls_of :: "adj_event list \<Rightarrow> adjacency_call list" where
  "calls_of [] = []"
| "calls_of (AdjCall c # es) = c # calls_of es"
| "calls_of (CompactAdjacency # es) = calls_of es"

fun call_edge :: "adjacency_call \<Rightarrow> eid \<times> vid \<times> vid \<times> u32" where
  "call_edge (AdjInsertEdge s d e t _) = (e, s, d, t)"
| "call_edge (AddTombstone e s d t _) = (e, s, d, t)"

fun ends_fit :: "adjacency_call \<Rightarrow> bool" where
  "ends_fit (AdjInsertEdge s d _ _ _) \<longleftrightarrow> vnum s < csr_limit \<and> vnum d < csr_limit"
| "ends_fit (AddTombstone _ _ _ _ _) \<longleftrightarrow> True"

fun inserted :: "adjacency_call list \<Rightarrow> eid set" where
  "inserted [] = {}"
| "inserted (AdjInsertEdge _ _ e _ _ # cs) = insert e (inserted cs)"
| "inserted (AddTombstone _ _ _ _ _ # cs) = inserted cs"

fun deleted :: "adjacency_call list \<Rightarrow> eid set" where
  "deleted [] = {}"
| "deleted (AdjInsertEdge _ _ _ _ _ # cs) = deleted cs"
| "deleted (AddTombstone e _ _ _ _ # cs) = insert e (deleted cs)"

lemma inserted_append [simp]: "inserted (xs @ ys) = inserted xs \<union> inserted ys"
  by (induction xs rule: inserted.induct) auto

lemma deleted_append [simp]: "deleted (xs @ ys) = deleted xs \<union> deleted ys"
  by (induction xs rule: deleted.induct) auto

lemma inserted_snoc: "inserted (cs @ [AdjInsertEdge s d e t w]) = insert e (inserted cs)"
    "inserted (cs @ [AddTombstone e s d t w]) = inserted cs"
  and deleted_snoc: "deleted (cs @ [AdjInsertEdge s d e t w]) = deleted cs"
    "deleted (cs @ [AddTombstone e s d t w]) = insert e (deleted cs)"
  by auto

text \<open>An edge is listed at its source, with its target, and at its target, with its source.\<close>

fun listed :: "vid \<times> vid \<times> u32 \<Rightarrow> overlay_key \<Rightarrow> nat \<Rightarrow> vid \<Rightarrow> bool" where
  "listed (s, d, t) (t', dir) i n \<longleftrightarrow> t = t' \<and> ((dir = Fwd \<and> i = vnum s \<and> n = d) \<or> (dir = Bwd \<and> i = vnum d \<and> n = s))"

text \<open>The rows of a key: those of its array and those of the active segment.\<close>

definition adj_rows :: "(overlay_key \<Rightarrow> raw_edge list) \<Rightarrow> adjacency_manager \<Rightarrow> overlay_key \<Rightarrow> raw_edge list" where
  "adj_rows R am key = R key @ segment_entries key (am_active am)"

definition adj_inv :: "(eid \<Rightarrow> vid \<times> vid \<times> u32) \<Rightarrow> adjacency_call list \<Rightarrow> (overlay_key \<Rightarrow> raw_edge list) \<Rightarrow> adjacency_manager \<Rightarrow> bool" where
  "adj_inv ends cs R am \<longleftrightarrow> am_frozen am = [] \<and> segment_ok (am_active am) \<and>
     (\<forall>key. case hget (am_main am) key of None \<Rightarrow> R key = [] | Some csr \<Rightarrow> csr_built csr (R key)) \<and>
     (\<forall>key. length (adj_rows R am key) \<le> length cs) \<and>
     (\<forall>key i n e w. (i, n, e, w) \<in> set (adj_rows R am key) \<longrightarrow> listed (ends e) key i n \<and> i < csr_limit \<and> e \<in> inserted cs \<and>
        (e \<in> deleted cs \<longrightarrow> hget (seg_tombstones (am_active am)) e \<noteq> None)) \<and>
     (\<forall>key i n e. e \<in> inserted cs \<longrightarrow> e \<notin> deleted cs \<longrightarrow> listed (ends e) key i n \<longrightarrow> (\<exists>w. (i, n, e, w) \<in> set (adj_rows R am key))) \<and>
     (\<forall>e ts. hget (seg_tombstones (am_active am)) e = Some ts \<longrightarrow> e \<in> deleted cs \<and> ends e = (ot_src ts, ot_dst ts, ot_type ts))"

lemma adj_inv_new: "adj_inv ends [] (\<lambda>_. []) (am_new b)"
  by (simp add: adj_inv_def am_new_def adj_rows_def)

lemma adj_inv_call:
  assumes inv: "adj_inv ends cs R am" and c: "call_edge c = (e, ends e)" and fresh: "\<And>s d t w. c = AdjInsertEdge s d e t w \<Longrightarrow> e \<notin> deleted cs"
    and "ends_fit c"
  shows "adj_inv ends (cs @ [c]) R (apply_call c am)"
proof (cases c)
  case (AdjInsertEdge s d e' t w)
  then have e: "e' = e" "ends e = (s, d, t)" "e \<notin> deleted cs" and fit: "vnum s < csr_limit" "vnum d < csr_limit" using c fresh assms(4) by auto
  let ?am = "am_insert_edge s d e t w am" and ?seg1 = "segment_insert_edge s d e t w Fwd (am_active am)"
  note i = inv [unfolded adj_inv_def]
  have seg: "segment_ok (am_active am)" using i by blast
  have complete: "\<And>key i n e. e \<in> inserted cs \<Longrightarrow> e \<notin> deleted cs \<Longrightarrow> listed (ends e) key i n \<Longrightarrow> \<exists>w. (i, n, e, w) \<in> set (adj_rows R am key)"
    and sound: "\<And>key i n e w. (i, n, e, w) \<in> set (adj_rows R am key) \<Longrightarrow> listed (ends e) key i n \<and> i < csr_limit \<and> e \<in> inserted cs \<and>
        (e \<in> deleted cs \<longrightarrow> hget (seg_tombstones (am_active am)) e \<noteq> None)" using i by blast+
  note s1 = segment_insert_rows [OF seg, where s = s and d = d and e = e and t = t and w = w and dir = Fwd]
  note s2 = segment_insert_rows [OF s1(1), where s = d and d = s and e = e and t = t and w = w and dir = Bwd]
  have rows: "mset (adj_rows R ?am key) = mset (adj_rows R am key) +
      (if key = (t, Fwd) then {#(vnum s, d, e, w)#} else {#}) + (if key = (t, Bwd) then {#(vnum d, s, e, w)#} else {#})" for key
    by (simp add: adj_rows_def am_insert_edge_def s1(2) s2(2))
  have mem: "x \<in> set (adj_rows R ?am key) \<longleftrightarrow> x \<in> set (adj_rows R am key) \<or> key = (t, Fwd) \<and> x = (vnum s, d, e, w) \<or> key = (t, Bwd) \<and> x = (vnum d, s, e, w)" for x key
    using arg_cong [OF rows [of key], of set_mset] by auto
  have len: "length (adj_rows R ?am key) \<le> Suc (length (adj_rows R am key))" for key
    using arg_cong [OF rows [of key], of size] by (auto split: if_splits)
  have same: "am_frozen ?am = am_frozen am" "am_main ?am = am_main am" "seg_tombstones (am_active ?am) = seg_tombstones (am_active am)"
    "segment_ok (am_active ?am)" using s1 s2 by (simp_all add: am_insert_edge_def)
  show ?thesis
    unfolding AdjInsertEdge e(1) apply_call.simps adj_inv_def same(1,2,3) inserted_snoc deleted_snoc
  proof (intro conjI)
    show "\<forall>key. length (adj_rows R ?am key) \<le> length (cs @ [AdjInsertEdge s d e t w])" using len i by (fastforce intro: le_trans)
    show "\<forall>key i n e'. e' \<in> insert e (inserted cs) \<longrightarrow> e' \<notin> deleted cs \<longrightarrow> listed (ends e') key i n \<longrightarrow> (\<exists>w. (i, n, e', w) \<in> set (adj_rows R ?am key))"
    proof (intro allI impI)
      fix key i n e' assume a: "e' \<in> insert e (inserted cs)" "e' \<notin> deleted cs" "listed (ends e') key i n"
      show "\<exists>w. (i, n, e', w) \<in> set (adj_rows R ?am key)"
      proof (cases "e' = e")
        case True
        then show ?thesis using a(3) e(2) by (cases key) (auto simp: mem)
      next
        case False
        then show ?thesis using a complete unfolding mem by blast
      qed
    qed
    show "\<forall>key i n e' w'. (i, n, e', w') \<in> set (adj_rows R ?am key) \<longrightarrow> listed (ends e') key i n \<and> i < csr_limit \<and> e' \<in> insert e (inserted cs) \<and>
        (e' \<in> deleted cs \<longrightarrow> hget (seg_tombstones (am_active am)) e' \<noteq> None)"
      using sound e fit unfolding mem by auto
  qed (use i same(4) in blast)+
next
  case (AddTombstone e' s d t w)
  then have e: "e' = e" "ends e = (s, d, t)" using c by auto
  have rows: "adj_rows R (am_add_tombstone e s d t w am) = adj_rows R am" by (simp add: adj_rows_def am_add_tombstone_def fun_eq_iff)
  show ?thesis
    using inv unfolding AddTombstone e(1) apply_call.simps adj_inv_def rows by (auto simp: am_add_tombstone_def e(2) le_Suc_eq)
qed

lemma listed_unique: "listed x key i n \<Longrightarrow> listed x key i' n' \<Longrightarrow> i = i' \<and> n = n'"
  by (cases x; cases key) auto

lemma listed_type: "listed x key i n \<Longrightarrow> snd (snd x) = fst key"
  by (cases x; cases key) auto

lemma move_tombstones:
  "fst (fold (move_tombstone key) ts st) = fst st \<union> {e. \<exists>x. (e, x) \<in> set ts \<and> ot_type x = fst key}"
proof (induction ts arbitrary: st)
  case (Cons p ts)
  have "fst (move_tombstone key p st) = fst st \<union> {e. \<exists>x. (e, x) = p \<and> ot_type x = fst key}"
    by (cases key; cases p; cases st) (auto simp: move_tombstone_def Let_def)
  then show ?case using Cons by auto
qed simp

lemma fold_max_bounds: "(\<forall>x\<in>set xs. x \<le> fold max xs (m :: nat)) \<and> ((\<forall>x\<in>set xs. x < b) \<longrightarrow> m < b \<longrightarrow> fold max xs m < b)"
proof (induction xs arbitrary: m)
  case (Cons x xs)
  have "m' \<le> fold max xs m'" for m' by (induction xs arbitrary: m') (auto intro: le_trans [OF max.cobounded2])
  then show ?case using Cons [of "max x m"] by (auto intro: le_trans [OF max.cobounded1])
qed simp

text \<open>What compacting one key leaves of the rows \<open>rs\<close> it has: those without a tombstone, each edge once.\<close>

definition compacted :: "csr_segment \<Rightarrow> raw_edge list \<Rightarrow> main_csr \<Rightarrow> raw_edge list \<Rightarrow> bool" where
  "compacted seg rs csr raw' \<longleftrightarrow> csr_built csr raw' \<and> length raw' \<le> length rs \<and> set raw' \<subseteq> set rs \<and>
     (\<forall>i n e w. (i, n, e, w) \<in> set raw' \<longrightarrow> hget (seg_tombstones seg) e = None) \<and>
     (\<forall>i n e w. (i, n, e, w) \<in> set rs \<longrightarrow> hget (seg_tombstones seg) e = None \<longrightarrow> (\<exists>w'. (i, n, e, w') \<in> set raw'))"

lemma compact_key_ok:
  assumes seg: "segment_ok seg" and main: "case hget (am_main am) key of None \<Rightarrow> raw = [] | Some csr \<Rightarrow> csr_built csr raw"
    and rows: "\<And>i n e w. (i, n, e, w) \<in> set (raw @ segment_entries key seg) \<Longrightarrow> listed (ends e) key i n \<and> i < csr_limit"
    and ts: "\<And>e ts. hget (seg_tombstones seg) e = Some ts \<Longrightarrow> snd (snd (ends e)) = ot_type ts"
    and len: "length (raw @ segment_entries key seg) < u32_mod"
  shows "\<exists>csr sh bytes raw'. compact_key [seg] key am = Some (am\<lparr>am_shadow := sh, am_main := hput key csr (am_main am), am_bytes := bytes\<rparr>) \<and>
    compacted seg (raw @ segment_entries key seg) csr raw'"
proof -
  obtain T sh where T: "fold (move_tombstone key) (seg_tombstones seg) ({}, am_shadow am) = (T, sh)"
    by (cases "fold (move_tombstone key) (seg_tombstones seg) ({}, am_shadow am)")
  have Tset: "T = {e. \<exists>x. (e, x) \<in> set (seg_tombstones seg) \<and> ot_type x = fst key}"
    using move_tombstones [of key "seg_tombstones seg" "({}, am_shadow am)"] T by simp
  have hm: "hmap_ok (seg_tombstones seg)" using seg by (simp add: segment_ok_def)
  have inT: "e \<in> T \<longleftrightarrow> hget (seg_tombstones seg) e \<noteq> None" if "(i, n, e, w) \<in> set (raw @ segment_entries key seg)" for i n e w
  proof -
    have type: "snd (snd (ends e)) = fst key" using listed_type rows [OF that] by blast
    show ?thesis
    proof (cases "hget (seg_tombstones seg) e")
      case (Some x)
      then show ?thesis using ts [OF Some] type by (simp add: Tset hmap_entries [OF hm])
    qed (simp add: Tset hmap_entries [OF hm])
  qed
  obtain es where es: "old_csr_entries (hget (am_main am) key) = Some es" "mset es = mset raw" using old_entries [OF main] by (elim exE conjE)
  let ?live = "filter (\<lambda>(_, _, eid, _). eid \<notin> T)"
  define entries where "entries = ?live es @ ?live (segment_entries key seg)"
  let ?m = "fold max (map fst entries) 0" and ?raw = "dedup_entries_by_eid entries"
  have mem: "(i, n, e, w) \<in> set entries \<longleftrightarrow> (i, n, e, w) \<in> set (raw @ segment_entries key seg) \<and> hget (seg_tombstones seg) e = None" for i n e w
  proof -
    have "(i, n, e, w) \<in> set entries \<longleftrightarrow> (i, n, e, w) \<in> set (raw @ segment_entries key seg) \<and> e \<notin> T"
      unfolding entries_def set_append set_filter mset_eq_setD [OF es(2)] by blast
    then show ?thesis using inT [of i n e w] by blast
  qed
  have "length entries \<le> length es + length (segment_entries key seg)" unfolding entries_def by (simp add: add_mono)
  then have n: "length entries \<le> length (raw @ segment_entries key seg)" using mset_eq_length [OF es(2)] by simp
  have small: "x < csr_limit" if x: "x \<in> set (map fst entries)" for x
  proof -
    obtain n e w where "(x, n, e, w) \<in> set entries" using x by auto
    then show ?thesis using rows unfolding mem by blast
  qed
  have fit: "?m < csr_limit" using fold_max_bounds [of "map fst entries" 0 csr_limit] small by (simp add: csr_limit_def)
  have built: "csr_built (csr_of ?m ?raw) ?raw"
    unfolding csr_built_def
  proof (intro exI conjI)
    show "length ?raw < u32_mod" using dedup_entries(2) [of entries] n len by linarith
    show "\<forall>r\<in>set ?raw. fst r \<le> ?m" using fold_max_bounds [of "map fst entries" 0 0] dedup_entries(1) [of entries] by auto
    show "?m < csr_limit" by (rule fit)
  qed simp
  have once: "\<exists>w'. (i, n, e, w') \<in> set ?raw" if a: "(i, n, e, w) \<in> set entries" for i n e w
  proof -
    obtain i' n' w' where b: "(i', n', e, w') \<in> set ?raw" using dedup_entries(3) [OF a] by blast
    then have c: "(i', n', e, w') \<in> set entries" using dedup_entries(1) by blast
    have "i' = i \<and> n' = n" using listed_unique [of "ends e" key i' n' i n] rows [of i' n' e w'] rows [of i n e w] a c unfolding mem by blast
    then show ?thesis using b by blast
  qed
  have "compacted seg (raw @ segment_entries key seg) (csr_of ?m ?raw) ?raw"
    unfolding compacted_def
  proof (intro conjI)
    show "length ?raw \<le> length (raw @ segment_entries key seg)" using dedup_entries(2) [of entries] n by linarith
    show "set ?raw \<subseteq> set (raw @ segment_entries key seg)" using dedup_entries(1) [of entries] mem by auto
    show "\<forall>i n e w. (i, n, e, w) \<in> set ?raw \<longrightarrow> hget (seg_tombstones seg) e = None" using dedup_entries(1) [of entries] mem by blast
  qed (use built once mem in blast)+
  moreover have "\<exists>bytes. compact_key [seg] key am =
      Some (am\<lparr>am_shadow := sh, am_main := hput key (csr_of ?m ?raw) (am_main am), am_bytes := bytes\<rparr>)"
    using from_edge_entries_fits [OF fit]
    by (simp add: compact_key_def T es(1) entries_def Let_def) (rule exI, rule refl)
  ultimately show ?thesis by blast
qed

lemma compact_install_ok:
  assumes seg: "segment_ok seg" and "distinct keys"
    and "\<forall>key\<in>set keys. case hget (am_main am) key of None \<Rightarrow> R key = [] | Some csr \<Rightarrow> csr_built csr (R key)"
    and rows: "\<And>key i n e w. (i, n, e, w) \<in> set (R key @ segment_entries key seg) \<Longrightarrow> listed (ends e) key i n \<and> i < csr_limit"
    and ts: "\<And>e ts. hget (seg_tombstones seg) e = Some ts \<Longrightarrow> snd (snd (ends e)) = ot_type ts"
    and len: "\<And>key. length (R key @ segment_entries key seg) < u32_mod"
  shows "\<exists>am'. compact_install [seg] keys am = Some am' \<and> am_frozen am' = am_frozen am \<and> am_active am' = am_active am \<and>
    (\<forall>key\<in>set keys. \<exists>csr raw'. hget (am_main am') key = Some csr \<and> compacted seg (R key @ segment_entries key seg) csr raw') \<and>
    (\<forall>key. key \<notin> set keys \<longrightarrow> hget (am_main am') key = hget (am_main am) key)"
  using assms(2,3)
proof (induction keys arbitrary: am)
  case (Cons k ks)
  have main_k: "case hget (am_main am) k of None \<Rightarrow> R k = [] | Some csr \<Rightarrow> csr_built csr (R k)" using Cons.prems(2) by simp
  have "\<exists>csr sh bytes raw'. compact_key [seg] k am = Some (am\<lparr>am_shadow := sh, am_main := hput k csr (am_main am), am_bytes := bytes\<rparr>) \<and>
      compacted seg (R k @ segment_entries k seg) csr raw'"
    by (rule compact_key_ok [where ends = ends, OF seg main_k _ _ len]; erule rows ts)
  then obtain csr sh bytes raw' where
    step: "compact_key [seg] k am = Some (am\<lparr>am_shadow := sh, am_main := hput k csr (am_main am), am_bytes := bytes\<rparr>)"
      "compacted seg (R k @ segment_entries k seg) csr raw'"
    by blast
  let ?am = "am\<lparr>am_shadow := sh, am_main := hput k csr (am_main am), am_bytes := bytes\<rparr>"
  have k: "k \<notin> set ks" "distinct ks" using Cons.prems(1) by simp_all
  then have other: "hget (am_main ?am) key = hget (am_main am) key" if "key \<in> set ks" for key using that by auto
  have "\<forall>key\<in>set ks. case hget (am_main ?am) key of None \<Rightarrow> R key = [] | Some csr \<Rightarrow> csr_built csr (R key)"
  proof
    fix key assume a: "key \<in> set ks"
    then show "case hget (am_main ?am) key of None \<Rightarrow> R key = [] | Some csr \<Rightarrow> csr_built csr (R key)"
      unfolding other [OF a] using Cons.prems(2) by simp
  qed
  from Cons.IH [OF k(2) this] obtain am' where ih: "compact_install [seg] ks ?am = Some am'" "am_frozen am' = am_frozen am" "am_active am' = am_active am"
    "\<forall>key\<in>set ks. \<exists>csr raw'. hget (am_main am') key = Some csr \<and> compacted seg (R key @ segment_entries key seg) csr raw'"
    "\<forall>key. key \<notin> set ks \<longrightarrow> hget (am_main am') key = hget (hput k csr (am_main am)) key"
    by auto
  have new: "hget (am_main am') k = Some csr" using ih(5) [rule_format, OF k(1)] by simp
  have rest: "hget (am_main am') key = hget (am_main am) key" if a: "key \<notin> set (k # ks)" for key
    using ih(5) [rule_format, of key] a by simp
  have "compact_install [seg] (k # ks) am = Some am'" using ih(1) step(1) by simp
  moreover have "\<forall>key\<in>set (k # ks). \<exists>csr raw'. hget (am_main am') key = Some csr \<and> compacted seg (R key @ segment_entries key seg) csr raw'"
    unfolding list.set(2) ball_simps using new step(2) ih(4) by blast
  ultimately show ?case using ih(2,3) rest by blast
qed simp

lemma freeze_segment_id: "freeze_segment seg = seg"
  by (simp add: freeze_segment_def)

lemma segment_entries_None: "hget (seg_inserts seg) key = None \<Longrightarrow> segment_entries key seg = []"
  by (simp add: segment_entries_def)

lemma adj_inv_compact:
  assumes inv: "adj_inv ends cs R am" and len: "length cs < u32_mod"
  shows "\<exists>am' R'. compact_adjacency am = Some am' \<and> adj_inv ends cs R' am'"
proof -
  note i = inv [unfolded adj_inv_def]
  let ?seg = "am_active am" and ?am = "am\<lparr>am_active := segment_new, am_frozen := [(am_arcs am, am_active am)], am_arcs := am_arcs am + 1\<rparr>"
  let ?keys = "compact_keys [?seg] ?am"
  have seg: "segment_ok ?seg" and fr: "am_frozen am = []"
    and main: "\<And>key. case hget (am_main am) key of None \<Rightarrow> R key = [] | Some csr \<Rightarrow> csr_built csr (R key)"
    and ts: "\<And>e ts. hget (seg_tombstones ?seg) e = Some ts \<Longrightarrow> e \<in> deleted cs \<and> ends e = (ot_src ts, ot_dst ts, ot_type ts)"
    and rows: "\<And>key i n e w. (i, n, e, w) \<in> set (adj_rows R am key) \<Longrightarrow> listed (ends e) key i n \<and> i < csr_limit \<and> e \<in> inserted cs \<and>
        (e \<in> deleted cs \<longrightarrow> hget (seg_tombstones ?seg) e \<noteq> None)"
    and complete: "\<And>key i n e. e \<in> inserted cs \<Longrightarrow> e \<notin> deleted cs \<Longrightarrow> listed (ends e) key i n \<Longrightarrow> \<exists>w. (i, n, e, w) \<in> set (adj_rows R am key)"
    and small: "\<And>key. length (adj_rows R am key) \<le> length cs"
    using i by blast+
  have keys: "distinct ?keys" "set ?keys = fst ` set (seg_inserts ?seg) \<union> fst ` set (am_main am)"
    by (simp_all add: compact_keys_def set_fold_hset_insert distinct_fold_hset_insert Un_commute)
  have "\<exists>am1. compact_install [?seg] ?keys ?am = Some am1 \<and> am_frozen am1 = am_frozen ?am \<and> am_active am1 = am_active ?am \<and>
    (\<forall>key\<in>set ?keys. \<exists>csr raw'. hget (am_main am1) key = Some csr \<and> compacted ?seg (R key @ segment_entries key ?seg) csr raw') \<and>
    (\<forall>key. key \<notin> set ?keys \<longrightarrow> hget (am_main am1) key = hget (am_main ?am) key)"
  proof (rule compact_install_ok [where ends = ends, OF seg keys(1)])
    show "\<forall>key\<in>set ?keys. case hget (am_main ?am) key of None \<Rightarrow> R key = [] | Some csr \<Rightarrow> csr_built csr (R key)" using main by simp
    show "length (R key @ segment_entries key ?seg) < u32_mod" for key using small [of key] len unfolding adj_rows_def by linarith
  qed (use rows ts in \<open>simp_all add: adj_rows_def\<close>)
  then obtain am1 where am1: "compact_install [?seg] ?keys ?am = Some am1" "am_frozen am1 = [(am_arcs am, ?seg)]" "am_active am1 = segment_new"
    "\<forall>key\<in>set ?keys. \<exists>csr raw'. hget (am_main am1) key = Some csr \<and> compacted ?seg (adj_rows R am key) csr raw'"
    "\<forall>key. key \<notin> set ?keys \<longrightarrow> hget (am_main am1) key = hget (am_main am) key"
    by (auto simp: adj_rows_def)
  let ?P = "\<lambda>key raw'. (case hget (am_main am1) key of None \<Rightarrow> raw' = [] | Some csr \<Rightarrow> csr_built csr raw') \<and>
     length raw' \<le> length (adj_rows R am key) \<and> set raw' \<subseteq> set (adj_rows R am key) \<and>
     (\<forall>i n e w. (i, n, e, w) \<in> set raw' \<longrightarrow> hget (seg_tombstones ?seg) e = None) \<and>
     (\<forall>i n e w. (i, n, e, w) \<in> set (adj_rows R am key) \<longrightarrow> hget (seg_tombstones ?seg) e = None \<longrightarrow> (\<exists>w'. (i, n, e, w') \<in> set raw'))"
  have "\<exists>raw'. ?P key raw'" for key
  proof (cases "key \<in> set ?keys")
    case True
    then obtain csr raw' where "hget (am_main am1) key = Some csr" "compacted ?seg (adj_rows R am key) csr raw'" using am1(4) by blast
    then have "?P key raw'" unfolding compacted_def by simp
    then show ?thesis by blast
  next
    case False
    then have none: "hget (am_main am) key = None" "hget (seg_inserts ?seg) key = None" unfolding keys(2) by (auto simp: map_of_eq_None_iff)
    then have "adj_rows R am key = []" using main [of key] by (simp add: adj_rows_def segment_entries_None)
    moreover have "hget (am_main am1) key = None" using am1(5) False none(1) by (metis (no_types))
    ultimately have "?P key []" by simp
    then show ?thesis by blast
  qed
  then have "\<forall>key. \<exists>raw'. ?P key raw'" by blast
  from choice [OF this] obtain R' where R': "\<forall>key. ?P key (R' key)" by blast
  define am' where "am' = am1\<lparr>am_frozen := []\<rparr>"
  have "compact_adjacency am = Some am'"
    using am1(1,2) fr by (simp add: compact_adjacency_def compact_take_def compact_push_def compact_drain_def freeze_segment_id am'_def Let_def)
  moreover have "adj_inv ends cs R' am'"
  proof -
    have rows': "adj_rows R' am' = R'" using am1(3) by (auto simp: adj_rows_def am'_def fun_eq_iff segment_entries_def segment_new_def)
    have none: "hget (seg_tombstones (am_active am')) e = None" for e using am1(3) by (simp add: am'_def segment_new_def)
    have r1: "(i, n, e, w) \<in> set (R' key) \<Longrightarrow> (i, n, e, w) \<in> set (adj_rows R am key) \<and> hget (seg_tombstones ?seg) e = None" for key i n e w
      using R' by blast
    have r2: "(i, n, e, w) \<in> set (adj_rows R am key) \<Longrightarrow> hget (seg_tombstones ?seg) e = None \<Longrightarrow> \<exists>w'. (i, n, e, w') \<in> set (R' key)" for key i n e w
      using R' by blast
    show ?thesis
      unfolding adj_inv_def rows' none
    proof (intro conjI)
      show "\<forall>key. length (R' key) \<le> length cs" using R' small le_trans by blast
      show "segment_ok (am_active am')" using am1(3) by (simp add: am'_def)
      show "\<forall>key. case hget (am_main am') key of None \<Rightarrow> R' key = [] | Some csr \<Rightarrow> csr_built csr (R' key)"
        using R' by (simp add: am'_def)
      show "\<forall>key i n e w. (i, n, e, w) \<in> set (R' key) \<longrightarrow> listed (ends e) key i n \<and> i < csr_limit \<and> e \<in> inserted cs \<and> (e \<in> deleted cs \<longrightarrow> None \<noteq> None)"
        using r1 rows by blast
      show "\<forall>key i n e. e \<in> inserted cs \<longrightarrow> e \<notin> deleted cs \<longrightarrow> listed (ends e) key i n \<longrightarrow> (\<exists>w. (i, n, e, w) \<in> set (R' key))"
        using complete r2 ts by (metis option.exhaust)
    qed (simp_all add: am'_def)
  qed
  ultimately show ?thesis by blast
qed

end
