(* ===== verification/Adjacency_Claims.thy ===== *)
theory Adjacency_Claims
  imports Adjacency_Exact
begin

text \<open>
  What a traversal reads is what the commits have written. A reader of the newest state gets the neighbours over the edges
  inserted and not deleted, whether compactions came in between or not; a reader at an older version gets those of the calls up
  to that version as long as no compaction came in between.
\<close>

subsection \<open>What is promised\<close>

fun seen_from :: "adj_direction \<Rightarrow> vid \<times> vid \<times> u32 \<Rightarrow> vid \<times> vid \<times> u32" where
  "seen_from Fwd (s, d, t) = (s, d, t)"
| "seen_from _ (s, d, t) = (d, s, t)"

text \<open>The neighbours of a vertex over the edges that were inserted and not deleted, in order of vertex and edge.\<close>

definition live_neighbors ::
  "(eid \<Rightarrow> vid \<times> vid \<times> u32) \<Rightarrow> adjacency_call list \<Rightarrow> vid \<Rightarrow> u32 \<Rightarrow> adj_direction \<Rightarrow> (vid \<times> eid) list" where
  "live_neighbors ends cs v t dir =
     sorted_list_of_set (\<Union>d\<in>set (expand dir). (\<lambda>e. (fst (snd (seen_from d (ends e))), e)) `
       {e \<in> inserted cs - deleted cs. fst (seen_from d (ends e)) = v \<and> snd (snd (seen_from d (ends e))) = t})"

text \<open>Every call names the edge's own ends and type; edge ids are never used again after a deletion.\<close>

definition consistent :: "(eid \<Rightarrow> vid \<times> vid \<times> u32) \<Rightarrow> adjacency_call list \<Rightarrow> bool" where
  "consistent ends cs \<longleftrightarrow> list_all (\<lambda>c. snd (call_edge c) = ends (fst (call_edge c))) cs"

fun no_reinsert :: "adjacency_call list \<Rightarrow> bool" where
  "no_reinsert [] \<longleftrightarrow> True"
| "no_reinsert (AdjInsertEdge _ _ _ _ _ # cs) \<longleftrightarrow> no_reinsert cs"
| "no_reinsert (AddTombstone e _ _ _ _ # cs) \<longleftrightarrow> e \<notin> inserted cs \<and> no_reinsert cs"

lemma no_reinsert_after: "no_reinsert (cs @ AdjInsertEdge s d e t w # cs') \<Longrightarrow> e \<notin> deleted cs"
  by (induction cs rule: no_reinsert.induct) auto

lemma listed_seen_from:
  assumes "d \<noteq> BothDirs"
  shows "listed x (t, d) (vnum v) n \<longleftrightarrow> seen_from d x = (v, n, t)"
  using assms by (cases d; cases x) auto

lemma expand_proper: "d \<in> set (expand dir) \<Longrightarrow> d \<noteq> BothDirs"
  by (cases dir) auto

lemma live_neighbors_listed:
  "live_neighbors ends cs v t dir =
     sorted_list_of_set {(n, e). e \<in> inserted cs - deleted cs \<and> (\<exists>d\<in>set (expand dir). listed (ends e) (t, d) (vnum v) n)}"
  unfolding live_neighbors_def
proof (rule arg_cong [of _ _ sorted_list_of_set], rule set_eqI)
  fix x :: "vid \<times> eid"
  obtain n e where x: "x = (n, e)" by (cases x)
  have "seen_from d (ends e) = (v, n, t) \<longleftrightarrow>
      n = fst (snd (seen_from d (ends e))) \<and> fst (seen_from d (ends e)) = v \<and> snd (snd (seen_from d (ends e))) = t" for d
    by (cases "seen_from d (ends e)") auto
  then show "x \<in> (\<Union>d\<in>set (expand dir). (\<lambda>e. (fst (snd (seen_from d (ends e))), e)) `
       {e \<in> inserted cs - deleted cs. fst (seen_from d (ends e)) = v \<and> snd (snd (seen_from d (ends e))) = t}) \<longleftrightarrow>
     x \<in> {(n, e). e \<in> inserted cs - deleted cs \<and> (\<exists>d\<in>set (expand dir). listed (ends e) (t, d) (vnum v) n)}"
    unfolding x using listed_seen_from [OF expand_proper] by auto
qed

subsection \<open>The newest state\<close>

lemma adj_run_inv:
  assumes "adj_inv ends cs R am" "consistent ends (calls_of evs)" "no_reinsert (cs @ calls_of evs)" "length (cs @ calls_of evs) < u32_mod"
    "list_all ends_fit (calls_of evs)"
  shows "\<exists>am' R'. adj_run evs am = Some am' \<and> adj_inv ends (cs @ calls_of evs) R' am'"
  using assms
proof (induction evs arbitrary: cs R am)
  case (Cons ev evs)
  show ?case
  proof (cases ev)
    case (AdjCall c)
    have c: "call_edge c = (fst (call_edge c), ends (fst (call_edge c)))"
      using Cons.prems(2) by (cases "call_edge c") (simp add: AdjCall consistent_def)
    have "adj_inv ends (cs @ [c]) R (apply_call c am)"
    proof (rule adj_inv_call [OF Cons.prems(1) c])
      fix s d t w assume ins: "c = AdjInsertEdge s d (fst (call_edge c)) t w"
      have "no_reinsert (cs @ c # calls_of evs)" using Cons.prems(3) by (simp add: AdjCall)
      then show "fst (call_edge c) \<notin> deleted cs" by (subst (asm) ins) (rule no_reinsert_after)
    qed (use Cons.prems(5) in \<open>simp add: AdjCall\<close>)
    then show ?thesis using Cons.IH [of "cs @ [c]" R "apply_call c am"] Cons.prems by (simp add: AdjCall consistent_def)
  next
    case CompactAdjacency
    obtain am' R' where am': "compact_adjacency am = Some am'" "adj_inv ends cs R' am'"
      using adj_inv_compact [OF Cons.prems(1)] Cons.prems(4) by auto
    then show ?thesis using Cons.IH [OF am'(2)] Cons.prems by (simp add: CompactAdjacency)
  qed
qed auto

lemma main_layer_set:
  assumes "case hget (am_main am) key of None \<Rightarrow> raw = [] | Some csr \<Rightarrow> csr_built csr raw" and valid: "v \<noteq> vid_INVALID"
  shows "\<exists>r'. main_layer am (\<lambda>_. True) key v r = Some r' \<and> set r' = set r \<union> {(n, e). \<exists>w. (vnum v, n, e, w) \<in> set raw}"
proof (cases "hget (am_main am) key")
  case (Some csr)
  then have "csr_built csr raw" using assms by simp
  from csr_built_entries [OF this valid] Some show ?thesis by (force simp: main_layer_def)
qed (use assms in \<open>simp add: main_layer_def\<close>)

lemma active_layer_set:
  assumes "segment_ok seg"
  shows "set (active_layer seg key v r) =
    {(n, e). ((n, e) \<in> set r \<or> (\<exists>w. (vnum v, n, e, w) \<in> set (segment_entries key seg))) \<and> hget (seg_tombstones seg) e = None}"
proof -
  have none: "segment_list seg key v = []" if "\<not> has_entries_for seg (fst key) (snd key)"
    using that by (simp add: has_entries_for_def segment_list_def)
  have "set (if has_entries_for seg (fst key) (snd key) then r @ map (\<lambda>(n, e, _). (n, e)) (segment_list seg key v) else r) =
      set r \<union> {(n, e). \<exists>w. (n, e, w) \<in> set (segment_list seg key v)}"
    using none by force
  then show ?thesis unfolding active_layer_def Let_def segment_list_rows [OF assms] by (cases "seg_tombstones seg") auto
qed

lemma neighbors_dir_set:
  assumes inv: "adj_inv ends cs R am" and r: "\<forall>(n, e)\<in>set r. e \<notin> deleted cs" and valid: "v \<noteq> vid_INVALID"
  shows "\<exists>r'. neighbors_dir am v t d r = Some r' \<and>
    set r' = set r \<union> {(n, e). e \<in> inserted cs - deleted cs \<and> listed (ends e) (t, d) (vnum v) n}"
proof -
  note i = inv [unfolded adj_inv_def adj_rows_def]
  have main: "case hget (am_main am) (t, d) of None \<Rightarrow> R (t, d) = [] | Some csr \<Rightarrow> csr_built csr (R (t, d))" using i by blast
  obtain r1 where r1: "main_layer am (\<lambda>_. True) (t, d) v r = Some r1"
    "set r1 = set r \<union> {(n, e). \<exists>w. (vnum v, n, e, w) \<in> set (R (t, d))}"
    using main_layer_set [OF main valid, of r] by blast
  have seg: "segment_ok (am_active am)" using i by blast
  let ?rows = "set (R (t, d) @ segment_entries (t, d) (am_active am))"
  have sound: "listed (ends e) (t, d) (vnum v) n \<and> e \<in> inserted cs \<and> (e \<in> deleted cs \<longrightarrow> hget (seg_tombstones (am_active am)) e \<noteq> None)"
    if "(vnum v, n, e, w) \<in> ?rows" for n e w using that i by blast
  have complete: "\<exists>w. (vnum v, n, e, w) \<in> ?rows" if "e \<in> inserted cs - deleted cs" "listed (ends e) (t, d) (vnum v) n" for n e
    using that i by blast
  have tomb: "hget (seg_tombstones (am_active am)) e = None" if "e \<notin> deleted cs" for e
    using that i by (metis (no_types) option.exhaust)
  have "neighbors_dir am v t d r = Some (active_layer (am_active am) (t, d) v r1)" using r1(1) i by (simp add: neighbors_dir_def)
  moreover have "set (active_layer (am_active am) (t, d) v r1) =
      {(n, e). ((n, e) \<in> set r \<or> (\<exists>w. (vnum v, n, e, w) \<in> ?rows)) \<and> hget (seg_tombstones (am_active am)) e = None}"
    unfolding active_layer_set [OF seg] r1(2) by auto
  moreover have "\<dots> = set r \<union> {(n, e). e \<in> inserted cs - deleted cs \<and> listed (ends e) (t, d) (vnum v) n}"
  proof (rule set_eqI)
    fix x :: "vid \<times> eid"
    obtain n e where x: "x = (n, e)" by (cases x)
    have "(n, e) \<in> set r \<Longrightarrow> e \<notin> deleted cs" using r by blast
    then show "x \<in> {(n, e). ((n, e) \<in> set r \<or> (\<exists>w. (vnum v, n, e, w) \<in> ?rows)) \<and> hget (seg_tombstones (am_active am)) e = None} \<longleftrightarrow>
        x \<in> set r \<union> {(n, e). e \<in> inserted cs - deleted cs \<and> listed (ends e) (t, d) (vnum v) n}"
      unfolding x using sound [of n e] complete [of e n] tomb [of e] by blast
  qed
  ultimately show ?thesis by blast
qed

lemma fold_dirs_collect:
  assumes step: "\<And>d r. set r \<subseteq> G \<Longrightarrow> \<exists>r'. f d r = Some r' \<and> set r' = set r \<union> X d" and X: "\<And>d. X d \<subseteq> G" and "set r \<subseteq> G"
  shows "\<exists>r'. fold_dirs f ds r = Some r' \<and> set r' = set r \<union> (\<Union>d\<in>set ds. X d)"
  using assms(3)
proof (induction ds arbitrary: r)
  case (Cons d ds)
  obtain r1 where r1: "f d r = Some r1" "set r1 = set r \<union> X d" using step [OF Cons.prems] by blast
  then have "set r1 \<subseteq> G" using X Cons.prems by blast
  from Cons.IH [OF this] r1 show ?case by auto
qed simp

lemma collect_listed: "(\<Union>d\<in>set (expand dir). {(n, e). e \<in> inserted cs - deleted cs \<and> listed (ends e) (t, d) (vnum v) n}) =
    {(n, e). e \<in> inserted cs - deleted cs \<and> (\<exists>d\<in>set (expand dir). listed (ends e) (t, d) (vnum v) n)}"
  by auto

lemma directions_exact:
  assumes "\<And>d r. set r \<subseteq> {(n, e). e \<notin> deleted cs} \<Longrightarrow>
    \<exists>r'. f d r = Some r' \<and> set r' = set r \<union> {(n, e). e \<in> inserted cs - deleted cs \<and> listed (ends e) (t, d) (vnum v) n}"
  shows "map_option into_canonical_order (fold_dirs f (expand dir) []) = Some (live_neighbors ends cs v t dir)"
proof -
  have "\<exists>r. fold_dirs f (expand dir) [] = Some r \<and>
    set r = set [] \<union> (\<Union>d\<in>set (expand dir). {(n, e). e \<in> inserted cs - deleted cs \<and> listed (ends e) (t, d) (vnum v) n})"
    by (rule fold_dirs_collect [where G = "{(n, e). e \<notin> deleted cs}"], erule assms) auto
  then obtain r where "fold_dirs f (expand dir) [] = Some r"
    "set r = (\<Union>d\<in>set (expand dir). {(n, e). e \<in> inserted cs - deleted cs \<and> listed (ends e) (t, d) (vnum v) n})"
    by auto
  then show ?thesis unfolding collect_listed by (simp add: into_canonical_order_set live_neighbors_listed)
qed

text \<open>
  C12 (\<open>neighbors_exact\<close>). For every sequence of the calls that commits make, with compactions anywhere in between, the
  manager never panics, and a traversal from a vertex returns exactly the neighbours over the edges that were inserted and not
  deleted, each pair once and in order: compaction loses no edge, brings no deleted edge back, and leaves no duplicate. The
  calls are fewer than 2 to the 32, name each edge's own ends and type, and insert no edge after its deletion; the numbers of
  the vertices are small enough for arrays of offsets to be allocated.
\<close>

theorem neighbors_exact:
  assumes "consistent ends (calls_of evs)" "no_reinsert (calls_of evs)" "length (calls_of evs) < u32_mod" "list_all ends_fit (calls_of evs)"
  shows "\<exists>am. adj_run evs (am_new max_bytes) = Some am \<and>
    (\<forall>v t dir. v \<noteq> vid_INVALID \<longrightarrow> am_get_neighbors am v t dir = Some (live_neighbors ends (calls_of evs) v t dir))"
proof -
  obtain am R where am: "adj_run evs (am_new max_bytes) = Some am" "adj_inv ends (calls_of evs) R am"
    using adj_run_inv [OF adj_inv_new, of ends evs max_bytes] assms by auto
  have "am_get_neighbors am v t dir = Some (live_neighbors ends (calls_of evs) v t dir)" if v: "v \<noteq> vid_INVALID" for v t dir
    unfolding am_get_neighbors_def by (rule directions_exact, rule neighbors_dir_set [OF am(2) _ v]) blast
  then show ?thesis using am(1) by blast
qed

definition example_ends :: "eid \<Rightarrow> vid \<times> vid \<times> u32" where
  "example_ends e = (if e = Eid 7 then (Vid 1, Vid 2, 4) else if e = Eid 8 then (Vid 1, Vid 3, 4) else (Vid 3, Vid 1, 4))"

definition example_events :: "adj_event list" where
  "example_events =
     [AdjCall (AdjInsertEdge (Vid 1) (Vid 2) (Eid 7) 4 5), AdjCall (AdjInsertEdge (Vid 1) (Vid 3) (Eid 8) 4 6), CompactAdjacency,
      AdjCall (AddTombstone (Eid 7) (Vid 1) (Vid 2) 4 9), CompactAdjacency, AdjCall (AdjInsertEdge (Vid 3) (Vid 1) (Eid 9) 4 10)]"

lemma example_calls: "calls_of example_events =
    [AdjInsertEdge (Vid 1) (Vid 2) (Eid 7) 4 5, AdjInsertEdge (Vid 1) (Vid 3) (Eid 8) 4 6,
     AddTombstone (Eid 7) (Vid 1) (Vid 2) 4 9, AdjInsertEdge (Vid 3) (Vid 1) (Eid 9) 4 10]"
  by (simp add: example_events_def)

lemma neighbors_exact_witness:
  "map_option (\<lambda>am. am_get_neighbors am (Vid 1) 4 BothDirs) (adj_run example_events (am_new 100)) = Some (Some [(Vid 3, Eid 8), (Vid 3, Eid 9)])"
proof -
  have h: "consistent example_ends (calls_of example_events)" "no_reinsert (calls_of example_events)" "length (calls_of example_events) < u32_mod"
      "list_all ends_fit (calls_of example_events)" and valid: "Vid 1 \<noteq> vid_INVALID"
    unfolding example_calls by (simp_all add: consistent_def example_ends_def u32_mod_def vnum_def csr_limit_def vid_INVALID_def)
  have "live_neighbors example_ends (calls_of example_events) (Vid 1) 4 BothDirs = [(Vid 3, Eid 8), (Vid 3, Eid 9)]"
    unfolding example_calls by code_simp
  then show ?thesis using neighbors_exact [OF h, of 100] valid by auto
qed

subsection \<open>Older versions\<close>

fun call_version :: "adjacency_call \<Rightarrow> nat" where
  "call_version (AdjInsertEdge _ _ _ _ w) = w"
| "call_version (AddTombstone _ _ _ _ w) = w"

fun deleted_once :: "adjacency_call list \<Rightarrow> bool" where
  "deleted_once [] \<longleftrightarrow> True"
| "deleted_once (AdjInsertEdge _ _ _ _ _ # cs) \<longleftrightarrow> deleted_once cs"
| "deleted_once (AddTombstone e _ _ _ _ # cs) \<longleftrightarrow> e \<notin> deleted cs \<and> deleted_once cs"

lemma deleted_once_append: "deleted_once (xs @ ys) \<longleftrightarrow> deleted_once xs \<and> deleted_once ys \<and> deleted xs \<inter> deleted ys = {}"
  by (induction xs rule: deleted_once.induct) auto

lemma inserted_iff: "e \<in> inserted cs \<longleftrightarrow> (\<exists>s d t w. AdjInsertEdge s d e t w \<in> set cs)"
  by (induction cs rule: inserted.induct) auto

lemma deleted_iff: "e \<in> deleted cs \<longleftrightarrow> (\<exists>s d t w. AddTombstone e s d t w \<in> set cs)"
  by (induction cs rule: deleted.induct) auto

text \<open>Without compactions the active segment holds all calls.\<close>

definition all_active :: "adjacency_call list \<Rightarrow> adjacency_manager \<Rightarrow> bool" where
  "all_active cs am \<longleftrightarrow> am_frozen am = [] \<and> am_main am = [] \<and> am_shadow am = [] \<and> segment_ok (am_active am) \<and>
     (\<forall>key i n e w. (i, n, e, w) \<in> set (segment_entries key (am_active am)) \<longleftrightarrow>
        (\<exists>s d t. AdjInsertEdge s d e t w \<in> set cs \<and> listed (s, d, t) key i n)) \<and>
     (\<forall>e w. map_option ot_version (hget (seg_tombstones (am_active am)) e) = Some w \<longleftrightarrow> (\<exists>s d t. AddTombstone e s d t w \<in> set cs))"

lemma all_active_fold: "deleted_once cs \<Longrightarrow> all_active cs (fold apply_call cs (am_new b))"
proof (induction cs rule: rev_induct)
  case Nil
  then show ?case by (simp add: all_active_def am_new_def)
next
  case (snoc c cs)
  let ?am = "fold apply_call cs (am_new b)"
  have inv: "all_active cs ?am" and once: "deleted cs \<inter> deleted [c] = {}" using snoc by (simp_all add: deleted_once_append)
  note i = inv [unfolded all_active_def]
  show ?case
  proof (cases c)
    case (AdjInsertEdge s d e t w)
    have seg: "segment_ok (am_active ?am)" using i by blast
    note s1 = segment_insert_rows [OF seg, where s = s and d = d and e = e and t = t and w = w and dir = Fwd]
    note s2 = segment_insert_rows [OF s1(1), where s = d and d = s and e = e and t = t and w = w and dir = Bwd]
    have "mset (segment_entries key (am_active (apply_call c ?am))) = mset (segment_entries key (am_active ?am)) +
      (if key = (t, Fwd) then {#(vnum s, d, e, w)#} else {#}) + (if key = (t, Bwd) then {#(vnum d, s, e, w)#} else {#})" for key
      by (simp add: AdjInsertEdge am_insert_edge_def s1(2) s2(2))
    from arg_cong [OF this, of set_mset]
    have mem: "x \<in> set (segment_entries key (am_active (apply_call c ?am))) \<longleftrightarrow>
      x \<in> set (segment_entries key (am_active ?am)) \<or> key = (t, Fwd) \<and> x = (vnum s, d, e, w) \<or> key = (t, Bwd) \<and> x = (vnum d, s, e, w)" for x key
      by auto
    have new: "listed (s, d, t) key j n \<longleftrightarrow> key = (t, Fwd) \<and> j = vnum s \<and> n = d \<or> key = (t, Bwd) \<and> j = vnum d \<and> n = s" for key j n
      by (cases key) auto
    have old: "(j, n, e', w') \<in> set (segment_entries key (am_active ?am)) \<longleftrightarrow>
        (\<exists>s d t. AdjInsertEdge s d e' t w' \<in> set cs \<and> listed (s, d, t) key j n)" for key j n e' w'
      using i by blast
    have last: "(\<exists>s d t. AdjInsertEdge s d e' t w' \<in> set (cs @ [c]) \<and> listed (s, d, t) key j n) \<longleftrightarrow>
        (\<exists>s d t. AdjInsertEdge s d e' t w' \<in> set cs \<and> listed (s, d, t) key j n) \<or> e' = e \<and> w' = w \<and> listed (s, d, t) key j n" for key j n e' w'
      unfolding AdjInsertEdge by (auto simp del: listed.simps)
    have "(j, n, e', w') \<in> set (segment_entries key (am_active (apply_call c ?am))) \<longleftrightarrow>
        (\<exists>s d t. AdjInsertEdge s d e' t w' \<in> set (cs @ [c]) \<and> listed (s, d, t) key j n)" for key j n e' w'
      unfolding mem last old new prod.inject by blast
    moreover have "am_frozen (apply_call c ?am) = [] \<and> am_main (apply_call c ?am) = [] \<and> am_shadow (apply_call c ?am) = [] \<and>
        segment_ok (am_active (apply_call c ?am)) \<and> seg_tombstones (am_active (apply_call c ?am)) = seg_tombstones (am_active ?am)"
      using i s1 s2 by (simp add: AdjInsertEdge am_insert_edge_def)
    ultimately show ?thesis using i by (simp add: all_active_def AdjInsertEdge)
  next
    case (AddTombstone e s d t w)
    then have "e \<notin> deleted cs" using once by simp
    then show ?thesis using i by (auto simp: all_active_def AddTombstone am_add_tombstone_def deleted_iff)
  qed
qed

lemma visible_dir_set:
  assumes inv: "all_active cs am" and cons: "consistent ends cs"
    and r: "set r \<subseteq> {(n, e). e \<notin> deleted (filter (admits vis \<circ> call_version) cs)}"
  shows "\<exists>r'. visible_dir vis am v t d r = Some r' \<and> set r' = set r \<union>
    {(n, e). e \<in> inserted (filter (admits vis \<circ> call_version) cs) - deleted (filter (admits vis \<circ> call_version) cs) \<and> listed (ends e) (t, d) (vnum v) n}"
    (is "\<exists>r'. _ \<and> set r' = set r \<union> ?new")
proof -
  note i = inv [unfolded all_active_def]
  let ?seg = "am_active am" and ?cs = "filter (admits vis \<circ> call_version) cs"
  have seg: "segment_ok ?seg" using i by blast
  have del: "deleted_for vis ?seg e \<longleftrightarrow> e \<in> deleted ?cs" for e
  proof -
    have "deleted_for vis ?seg e \<longleftrightarrow> (\<exists>w. map_option ot_version (hget (seg_tombstones ?seg) e) = Some w \<and> admits vis w)"
      by (auto simp: deleted_for_def split: option.splits)
    then show ?thesis using i by (auto simp: deleted_iff)
  qed
  have ends: "ends e = (s, d', t')" if "AdjInsertEdge s d' e t' w \<in> set cs" for s d' e t' w
    using cons that by (auto simp: consistent_def list_all_iff)
  have rows: "(\<exists>w. admits vis w \<and> (n, e, w) \<in> set (segment_list ?seg (t, d) v)) \<longleftrightarrow> e \<in> inserted ?cs \<and> listed (ends e) (t, d) (vnum v) n" for n e
  proof -
    have "(n, e, w) \<in> set (segment_list ?seg (t, d) v) \<longleftrightarrow> (\<exists>s d' t'. AdjInsertEdge s d' e t' w \<in> set cs \<and> listed (s, d', t') (t, d) (vnum v) n)" for w
      unfolding segment_list_rows [OF seg] using i by blast
    then show ?thesis using ends by (auto simp: inserted_iff; blast)
  qed
  have none: "segment_list ?seg (t, d) v = []" if "\<not> has_entries_for ?seg t d" using that by (simp add: has_entries_for_def segment_list_def)
  have nodel: "\<not> deleted_for vis ?seg e" if "seg_tombstones ?seg = []" for e using that by (simp add: deleted_for_def)
  have "set (active_layer_visible vis ?seg (t, d) v r) =
      {(n, e). ((n, e) \<in> set r \<or> (\<exists>w. admits vis w \<and> (n, e, w) \<in> set (segment_list ?seg (t, d) v))) \<and> \<not> deleted_for vis ?seg e}"
  proof (cases "has_entries_for ?seg t d")
    case True
    then show ?thesis using nodel by (cases "seg_tombstones ?seg") (force simp: active_layer_visible_def)+
  next
    case False
    then show ?thesis using nodel none [OF False] by (cases "seg_tombstones ?seg") (auto simp: active_layer_visible_def)
  qed
  also have "\<dots> = set r \<union> ?new" unfolding rows del using r by auto
  finally have "set (active_layer_visible vis ?seg (t, d) v r) = set r \<union> ?new" .
  moreover have "visible_dir vis am v t d r = Some (active_layer_visible vis ?seg (t, d) v r)"
    using i by (simp add: visible_dir_def main_layer_def get_entries_visible_def shadow_get_entries_def)
  ultimately show ?thesis by blast
qed

text \<open>
  C16 (\<open>neighbors_visible_exact\<close>). As long as the overlay has not been compacted, a reader that admits some
  versions, those up to a mark less some hidden ones, gets exactly the neighbours over the edges that the calls of those
  versions inserted and did not delete: it sees nothing that was written later or that is hidden, and still sees an edge that
  was deleted later. Every call names the edge's own ends, and an edge is deleted once.
\<close>

theorem neighbors_visible_exact:
  assumes "consistent ends cs" "deleted_once cs"
  shows "get_neighbors_visible (fold apply_call cs (am_new max_bytes)) v t dir vis =
    Some (live_neighbors ends (filter (admits vis \<circ> call_version) cs) v t dir)"
  unfolding get_neighbors_visible_def
  by (rule directions_exact, rule visible_dir_set [OF all_active_fold [OF assms(2)] assms(1)])

lemma neighbors_visible_exact_witness:
  "get_neighbors_visible (fold apply_call (calls_of example_events) (am_new 100)) (Vid 1) 4 BothDirs \<lparr>rv_hwm = Some 8, rv_hidden = [6]\<rparr> =
     Some [(Vid 2, Eid 7)]"
proof -
  have h: "consistent example_ends (calls_of example_events)" "deleted_once (calls_of example_events)"
    unfolding example_calls by (simp_all add: consistent_def example_ends_def)
  have "live_neighbors example_ends (filter (admits \<lparr>rv_hwm = Some 8, rv_hidden = [6]\<rparr> \<circ> call_version) (calls_of example_events)) (Vid 1) 4 BothDirs =
      [(Vid 2, Eid 7)]"
    unfolding example_calls by code_simp
  then show ?thesis using neighbors_visible_exact [OF h, of 100 "Vid 1" 4 BothDirs "\<lparr>rv_hwm = Some 8, rv_hidden = [6]\<rparr>"] by simp
qed

subsection \<open>Compaction and history\<close>


text \<open>The states of a manager, one operation after the other.\<close>

inductive adj_reachable :: "adjacency_manager \<Rightarrow> bool" where
  reach_new: "adj_reachable (am_new max_bytes)"
| reach_call: "adj_reachable am \<Longrightarrow> adj_reachable (apply_call c am)"
| reach_install: "adj_reachable am \<Longrightarrow> adj_reachable (set_main_csr key csr am)"
| reach_invalidate: "adj_reachable am \<Longrightarrow> adj_reachable (invalidate_csr key am)"
| reach_invalidate_all: "adj_reachable am \<Longrightarrow> adj_reachable (invalidate_all_csr am)"
| reach_reset: "adj_reachable am \<Longrightarrow> adj_reachable (am_reset am)"
| reach_gc: "adj_reachable am \<Longrightarrow> adj_reachable (gc_shadow pinned version am)"
| reach_compact: "adj_reachable am \<Longrightarrow> compact_adjacency am = Some am' \<Longrightarrow> adj_reachable am'"

lemma compact_key_frozen: "compact_key segments key am = Some am' \<Longrightarrow> am_frozen am' = am_frozen am"
  by (auto simp: compact_key_def Let_def split: prod.splits option.splits)

lemma compact_install_frozen: "compact_install segments keys am = Some am' \<Longrightarrow> am_frozen am' = am_frozen am"
  by (induction keys arbitrary: am) (auto simp: bind_eq_Some_conv dest: compact_key_frozen)

lemma compact_frozen: "compact_adjacency am = Some am' \<Longrightarrow> am_frozen am = [] \<Longrightarrow> am_frozen am' = []"
  by (auto simp: compact_adjacency_def compact_take_def compact_push_def compact_drain_def Let_def dest!: compact_install_frozen)

lemma reachable_frozen: "adj_reachable am \<Longrightarrow> am_frozen am = []"
proof (induction rule: adj_reachable.induct)
  case (reach_call am c)
  then show ?case by (cases c) (simp_all add: am_insert_edge_def am_add_tombstone_def)
qed (auto simp: am_new_def set_main_csr_def invalidate_csr_def invalidate_all_csr_def am_reset_def gc_shadow_def Let_def intro: compact_frozen)

text \<open>
  Between operations no segment is ever frozen: only a compaction freezes one, and it
  drains the one it froze. So the test that decides whether to compact, at least as many frozen segments as a positive
  threshold, is never true, and the overlay is never compacted on the writer's account.
\<close>

theorem compaction_never_due: "adj_reachable am \<Longrightarrow> 0 < threshold \<Longrightarrow> \<not> should_compact am threshold"
  by (simp add: should_compact_def reachable_frozen)

end
