(* ===== verification/Spec2Isabelle.thy ===== *)
theory Spec2Isabelle
  imports L0_Keys L0_Stamps Commit_Claims Publish_Sequencer Id_Alloc Adjacency_Claims
begin

text \<open>
  \<^bold>\<open>The write path of uni-db.\<close> uni-db is an embedded graph database in Rust (\<^verbatim>\<open>src/crates\<close>). This development
  models its transactional core: the CRDT property types (\<^verbatim>\<open>uni-crdt\<close>), the identifiers and the adjacency
  structure (\<^verbatim>\<open>uni-common\<close>), and, in \<^verbatim>\<open>uni-store/src/runtime\<close>, the in-memory write buffer L0, the manager of
  its generations, the write-ahead log, the optimistic concurrency control and the commit, and, in \<^verbatim>\<open>uni-store/src/storage\<close>,
  the adjacency that traversals read.

  \<^bold>\<open>How the parts interact.\<close> A transaction writes into a private L0 buffer. At commit, under one lock, the
  writer (\<^verbatim>\<open>writer.rs\<close>) checks the buffer's write-set against the registry of recent commits (\<^verbatim>\<open>occ.rs\<close>) and
  against the buffers not yet flushed, logs the buffer's mutations and makes the log durable (\<^verbatim>\<open>wal.rs\<close>),
  copies the current buffer aside if a snapshot reads it (\<^verbatim>\<open>l0_manager.rs\<close>), and merges the transaction's
  buffer into the current one (\<^verbatim>\<open>l0.rs\<close>); CRDT properties are merged and not replaced; the edges it wrote go to the adjacency manager. When the database
  is opened again the log is replayed into an empty buffer.

  \<^bold>\<open>Conventions.\<close> A hash map is an association list with distinct keys (\<open>hmap\<close>, with \<open>hget\<close>, \<open>hput\<close>, \<open>hdel\<close>) and
  the invariants say so; the order of the list stands for the iteration order, which the theorems leave
  arbitrary. A hash set the code iterates over is a distinct list, one it only queries is a set. A panic
  and a loop that does not end are \<open>None\<close>; a \<open>Result\<close> is a sum with the error on the left. Identifiers and
  counters that the code packs or lets wrap are words; versions, sequence numbers and log positions are natural
  numbers, since they only count up from zero one at a time. Buffers shared through an \<open>Arc\<close> are addresses
  in an explicit store. Metrics, tracing and fail points are left out. What the code calls outside the
  repository is an argument: serialization (\<open>ser\<close>, \<open>json_bytes\<close>, the codecs), the hash of a log segment, the
  answers of the object store, clocks and fresh UUIDs, CRDT providers of plugins.

  \<^bold>\<open>The theories.\<close>
  \<^item> \<open>Prelude\<close>: hash maps and sets as lists, saturating and word arithmetic, lists and options.
  \<^item> \<open>Ids\<close> (\<^verbatim>\<open>core/id.rs\<close>): \<open>Vid\<close>, \<open>Eid\<close>, \<open>DenseIdx\<close>, with the packing of transient ids into the upper half of the
    64-bit range.
  \<^item> \<open>Simple_Graph\<close> (\<^verbatim>\<open>graph/simple_graph.rs\<close>): two adjacency maps and an index of the positions of an edge in
    them, kept right under swap-removal. Runs of operations refine a set of vertices and a map of edges
    (locale \<open>digraph\<close>, interpreted on the code's model).
  \<^item> \<open>Crdt_Core\<close>, \<open>Crdt_Registers\<close>, \<open>Vector_Clock\<close>, \<open>Crdt_ORSet\<close>, \<open>Crdt_Rga\<close>, \<open>Crdt_Enum\<close> (\<^verbatim>\<open>uni-crdt/src\<close>): every CRDT
    type, its operations and its merge. The locale \<open>state_crdt\<close> is the contract of a state-based CRDT: an
    invariant, a view and a join on views; each type interprets it, and convergence is proved once inside it.
  \<^item> \<open>Occ_Registry\<close>, \<open>Occ_L0\<close> (\<^verbatim>\<open>occ.rs\<close>): write-sets and read-sets, the bounded registry with its fence, the check at
    commit, and the write-set of a buffer with its exception for CRDT writes.
  \<^item> \<open>Value\<close>, \<open>L0_Buffer\<close>, \<open>L0_Ops\<close> (\<^verbatim>\<open>value.rs\<close>, \<^verbatim>\<open>l0.rs\<close>): property values, the buffer's record, and its
    operations. \<open>L0_Invariant\<close> defines the invariant \<open>l0_ok\<close> and the abstract state \<open>l0_view\<close>; \<open>L0_Refinement\<close> and \<open>L0_Run\<close>
    prove that each operation keeps the one and acts on the other as its specification says. \<open>L0_Keys\<close> is about
    uniqueness keys.
  \<^item> \<open>L0_Merge\<close>, \<open>L0_Merge_Phases\<close>, \<open>L0_Merge_Spec\<close>, \<open>L0_Stamps\<close> (\<open>L0Buffer::merge\<close>, \<open>merge_take\<close>): the merge of a
    transaction, phase by phase, against the abstract merge \<open>a_merge\<close>, and its time stamps.
  \<^item> \<open>Wal\<close>, \<open>Wal_Names\<close>, \<open>Wal_Replay\<close>, \<open>Wal_Reopen\<close> (\<^verbatim>\<open>wal.rs\<close>): segments, their names and envelopes, buffering,
    flushing with each way it can fail, replay, truncation and reopening.
  \<^item> \<open>L0_Replay\<close>, \<open>Commit_Log\<close> (\<open>L0Buffer::replay_mutations\<close>, the log step of a commit): what replay rebuilds.
  \<^item> \<open>L0_Manager\<close>, \<open>L0_Snapshots\<close> (\<^verbatim>\<open>l0_manager.rs\<close>): the generations of the buffer, pins and snapshots; the locale
    \<open>snapshot_source\<close> is what a reader relies on.
  \<^item> \<open>Commit\<close>, \<open>Commit_Safety\<close>, \<open>Commit_Claims\<close> (\<^verbatim>\<open>writer.rs\<close>): the commit of a transaction, start to end.
  \<^item> \<open>Publish_Sequencer\<close> (\<^verbatim>\<open>publish_sequencer.rs\<close>): tickets, and the release of announcements in ticket order.
  \<^item> \<open>Id_Alloc\<close> (\<^verbatim>\<open>id_allocator.rs\<close>, \<^verbatim>\<open>id_reservoir.rs\<close>): batches of ids reserved in the object store, and the cache of ids of
    a transaction.
  \<^item> \<open>Csr\<close> (\<^verbatim>\<open>storage/csr.rs\<close>): the packed adjacency arrays \<open>MainCsr\<close>, built and looked up.
  \<^item> \<open>Adjacency\<close>, \<open>Adjacency_Exact\<close>, \<open>Adjacency_Claims\<close> (\<^verbatim>\<open>storage/adjacency_manager.rs\<close>, \<^verbatim>\<open>adjacency_overlay.rs\<close>, \<^verbatim>\<open>shadow_csr.rs\<close>,
    \<^verbatim>\<open>direction.rs\<close>, \<^verbatim>\<open>bulk_gate.rs\<close>): the layers a traversal reads, the calls of commits on them, and compaction step by step;
    the invariant that ties the layers to the calls; the claims.

  \<^bold>\<open>What the theorems show.\<close>
  \<^item> CRDTs: replicas that have merged the same states agree, in whatever order and how often (every type but
    \<open>VCRegister\<close>); adds win over concurrent removes and observed removes take effect; the decoder of stored sets
    keeps the elements; the walk of a sequence ends and lists it in order; \<open>causal_cmp\<close> is the causal order.
    Two divergences are proved as such: of registers with concurrent vector clocks, and of maps in which a
    removed key and a null serialise alike.
  \<^item> Concurrency control: transactions that pass the check are serializable; the check fails exactly if there
    is a conflict or the history is gone; a fence turns away every older transaction.
  \<^item> Buffer: any sequence of writes is the specified change of the abstract state, no operation panics, and the
    graph and the label index agree with the rows; deletion leaves nothing behind; a merge happens wholly or not
    at all; uniqueness keys are exact and move with a vertex. Two gaps are proved as such: the key of an edge does not
    move, and a merge loses the creation time of a vertex.
  \<^item> Log: what was appended is replayed in order and once, across flushes that fail; corrupt segments are detected;
    names sort as numbers; reopening after truncation never reuses a position. Replay of a run, and of a
    commit, gives the state that the run or the merge gave. A gap is proved as such: a commit that was refused because the
    store rejected its segment becomes durable with the next one.
  \<^item> Snapshots: a snapshot's rows never change while it lives, unless it is pinned in the middle of a commit, which is
    proved as such.
  \<^item> Commit: it fails without a trace, or with only the log changed, or it takes effect completely; CRDT state that is
    being flushed is not shadowed. A gap is proved as such: a transaction that writes only CRDT values brings back a vertex that was
    deleted meanwhile.
  \<^item> Announcements: they leave in commit order, each once, and none is held back for ever; the announced mark names exactly
    the commits announced.
  \<^item> Ids: none is given out twice, across failures and restarts. A gap is proved as such: a write of the counters whose
    reply is lost makes every later reservation fail.
  \<^item> Adjacency: a traversal finds exactly the edges that commits inserted and did not delete, whatever was compacted in
    between, and a reader of older versions exactly those of its versions, as long as nothing was compacted. Gaps are proved
    as such: compaction changes what older readers see, its trigger never fires, and the invalid id makes a lookup panic.

  \<^bold>\<open>Bounds.\<close> Loops are structural recursion, or recursion with a termination proof. The walk of \<open>Rga\<close> and the loops
  of \<open>SimpleGraph\<close> that empty an adjacency list are partial functions to \<open>option\<close>; that they return is part of
  \<open>rga_to_vec_total\<close> and \<open>graph_run_refines\<close>. No fuel is used.

  \<^bold>\<open>Not modelled.\<close> Flushing L0 into Lance tables and everything below it (the tables of \<^verbatim>\<open>storage\<close>, \<^verbatim>\<open>backend\<close>, compaction of
  tables, warming the adjacency from them, secondary indexes) is calls into the Lance, Arrow and DataFusion libraries, with little state of its own. The same
  holds for the query engine (\<^verbatim>\<open>uni-query\<close>), whose operators are DataFusion plans. The Cypher and Locy parsers
  are generated from grammars. Bindings, command line, plugin hosts, model runtimes and test kits are
  interfaces to other runtimes. Locks and tasks are modelled only through the order of the steps they allow. Value
  equality, hashing and text forms (\<^verbatim>\<open>value.rs\<close>) need floating-point semantics that the rest does not depend on.
\<close>

end
